(* ===== verification/Prelude.thy ===== *)
theory Prelude
  imports Main "HOL-Library.Word"
begin

text \<open>
  The vocabulary shared by every component of the node: bytes, the result type of the fallible
  functions of the source (\<open>outcome::result\<close>), the sequencing of fallible steps on a state,
  and the little-endian and big-endian object representations of unsigned integers
  (\<open>std::bit_cast\<close> on the little-endian targets that core/common/endian.hpp requires).
  The lemmas on integers as byte lists are the ones every codec rests on.
\<close>

section \<open>Types\<close>

type_synonym byte = "8 word"
type_synonym bytes = "8 word list"

text \<open>\<open>outcome::result<T>\<close>: a value or an error. A \<open>outcome::result<void>\<close> is an
  \<open>'e option\<close>, \<open>None\<close> being \<open>outcome::success()\<close>.\<close>

datatype ('e, 'a) outcome = Failure 'e | Success 'a

type_synonym 'e status = "'e option"

named_theorems word_bytes_simps \<open>integers as byte lists\<close>
named_theorems codec_intros \<open>composition rules of the serialization contract\<close>

section \<open>Sequencing of fallible steps\<close>

text \<open>A step maps a state to a status and a state. The source chains steps either by early return
  or by testing \<open>if (not result.has_error())\<close>; both run the second step only
  after a success of the first one.\<close>

definition and_then :: "('s \<Rightarrow> 'e status \<times> 's) \<Rightarrow> ('s \<Rightarrow> 'e status \<times> 's) \<Rightarrow> 's \<Rightarrow> 'e status \<times> 's" where
  "and_then f g s = (case f s of (None, t) \<Rightarrow> g t | (Some e, t) \<Rightarrow> (Some e, t))"

text \<open>A step on a member of an object, next to a state shared by all members.\<close>

definition on_field ::
  "('r \<Rightarrow> 'v) \<Rightarrow> ('v \<Rightarrow> 'r \<Rightarrow> 'r) \<Rightarrow> ('v \<times> 's \<Rightarrow> 'e status \<times> 'v \<times> 's) \<Rightarrow> 'r \<times> 's \<Rightarrow> 'e status \<times> 'r \<times> 's" where
  "on_field get put f x = (case x of (r, s) \<Rightarrow> (case f (get r, s) of (e, v, t) \<Rightarrow> (e, put v r, t)))"

section \<open>Integers as bytes\<close>

primrec nat_to_le :: "nat \<Rightarrow> nat \<Rightarrow> bytes" where
  "nat_to_le 0 v = []"
| "nat_to_le (Suc n) v = of_nat (v mod 256) # nat_to_le n (v div 256)"

primrec le_to_nat :: "bytes \<Rightarrow> nat" where
  "le_to_nat [] = 0"
| "le_to_nat (b # bs) = unat b + 256 * le_to_nat bs"

definition word_to_le :: "'a::len word \<Rightarrow> bytes" where
  "word_to_le w = nat_to_le (LENGTH('a) div 8) (unat w)"

definition le_to_word :: "bytes \<Rightarrow> 'a::len word" where
  "le_to_word bs = of_nat (le_to_nat bs)"

definition word_to_be :: "'a::len word \<Rightarrow> bytes" where
  "word_to_be w = rev (word_to_le w)"

definition be_to_word :: "bytes \<Rightarrow> 'a::len word" where
  "be_to_word bs = le_to_word (rev bs)"

section \<open>Lemmas\<close>

lemma and_then_Success [simp]: "f s = (None, t) \<Longrightarrow> and_then f g s = g t"
  by (simp add: and_then_def)

lemma and_then_Failure [simp]: "f s = (Some e, t) \<Longrightarrow> and_then f g s = (Some e, t)"
  by (simp add: and_then_def)

lemma and_then_eq_None:
  "and_then f g s = (None, u) \<longleftrightarrow> (\<exists>t. f s = (None, t) \<and> g t = (None, u))"
  by (auto simp: and_then_def split: prod.splits option.splits)

lemma and_then_assoc: "and_then (and_then f g) h = and_then f (and_then g h)"
  by (rule ext) (auto simp: and_then_def split: prod.splits option.splits)

lemma length_nat_to_le [simp, word_bytes_simps]: "length (nat_to_le n v) = n"
  by (induction n arbitrary: v) auto

lemma le_to_nat_less: "le_to_nat bs < 256 ^ length bs"
proof (induction bs)
  case (Cons b bs)
  have "unat b < 256"
    using unsigned_less [of b, where ?'a = nat] by simp
  with Cons show ?case
    by simp
qed simp

lemma le_to_nat_nat_to_le [word_bytes_simps]: "le_to_nat (nat_to_le n v) = v mod 256 ^ n"
proof (induction n arbitrary: v)
  case (Suc n)
  have "unat (of_nat (v mod 256) :: byte) = v mod 256"
    by (simp add: unat_of_nat)
  then show ?case
    by (simp add: Suc mod_mult2_eq)
qed simp

lemma nat_to_le_le_to_nat [word_bytes_simps]: "nat_to_le (length bs) (le_to_nat bs) = bs"
proof (induction bs)
  case (Cons b bs)
  have "unat b < 256"
    using unsigned_less [of b, where ?'a = nat] by simp
  with Cons show ?case
    by simp
qed simp

lemma nat_to_le_le_to_nat_len: "length bs = n \<Longrightarrow> nat_to_le n (le_to_nat bs) = bs"
  using nat_to_le_le_to_nat by blast

lemma le_to_nat_append: "le_to_nat (xs @ ys) = le_to_nat xs + 256 ^ length xs * le_to_nat ys"
  by (induction xs) (simp_all add: algebra_simps)

lemma nat_to_le_inject:
  "a < 256 ^ n \<Longrightarrow> b < 256 ^ n \<Longrightarrow> nat_to_le n a = nat_to_le n b \<longleftrightarrow> a = b"
  by (metis le_to_nat_nat_to_le mod_less)

lemma length_word_to_le [simp, word_bytes_simps]:
  "length (word_to_le (w :: 'a::len word)) = LENGTH('a) div 8"
  by (simp add: word_to_le_def)

lemma length_word_to_be [simp, word_bytes_simps]:
  "length (word_to_be (w :: 'a::len word)) = LENGTH('a) div 8"
  by (simp add: word_to_be_def)

lemma power_256: "8 dvd n \<Longrightarrow> (256 :: nat) ^ (n div 8) = 2 ^ n"
proof -
  assume "8 dvd n"
  then obtain k where "n = 8 * k" ..
  moreover have "(256 :: nat) ^ k = 2 ^ (8 * k)"
    by (simp add: power_mult)
  ultimately show ?thesis
    by simp
qed

lemma le_to_word_word_to_le [simp, word_bytes_simps]:
  "8 dvd LENGTH('a) \<Longrightarrow> le_to_word (word_to_le w) = (w :: 'a::len word)"
  by (simp add: le_to_word_def word_to_le_def le_to_nat_nat_to_le power_256 unsigned_less)

lemma word_to_le_le_to_word [simp, word_bytes_simps]:
  "8 dvd LENGTH('a) \<Longrightarrow> length bs = LENGTH('a) div 8 \<Longrightarrow> word_to_le (le_to_word bs :: 'a::len word) = bs"
  using le_to_nat_less [of bs]
  by (simp add: le_to_word_def word_to_le_def power_256 unat_of_nat nat_to_le_le_to_nat_len)

lemma be_to_word_word_to_be [simp, word_bytes_simps]:
  "8 dvd LENGTH('a) \<Longrightarrow> be_to_word (word_to_be w) = (w :: 'a::len word)"
  by (simp add: be_to_word_def word_to_be_def)

lemma word_to_be_be_to_word [simp, word_bytes_simps]:
  "8 dvd LENGTH('a) \<Longrightarrow> length bs = LENGTH('a) div 8 \<Longrightarrow> word_to_be (be_to_word bs :: 'a::len word) = bs"
  by (simp add: be_to_word_def word_to_be_def)

lemma word_to_le_inject [simp]:
  "8 dvd LENGTH('a) \<Longrightarrow> word_to_le v = word_to_le w \<longleftrightarrow> v = (w :: 'a::len word)"
  by (metis le_to_word_word_to_le)

end
