(* ===== verification/Errors.thy ===== *)
theory Errors
  imports Prelude
begin

text \<open>
  The three error enumerations of the node (core/encoding/errors.hpp,
  core/serialization/errors.hpp, infra/network/errors.hpp), the generic conditions of
  \<open>boost::system::errc\<close> that the source names, and the error code that wraps one
  enumerator of one category. The enumerators keep their names; \<open>kSuccess\<close>,
  \<open>kInputTooLarge\<close> and \<open>kUnexpectedError\<close>, which several enumerations
  declare, carry the category's name.
\<close>

datatype enc_error =
    kEncSuccess
  | kIllegalHexDigit
  | kIllegalBase58Digit
  | kIllegalBase64Digit
  | kEncInputTooLarge
  | kInputTooNarrow
  | kEncUnexpectedError

datatype ser_error =
    kSerSuccess
  | kInputTooLarge
  | kReadOverflow
  | kNonCanonicalCompactSize
  | kCompactSizeTooBig
  | kUnexpectedError
  | kStringTooBig
  | kInvalidRejectionCode
  | kInvalidInventoryType

datatype net_error =
    kNetSuccess
  | kMessageSizeOverflow
  | kMessageHeaderIncomplete
  | kMessageBodyIncomplete
  | kMessageHeaderInvalidMagic
  | kMessageHeaderMalformedCommand
  | kMessageHeaderEmptyCommand
  | kMessageHeaderIllegalCommand
  | kMessageHeaderIllegalPayloadLength
  | kMessageHeaderInvalidChecksum
  | kMessagePayloadEmptyVector
  | kMessagePayloadOversizedVector
  | kMessagePayloadLengthMismatchesVectorSize
  | kMessagePayloadDuplicateVectorItems
  | kMessagePayloadExtraData
  | kMessagePayLoadUnhandleable
  | kMessageUnknownCommand
  | kMessageWriteNotPermitted
  | kMessagePushNotPermitted
  | kInvalidProtocolVersion
  | kUnsupportedMessageTypeForProtocolVersion
  | kDeprecatedMessageTypeForProtocolVersion
  | kDuplicateProtocolHandShake
  | kInvalidProtocolHandShake
  | kMessageFloodingDetected
  | kConnectedToSelf
  | kUnsolicitedPong
  | kInvalidPingPongNonce
  | kUnknownRejectedCommand
  | kMessagePayloadInvalidLastBlockHeight
  | kMessagePayloadInvalidTimestamp
  | kInvalidNtpResponse
  | kInvalidSystemTime

text \<open>The enumerators of \<open>boost::system::errc\<close> that the source returns.\<close>

datatype errc =
    errc_success
  | argument_out_of_domain
  | bad_address
  | illegal_byte_sequence
  | invalid_argument
  | io_error
  | message_size
  | operation_in_progress
  | operation_not_permitted
  | protocol_error
  | result_out_of_range
  | value_too_large

datatype error_code =
    EncError enc_error
  | SerError ser_error
  | NetError net_error
  | Errc errc

text \<open>The generic condition of a code, or the code itself where the category has no conversion.\<close>

fun enc_error_condition :: "enc_error \<Rightarrow> error_code" where
  "enc_error_condition kEncSuccess = Errc errc_success"
| "enc_error_condition kIllegalHexDigit = Errc argument_out_of_domain"
| "enc_error_condition kIllegalBase58Digit = Errc argument_out_of_domain"
| "enc_error_condition kIllegalBase64Digit = Errc argument_out_of_domain"
| "enc_error_condition kEncInputTooLarge = Errc value_too_large"
| "enc_error_condition kInputTooNarrow = Errc invalid_argument"
| "enc_error_condition kEncUnexpectedError = Errc io_error"

fun ser_error_condition :: "ser_error \<Rightarrow> error_code" where
  "ser_error_condition kSerSuccess = Errc errc_success"
| "ser_error_condition kInputTooLarge = Errc value_too_large"
| "ser_error_condition kReadOverflow = Errc value_too_large"
| "ser_error_condition kStringTooBig = Errc value_too_large"
| "ser_error_condition kNonCanonicalCompactSize = Errc argument_out_of_domain"
| "ser_error_condition kCompactSizeTooBig = Errc argument_out_of_domain"
| "ser_error_condition kUnexpectedError = Errc io_error"
| "ser_error_condition e = SerError e"

fun net_error_condition :: "net_error \<Rightarrow> error_code" where
  "net_error_condition kNetSuccess = Errc errc_success"
| "net_error_condition kMessageHeaderIncomplete = Errc operation_in_progress"
| "net_error_condition kMessageBodyIncomplete = Errc operation_in_progress"
| "net_error_condition kMessageSizeOverflow = Errc message_size"
| "net_error_condition kMessageHeaderIllegalPayloadLength = Errc message_size"
| "net_error_condition kMessagePayloadEmptyVector = Errc message_size"
| "net_error_condition kMessagePayloadOversizedVector = Errc message_size"
| "net_error_condition kMessagePayloadLengthMismatchesVectorSize = Errc message_size"
| "net_error_condition kInvalidProtocolVersion = Errc invalid_argument"
| "net_error_condition kMessageHeaderMalformedCommand = Errc invalid_argument"
| "net_error_condition kMessageHeaderEmptyCommand = Errc invalid_argument"
| "net_error_condition kMessageUnknownCommand = Errc invalid_argument"
| "net_error_condition kMessagePayloadDuplicateVectorItems = Errc invalid_argument"
| "net_error_condition kInvalidPingPongNonce = Errc invalid_argument"
| "net_error_condition kMessageHeaderIllegalCommand = Errc argument_out_of_domain"
| "net_error_condition kMessageHeaderInvalidChecksum = Errc argument_out_of_domain"
| "net_error_condition kMessageHeaderInvalidMagic = Errc argument_out_of_domain"
| "net_error_condition kMessagePayloadInvalidLastBlockHeight = Errc argument_out_of_domain"
| "net_error_condition kMessagePayloadInvalidTimestamp = Errc argument_out_of_domain"
| "net_error_condition kInvalidSystemTime = Errc argument_out_of_domain"
| "net_error_condition kMessagePushNotPermitted = Errc operation_not_permitted"
| "net_error_condition kMessageFloodingDetected = Errc operation_not_permitted"
| "net_error_condition kConnectedToSelf = Errc operation_not_permitted"
| "net_error_condition kUnsolicitedPong = Errc operation_not_permitted"
| "net_error_condition kUnsupportedMessageTypeForProtocolVersion = Errc protocol_error"
| "net_error_condition kDeprecatedMessageTypeForProtocolVersion = Errc protocol_error"
| "net_error_condition kDuplicateProtocolHandShake = Errc protocol_error"
| "net_error_condition kInvalidProtocolHandShake = Errc protocol_error"
| "net_error_condition kInvalidNtpResponse = Errc protocol_error"
| "net_error_condition e = NetError e"

fun default_error_condition :: "error_code \<Rightarrow> error_code" where
  "default_error_condition (EncError e) = enc_error_condition e"
| "default_error_condition (SerError e) = ser_error_condition e"
| "default_error_condition (NetError e) = net_error_condition e"
| "default_error_condition (Errc e) = Errc e"

text \<open>A codec never signals completion through the generic condition of an unfinished read: the
  two incomplete states are the only codes whose condition is \<open>operation_in_progress\<close>.\<close>

lemma operation_in_progress_iff:
  "default_error_condition c = Errc operation_in_progress \<longleftrightarrow>
    c \<in> {NetError kMessageHeaderIncomplete, NetError kMessageBodyIncomplete, Errc operation_in_progress}"
proof (cases c)
  case (EncError e)
  then show ?thesis by (cases e) auto
next
  case (SerError e)
  then show ?thesis by (cases e) auto
next
  case (NetError e)
  then show ?thesis by (cases e) auto
qed auto

end
