(* ===== verification/Data_Stream.thy ===== *)
theory Data_Stream
  imports Errors
begin

text \<open>
  The byte stream of core/serialization/stream.cpp: a buffer with a read position, and its
  serialization flavour \<open>SDataStream\<close>, which adds a scope, a version and an accumulator
  of computed sizes. The operations are polymorphic in the record extension, so that those of
  \<open>DataStream\<close> apply to an \<open>SDataStream\<close> as they do in the source.
  The invariant is that the read position never leaves the buffer; every operation keeps it except
  a shrinking \<open>resize\<close>, which is shown below. The contract that the serialization
  functions rely on (what is written is read back in order) is the locale \<open>byte_channel\<close>.
\<close>

section \<open>Constants and state\<close>

text \<open>core/common/base.hpp: sizes in base 10 and base 2.\<close>

definition kKB :: nat where "kKB = 1000"
definition kMB :: nat where "kMB = kKB * 1000"
definition kGB :: nat where "kGB = kMB * 1000"
definition kTB :: nat where "kTB = kGB * 1000"
definition kKiB :: nat where "kKiB = 1024"
definition kMiB :: nat where "kMiB = push_bit 10 kKiB"
definition kGiB :: nat where "kGiB = push_bit 10 kMiB"
definition kTiB :: nat where "kTiB = push_bit 10 kGiB"

definition kMaxSerializedCompactSize :: nat where "kMaxSerializedCompactSize = 0x02000000"
definition kMaxStreamSize :: nat where "kMaxStreamSize = 512 * kMiB"

text \<open>The largest value of \<open>size_type\<close>.\<close>

definition size_max :: nat where "size_max = 2 ^ 64 - 1"

datatype scope = kNetwork | kStorage | kHash
datatype action = kComputeSize | kSerialize | kDeserialize

record data_stream =
  ds_buffer :: bytes
  ds_read_position :: nat

record sdata_stream = data_stream +
  ds_scope :: scope
  ds_version :: int
  ds_computed_size :: nat

section \<open>DataStream\<close>

definition stream_of :: "bytes \<Rightarrow> data_stream" where
  "stream_of data = \<lparr>ds_buffer = data, ds_read_position = 0\<rparr>"

definition stream_size :: "'a data_stream_scheme \<Rightarrow> nat" where
  "stream_size s = length (ds_buffer s)"

definition stream_empty :: "'a data_stream_scheme \<Rightarrow> bool" where
  "stream_empty s = (ds_buffer s = [])"

text \<open>The subtraction of \<open>size_type\<close> values wraps when the position is past the end.\<close>

definition stream_avail :: "'a data_stream_scheme \<Rightarrow> nat" where
  "stream_avail s =
    (if ds_read_position s \<le> stream_size s then stream_size s - ds_read_position s
     else 2 ^ 64 - (ds_read_position s - stream_size s))"

definition stream_eof :: "'a data_stream_scheme \<Rightarrow> bool" where
  "stream_eof s = (ds_read_position s \<ge> stream_size s)"

definition stream_tellg :: "'a data_stream_scheme \<Rightarrow> nat" where
  "stream_tellg s = ds_read_position s"

definition stream_reserve :: "nat \<Rightarrow> 'a data_stream_scheme \<Rightarrow> error_code status \<times> 'a data_stream_scheme" where
  "stream_reserve count s = (if count > kMaxStreamSize then (Some (SerError kInputTooLarge), s) else (None, s))"

definition stream_resize :: "nat \<Rightarrow> byte \<Rightarrow> 'a data_stream_scheme \<Rightarrow> error_code status \<times> 'a data_stream_scheme" where
  "stream_resize new_size item s =
    (if new_size > kMaxStreamSize then (Some (SerError kInputTooLarge), s)
     else (None, s\<lparr>ds_buffer := take new_size (ds_buffer s) @ replicate (new_size - stream_size s) item\<rparr>))"

definition stream_write :: "bytes \<Rightarrow> 'a data_stream_scheme \<Rightarrow> error_code status \<times> 'a data_stream_scheme" where
  "stream_write data s =
    (if stream_size s + length data > kMaxStreamSize then (Some (SerError kInputTooLarge), s)
     else (None, s\<lparr>ds_buffer := ds_buffer s @ data\<rparr>))"

definition stream_push_back :: "byte \<Rightarrow> 'a data_stream_scheme \<Rightarrow> 'a data_stream_scheme" where
  "stream_push_back b s = s\<lparr>ds_buffer := ds_buffer s @ [b]\<rparr>"

definition stream_rewind :: "nat option \<Rightarrow> 'a data_stream_scheme \<Rightarrow> 'a data_stream_scheme" where
  "stream_rewind count s =
    (case count of
      None \<Rightarrow> s\<lparr>ds_read_position := 0\<rparr>
    | Some c \<Rightarrow> if c \<le> ds_read_position s then s\<lparr>ds_read_position := ds_read_position s - c\<rparr> else s)"

text \<open>Iterators are represented by their distance from the beginning of the buffer.\<close>

definition stream_insert :: "nat \<Rightarrow> byte \<Rightarrow> 'a data_stream_scheme \<Rightarrow> 'a data_stream_scheme" where
  "stream_insert pos item s = s\<lparr>ds_buffer := take pos (ds_buffer s) @ item # drop pos (ds_buffer s)\<rparr>"

definition stream_erase_at :: "nat \<Rightarrow> 'a data_stream_scheme \<Rightarrow> 'a data_stream_scheme" where
  "stream_erase_at pos s =
    (if pos = stream_size s then s
     else
      let buffer = take pos (ds_buffer s) @ drop (pos + 1) (ds_buffer s);
          rp = (if ds_read_position s > 0 \<and> ds_read_position s > pos then ds_read_position s - 1 else ds_read_position s)
      in s\<lparr>ds_buffer := buffer, ds_read_position := min rp (length buffer)\<rparr>)"

definition stream_erase :: "nat \<Rightarrow> nat option \<Rightarrow> 'a data_stream_scheme \<Rightarrow> 'a data_stream_scheme" where
  "stream_erase pos count s =
    (if count = Some 0 \<or> pos \<ge> stream_size s then s
     else
      let max_count = stream_size s - pos;
          n = min (case count of None \<Rightarrow> size_max | Some c \<Rightarrow> c) max_count;
          buffer = take pos (ds_buffer s) @ drop (pos + n) (ds_buffer s);
          rp = (if ds_read_position s > 0 \<and> ds_read_position s > pos
                then ds_read_position s - min (ds_read_position s - pos) n
                else ds_read_position s)
      in s\<lparr>ds_buffer := buffer, ds_read_position := rp\<rparr>)"

definition stream_read :: "nat option \<Rightarrow> 'a data_stream_scheme \<Rightarrow> (error_code, bytes) outcome \<times> 'a data_stream_scheme" where
  "stream_read count s =
    (let n = (case count of None \<Rightarrow> stream_avail s | Some c \<Rightarrow> c)
     in if n > stream_avail s then (Failure (SerError kReadOverflow), s)
        else (Success (take n (drop (ds_read_position s) (ds_buffer s))),
              s\<lparr>ds_read_position := ds_read_position s + n\<rparr>))"

definition stream_ignore :: "nat \<Rightarrow> 'a data_stream_scheme \<Rightarrow> 'a data_stream_scheme" where
  "stream_ignore count s = s\<lparr>ds_read_position := ds_read_position s + min count (stream_avail s)\<rparr>"

definition stream_seekg :: "nat \<Rightarrow> 'a data_stream_scheme \<Rightarrow> nat \<times> 'a data_stream_scheme" where
  "stream_seekg position s =
    (let p = min position (stream_size s) in (p, s\<lparr>ds_read_position := p\<rparr>))"

definition stream_consume :: "nat option \<Rightarrow> 'a data_stream_scheme \<Rightarrow> 'a data_stream_scheme" where
  "stream_consume pos s =
    (let count = min (ds_read_position s) (case pos of None \<Rightarrow> size_max | Some p \<Rightarrow> p)
     in s\<lparr>ds_buffer := drop count (ds_buffer s), ds_read_position := ds_read_position s - count\<rparr>)"

definition stream_clear :: "'a data_stream_scheme \<Rightarrow> 'a data_stream_scheme" where
  "stream_clear s = s\<lparr>ds_buffer := [], ds_read_position := 0\<rparr>"

definition stream_get_clear ::
  "'a data_stream_scheme \<Rightarrow> 'b data_stream_scheme \<Rightarrow> error_code status \<times> 'a data_stream_scheme \<times> 'b data_stream_scheme" where
  "stream_get_clear s dst =
    (case stream_write (take (stream_avail s) (drop (ds_read_position s) (ds_buffer s))) dst of
      (Some e, dst') \<Rightarrow> (Some e, s, dst')
    | (None, dst') \<Rightarrow> (None, stream_clear s, dst'))"

section \<open>SDataStream\<close>

definition sdata_stream_of :: "bytes \<Rightarrow> scope \<Rightarrow> int \<Rightarrow> sdata_stream" where
  "sdata_stream_of data sc ver =
    \<lparr>ds_buffer = data, ds_read_position = 0, ds_scope = sc, ds_version = ver, ds_computed_size = 0\<rparr>"

definition sstream_set_version :: "int \<Rightarrow> sdata_stream \<Rightarrow> sdata_stream" where
  "sstream_set_version v s = s\<lparr>ds_version := v\<rparr>"

definition sstream_clear :: "sdata_stream \<Rightarrow> sdata_stream" where
  "sstream_clear s = (stream_clear s)\<lparr>ds_computed_size := 0\<rparr>"

definition add_computed_size :: "nat \<Rightarrow> sdata_stream \<Rightarrow> sdata_stream" where
  "add_computed_size n s = s\<lparr>ds_computed_size := ds_computed_size s + n\<rparr>"

section \<open>Invariant and abstraction\<close>

definition stream_inv :: "'a data_stream_scheme \<Rightarrow> bool" where
  "stream_inv s = (ds_read_position s \<le> length (ds_buffer s))"

text \<open>The abstract view of a stream: what has been consumed and what is still to be read.\<close>

definition consumed :: "'a data_stream_scheme \<Rightarrow> bytes" where
  "consumed s = take (ds_read_position s) (ds_buffer s)"

definition unread :: "'a data_stream_scheme \<Rightarrow> bytes" where
  "unread s = drop (ds_read_position s) (ds_buffer s)"

lemmas size_const_defs = kKiB_def kMiB_def kGiB_def kTiB_def kMaxStreamSize_def kMaxSerializedCompactSize_def

lemma kMiB_eq [simp]: "kMiB = 1048576"
  by (simp add: kMiB_def kKiB_def push_bit_eq_mult)

lemma kMaxStreamSize_eq: "kMaxStreamSize = 536870912"
  by (simp add: kMaxStreamSize_def)

lemma consumed_unread [simp]: "consumed s @ unread s = ds_buffer s"
  by (simp add: consumed_def unread_def)

lemma length_consumed [simp]: "stream_inv s \<Longrightarrow> length (consumed s) = ds_read_position s"
  by (simp add: consumed_def stream_inv_def)

lemma length_unread: "length (unread s) = length (ds_buffer s) - ds_read_position s"
  by (simp add: unread_def)

lemma avail_unread [simp]: "stream_inv s \<Longrightarrow> stream_avail s = length (unread s)"
  by (simp add: stream_avail_def stream_inv_def stream_size_def unread_def)

lemma eof_unread: "stream_eof s \<longleftrightarrow> unread s = []"
  by (simp add: stream_eof_def unread_def stream_size_def)

section \<open>Every operation on the abstract view\<close>

lemma inv_stream_of [simp]: "stream_inv (stream_of d)" "unread (stream_of d) = d" "consumed (stream_of d) = []"
  by (simp_all add: stream_of_def stream_inv_def unread_def consumed_def)

lemma inv_sdata_stream_of [simp]:
  "stream_inv (sdata_stream_of d sc v)" "unread (sdata_stream_of d sc v) = d" "consumed (sdata_stream_of d sc v) = []"
  by (simp_all add: sdata_stream_of_def stream_inv_def unread_def consumed_def)

lemma write_cases:
  obtains (too_large) "kMaxStreamSize < length (ds_buffer s) + length d" "stream_write d s = (Some (SerError kInputTooLarge), s)"
  | (ok) "length (ds_buffer s) + length d \<le> kMaxStreamSize" "stream_write d s = (None, s\<lparr>ds_buffer := ds_buffer s @ d\<rparr>)"
  by (cases "length (ds_buffer s) + length d \<le> kMaxStreamSize") (auto simp: stream_write_def stream_size_def)

lemma write_ok:
  "length (ds_buffer s) + length d \<le> kMaxStreamSize \<Longrightarrow> stream_write d s = (None, s\<lparr>ds_buffer := ds_buffer s @ d\<rparr>)"
  by (simp add: stream_write_def stream_size_def)

lemma append_abs [simp]:
  assumes "stream_inv s"
  shows "stream_inv (s\<lparr>ds_buffer := ds_buffer s @ d\<rparr>)"
    "unread (s\<lparr>ds_buffer := ds_buffer s @ d\<rparr>) = unread s @ d"
    "consumed (s\<lparr>ds_buffer := ds_buffer s @ d\<rparr>) = consumed s"
  using assms by (simp_all add: stream_inv_def unread_def consumed_def)

lemma push_back_abs [simp]:
  assumes "stream_inv s"
  shows "stream_inv (stream_push_back b s)" "unread (stream_push_back b s) = unread s @ [b]"
    "consumed (stream_push_back b s) = consumed s"
  using assms by (simp_all add: stream_push_back_def)

lemma write_abs:
  assumes "stream_inv s" "stream_write d s = (None, t)"
  shows "stream_inv t" "unread t = unread s @ d" "consumed t = consumed s"
  using assms by (auto simp: stream_write_def split: if_splits)

lemma advance_abs [simp]:
  assumes "stream_inv s" "n \<le> length (unread s)"
  shows "stream_inv (s\<lparr>ds_read_position := ds_read_position s + n\<rparr>)"
    "unread (s\<lparr>ds_read_position := ds_read_position s + n\<rparr>) = drop n (unread s)"
    "consumed (s\<lparr>ds_read_position := ds_read_position s + n\<rparr>) = consumed s @ take n (unread s)"
proof -
  show "stream_inv (s\<lparr>ds_read_position := ds_read_position s + n\<rparr>)"
    "unread (s\<lparr>ds_read_position := ds_read_position s + n\<rparr>) = drop n (unread s)"
    using assms by (simp_all add: stream_inv_def unread_def add.commute)
  show "consumed (s\<lparr>ds_read_position := ds_read_position s + n\<rparr>) = consumed s @ take n (unread s)"
    by (simp add: unread_def consumed_def take_add)
qed

lemma read_Some:
  assumes "stream_inv s"
  shows "stream_read (Some n) s =
    (if n \<le> length (unread s) then (Success (take n (unread s)), s\<lparr>ds_read_position := ds_read_position s + n\<rparr>)
     else (Failure (SerError kReadOverflow), s))"
  using assms by (simp add: stream_read_def Let_def unread_def del: avail_unread) (simp add: unread_def)

lemma read_None:
  assumes "stream_inv s"
  shows "stream_read None s = (Success (unread s), s\<lparr>ds_read_position := ds_read_position s + length (unread s)\<rparr>)"
  using assms by (simp add: stream_read_def Let_def unread_def del: avail_unread) (simp add: unread_def)

lemma read_prefix:
  assumes "stream_inv s" "unread s = d @ rest" "length d = n"
  shows "stream_read (Some n) s = (Success d, s\<lparr>ds_read_position := ds_read_position s + n\<rparr>)"
  using assms by (simp add: read_Some)

lemma rewind_inv: "stream_inv s \<Longrightarrow> stream_inv (stream_rewind c s)"
  by (auto simp: stream_rewind_def stream_inv_def split: option.split)

lemma insert_inv: "stream_inv s \<Longrightarrow> stream_inv (stream_insert p b s)"
  by (simp add: stream_insert_def stream_inv_def)

lemma erase_at_inv: "stream_inv s \<Longrightarrow> stream_inv (stream_erase_at p s)"
  by (simp add: stream_erase_at_def stream_inv_def Let_def)

lemma erase_inv: "stream_inv s \<Longrightarrow> stream_inv (stream_erase p c s)"
  by (auto simp: stream_erase_def stream_inv_def stream_size_def Let_def min_def split: option.split)

lemma ignore_inv: "stream_inv s \<Longrightarrow> stream_inv (stream_ignore c s)"
  by (simp add: stream_ignore_def) 

lemma seekg_inv: "stream_inv (snd (stream_seekg p s))"
  by (simp add: stream_seekg_def stream_inv_def Let_def stream_size_def)

lemma consume_inv: "stream_inv s \<Longrightarrow> stream_inv (stream_consume p s)"
  by (auto simp: stream_consume_def stream_inv_def Let_def)

lemma clear_abs [simp]: "stream_inv (stream_clear s)" "unread (stream_clear s) = []" "consumed (stream_clear s) = []"
  by (simp_all add: stream_clear_def stream_inv_def unread_def consumed_def)

lemma consume_abs:
  assumes "stream_inv s" "length (ds_buffer s) \<le> size_max"
  shows "unread (stream_consume p s) = unread s"
    "consumed (stream_consume p s) = drop (case p of None \<Rightarrow> ds_read_position s | Some n \<Rightarrow> n) (consumed s)"
  using assms
  by (auto simp: stream_consume_def stream_inv_def Let_def unread_def consumed_def drop_take min_def split: option.split)

lemma erase_unread_only:
  assumes "stream_inv s" "ds_read_position s \<le> p"
  shows "consumed (stream_erase p c s) = consumed s"
  using assms by (auto simp: stream_erase_def stream_inv_def Let_def consumed_def stream_size_def)

lemma resize_grow_inv: "stream_inv s \<Longrightarrow> stream_size s \<le> n \<Longrightarrow> stream_inv (snd (stream_resize n b s))"
  by (auto simp: stream_resize_def stream_inv_def stream_size_def)

section \<open>The contract of a byte channel\<close>

text \<open>What the serialization functions rely on: a successful \<open>put\<close> appends to the
  unread content, and a \<open>get\<close> of no more than what is there returns it from the front.\<close>

locale byte_channel =
  fixes inv :: "'s \<Rightarrow> bool"
    and content :: "'s \<Rightarrow> bytes"
    and put :: "bytes \<Rightarrow> 's \<Rightarrow> error_code status \<times> 's"
    and get :: "nat \<Rightarrow> 's \<Rightarrow> (error_code, bytes) outcome \<times> 's"
  assumes put_inv: "inv s \<Longrightarrow> inv (snd (put d s))"
    and put_content: "inv s \<Longrightarrow> put d s = (None, t) \<Longrightarrow> content t = content s @ d"
    and put_error: "put d s = (Some e, t) \<Longrightarrow> t = s"
    and get_inv: "inv s \<Longrightarrow> inv (snd (get n s))"
    and get_content: "inv s \<Longrightarrow> n \<le> length (content s) \<Longrightarrow>
      fst (get n s) = Success (take n (content s)) \<and> content (snd (get n s)) = drop n (content s)"
    and get_error: "inv s \<Longrightarrow> length (content s) < n \<Longrightarrow> get n s = (Failure (SerError kReadOverflow), s)"
begin

fun put_all :: "bytes list \<Rightarrow> 's \<Rightarrow> error_code status \<times> 's" where
  "put_all [] s = (None, s)"
| "put_all (d # ds) s = and_then (put d) (put_all ds) s"

fun get_all :: "nat list \<Rightarrow> 's \<Rightarrow> bytes list \<times> 's" where
  "get_all [] s = ([], s)"
| "get_all (n # ns) s =
    (case get n s of (Failure e, t) \<Rightarrow> ([], t) | (Success d, t) \<Rightarrow> (case get_all ns t of (ds, u) \<Rightarrow> (d # ds, u)))"

lemma put_all_content: "inv s \<Longrightarrow> put_all ds s = (None, t) \<Longrightarrow> inv t \<and> content t = content s @ concat ds"
proof (induction ds arbitrary: s)
  case (Cons d ds)
  from Cons.prems(2) obtain u where u: "put d s = (None, u)" "put_all ds u = (None, t)"
    by (auto simp: and_then_eq_None)
  with put_inv [OF Cons.prems(1), of d] have "inv u"
    by simp
  with Cons.IH [OF this u(2)] put_content [OF Cons.prems(1) u(1)] show ?case
    by simp
qed simp

lemma get_all_content:
  "inv s \<Longrightarrow> content s = concat ds @ rest \<Longrightarrow>
    fst (get_all (map length ds) s) = ds \<and> content (snd (get_all (map length ds) s)) = rest"
proof (induction ds arbitrary: s)
  case (Cons d ds)
  obtain r t where g: "get (length d) s = (r, t)"
    by force
  with get_content [OF Cons.prems(1), of "length d"] Cons.prems(2)
  have t: "r = Success d" "content t = concat ds @ rest"
    by auto
  moreover have "inv t"
    using get_inv [OF Cons.prems(1), of "length d"] g by simp
  ultimately show ?case
    using Cons.IH [of t] g by (auto split: prod.split)
qed simp

lemma fifo:
  assumes "inv s" "content s = []" "put_all ds s = (None, t)"
  shows "fst (get_all (map length ds) t) = ds" "content (snd (get_all (map length ds) t)) = []"
  using put_all_content [OF assms(1,3)] get_all_content [of t ds "[]"] assms(2) by simp_all

end

interpretation channel: byte_channel stream_inv unread stream_write "\<lambda>n. stream_read (Some n)"
proof (standard, goal_cases)
  case (1 s d)
  then show ?case by (cases rule: write_cases [of s d]) auto
next
  case (2 s d t)
  then show ?case using write_abs(2) by blast
next
  case (3 d s e t)
  then show ?case by (auto simp: stream_write_def split: if_splits)
next
  case (4 s n)
  then show ?case by (simp add: read_Some)
next
  case (5 s n)
  then show ?case by (simp add: read_Some)
next
  case (6 s n)
  then show ?case by (simp add: read_Some)
qed

section \<open>Properties\<close>

text \<open>C31. The read position never leaves the buffer: every operation of a stream but a shrinking
  \<open>resize\<close> keeps \<open>stream_inv\<close>, on success and on failure.\<close>

theorem stream_operations_keep_inv:
  assumes "stream_inv s"
  shows "stream_inv (snd (stream_write d s)) \<and> stream_inv (stream_push_back b s) \<and>
    stream_inv (stream_rewind c s) \<and> stream_inv (stream_insert p b s) \<and> stream_inv (stream_erase_at p s) \<and>
    stream_inv (stream_erase p c s) \<and> stream_inv (snd (stream_read c s)) \<and> stream_inv (stream_ignore n s) \<and>
    stream_inv (snd (stream_seekg p s)) \<and> stream_inv (stream_consume c s) \<and> stream_inv (stream_clear s) \<and>
    (stream_size s \<le> n \<longrightarrow> stream_inv (snd (stream_resize n b s)))"
proof -
  have "stream_inv (snd (stream_write d s))"
    by (cases rule: write_cases [of s d]) (use assms in simp_all)
  moreover have "stream_inv (snd (stream_read c s))"
    using assms by (cases c) (simp_all add: read_None read_Some)
  ultimately show ?thesis
    using assms
    by (simp add: rewind_inv insert_inv erase_at_inv erase_inv ignore_inv seekg_inv consume_inv resize_grow_inv)
qed

theorem stream_operations_keep_inv_witness:
  "stream_inv (stream_erase 0 (Some 2) \<lparr>ds_buffer = [1, 2, 3], ds_read_position = 3\<rparr>)"
proof -
  have "stream_inv \<lparr>ds_buffer = [1, 2, 3], ds_read_position = 3\<rparr>"
    by (simp add: stream_inv_def)
  from stream_operations_keep_inv [OF this] show ?thesis
    by blast
qed

text \<open>C32. A stream is a first-in first-out channel: the chunks written to a stream with nothing left to
  read come back in order, chunk by chunk, from as many reads of the same sizes, and leave nothing.\<close>

theorem stream_fifo:
  assumes "stream_inv s" "unread s = []" "channel.put_all ds s = (None, t)"
  shows "fst (channel.get_all (map length ds) t) = ds \<and> unread (snd (channel.get_all (map length ds) t)) = []"
  using channel.fifo [OF assms] by simp

theorem stream_fifo_witness:
  "\<exists>t. channel.put_all [[1], [2, 3]] (stream_of []) = (None, t) \<and> fst (channel.get_all [1, 2] t) = [[1], [2, 3]]"
proof -
  have *: "channel.put_all [[1], [2, 3]] (stream_of []) = (None, stream_of [1, 2, 3])"
    by (simp add: stream_of_def write_ok kMaxStreamSize_eq)
  have "fst (channel.get_all (map length [[1 :: byte], [2, 3]]) (stream_of [1, 2, 3])) = [[1], [2, 3]]"
    using stream_fifo [OF inv_stream_of(1,2) *] by blast
  moreover have "map length [[1 :: byte], [2, 3]] = [1, 2]"
    by simp
  ultimately show ?thesis
    using * by metis
qed

text \<open>A shrinking \<open>resize\<close> does not adjust the read position: the number of bytes that
  remain wraps around, and a read that is not there succeeds.\<close>

theorem resize_breaks_position:
  assumes "n < ds_read_position s" "ds_read_position s \<le> stream_size s" "stream_size s \<le> kMaxStreamSize"
  shows "\<exists>t. stream_resize n b s = (None, t) \<and> \<not> stream_inv t \<and> kMaxStreamSize < stream_avail t \<and>
    fst (stream_read (Some 1) t) = Success []"
proof -
  let ?t = "s\<lparr>ds_buffer := take n (ds_buffer s)\<rparr>"
  have "stream_resize n b s = (None, ?t)" "\<not> stream_inv ?t" and a: "kMaxStreamSize < stream_avail ?t"
    using assms by (simp_all add: stream_resize_def stream_inv_def stream_avail_def stream_size_def kMaxStreamSize_eq)
  moreover have "fst (stream_read (Some 1) ?t) = Success []"
    using a assms by (simp add: stream_read_def kMaxStreamSize_eq)
  ultimately show ?thesis
    by blast
qed

theorem resize_breaks_position_witness:
  "\<exists>t. stream_resize 1 0 \<lparr>ds_buffer = [1, 2, 3], ds_read_position = 2\<rparr> = (None, t) \<and> \<not> stream_inv t \<and>
    kMaxStreamSize < stream_avail t \<and> fst (stream_read (Some 1) t) = Success []"
  by (rule resize_breaks_position) (simp_all add: stream_size_def kMaxStreamSize_eq)

end
