(* ===== verification/Serialize.thy ===== *)
theory Serialize
  imports Data_Stream
begin

text \<open>
  core/serialization/serialize.hpp and the \<open>bind\<close> overloads of
  core/serialization/stream.hpp. A bind function takes the action, the object and the stream and returns
  the status, the object and the stream: on \<open>kSerialize\<close> it appends to the stream, on
  \<open>kDeserialize\<close> it assigns the object, on \<open>kComputeSize\<close> it adds to the
  stream's computed size.

  The contract of a serializable type is stated by three locales: \<open>reader\<close> (a
  deserialization never leaves the buffer, whatever the bytes are), \<open>codec\<close> (what is
  serialized is read back, from the front of any stream) and \<open>sized_codec\<close> (the computed
  size is the length of the encoding). Every bind function below and every serializable class of the
  program is an instance, and the rules in \<open>codec_intros\<close> build the instance of a class
  from those of its members.
\<close>

section \<open>Integers and compact sizes\<close>

type_synonym 'v bind_fun = "'v \<times> sdata_stream \<Rightarrow> error_code status \<times> 'v \<times> sdata_stream"

definition ser_compact_sizeof :: "64 word \<Rightarrow> nat" where
  "ser_compact_sizeof v =
    (if v < 253 then 1 else if v \<le> 0xFFFF then 3 else if v \<le> 0xFFFFFFFF then 5 else 9)"

definition write_data :: "'w::len word \<Rightarrow> 'a data_stream_scheme \<Rightarrow> error_code status \<times> 'a data_stream_scheme" where
  "write_data obj s = stream_write (word_to_le obj) s"

definition write_data_bool :: "bool \<Rightarrow> 'a data_stream_scheme \<Rightarrow> error_code status \<times> 'a data_stream_scheme" where
  "write_data_bool obj s = (None, stream_push_back (if obj then 0x01 else 0x00) s)"

definition write_compact :: "64 word \<Rightarrow> 'a data_stream_scheme \<Rightarrow> error_code status \<times> 'a data_stream_scheme" where
  "write_compact obj s =
    (let casted = word_to_le obj; num_bytes = ser_compact_sizeof obj
     in if num_bytes = 1 then (None, stream_push_back (casted ! 0) s)
        else
         let prefix = (if num_bytes = 3 then 253 else if num_bytes = 5 then 254 else 255)
         in stream_write (take (num_bytes - 1) casted) (stream_push_back prefix s))"

definition read_data :: "'w::len word \<times> 'a data_stream_scheme \<Rightarrow> error_code status \<times> 'w word \<times> 'a data_stream_scheme" where
  "read_data x =
    (case x of (object, s) \<Rightarrow>
      (case stream_read (Some (LENGTH('w) div 8)) s of
        (Failure e, t) \<Rightarrow> (Some e, object, t)
      | (Success d, t) \<Rightarrow> (None, le_to_word d, t)))"

definition read_data_bool :: "bool \<times> 'a data_stream_scheme \<Rightarrow> error_code status \<times> bool \<times> 'a data_stream_scheme" where
  "read_data_bool x =
    (case x of (object, s) \<Rightarrow>
      (case stream_read (Some 1) s of
        (Failure e, t) \<Rightarrow> (Some e, object, t)
      | (Success d, t) \<Rightarrow> (None, hd d = 0x01, t)))"

definition read_as :: "'a data_stream_scheme \<Rightarrow> (error_code, 'w::len word) outcome \<times> 'a data_stream_scheme" where
  "read_as s =
    (case read_data (0, s) of
      (Some e, ret, t) \<Rightarrow> (Failure e, t)
    | (None, ret, t) \<Rightarrow> (Success ret, t))"

text \<open>The last step of \<open>read_compact\<close>, shared by its four branches.\<close>

definition compact_range_check :: "bool \<Rightarrow> 64 word \<Rightarrow> (error_code, 64 word) outcome" where
  "compact_range_check range_check ret =
    (if range_check \<and> ret > of_nat kMaxSerializedCompactSize then Failure (SerError kCompactSizeTooBig) else Success ret)"

definition read_compact :: "bool \<Rightarrow> 'a data_stream_scheme \<Rightarrow> (error_code, 64 word) outcome \<times> 'a data_stream_scheme" where
  "read_compact range_check s =
    (case (read_as s :: (error_code, 8 word) outcome \<times> 'a data_stream_scheme) of
      (Failure e, t) \<Rightarrow> (Failure e, t)
    | (Success prefix, t) \<Rightarrow>
      if prefix < 253 then (compact_range_check range_check (ucast prefix), t)
      else if prefix = 253 then
        (case (read_as t :: (error_code, 16 word) outcome \<times> 'a data_stream_scheme) of
          (Failure e, u) \<Rightarrow> (Failure e, u)
        | (Success v, u) \<Rightarrow>
            if v < 253 then (Failure (SerError kNonCanonicalCompactSize), u)
            else (compact_range_check range_check (ucast v), u))
      else if prefix = 254 then
        (case (read_as t :: (error_code, 32 word) outcome \<times> 'a data_stream_scheme) of
          (Failure e, u) \<Rightarrow> (Failure e, u)
        | (Success v, u) \<Rightarrow>
            if v < 0x10000 then (Failure (SerError kNonCanonicalCompactSize), u)
            else (compact_range_check range_check (ucast v), u))
      else
        (case (read_as t :: (error_code, 64 word) outcome \<times> 'a data_stream_scheme) of
          (Failure e, u) \<Rightarrow> (Failure e, u)
        | (Success v, u) \<Rightarrow>
            if v < 0x100000000 then (Failure (SerError kNonCanonicalCompactSize), u)
            else (compact_range_check range_check v, u)))"

section \<open>Bind functions\<close>

definition bind_integral :: "action \<Rightarrow> 'w::len word bind_fun" where
  "bind_integral action x =
    (case x of (object, s) \<Rightarrow>
      (case action of
        kComputeSize \<Rightarrow> (None, object, add_computed_size (LENGTH('w) div 8) s)
      | kSerialize \<Rightarrow> (case write_data object s of (e, t) \<Rightarrow> (e, object, t))
      | kDeserialize \<Rightarrow> read_data (object, s)))"

definition bind_bool :: "action \<Rightarrow> bool bind_fun" where
  "bind_bool action x =
    (case x of (object, s) \<Rightarrow>
      (case action of
        kComputeSize \<Rightarrow> (None, object, add_computed_size 1 s)
      | kSerialize \<Rightarrow> (case write_data_bool object s of (e, t) \<Rightarrow> (e, object, t))
      | kDeserialize \<Rightarrow> read_data_bool (object, s)))"

text \<open>A fixed-size array of bytes.\<close>

definition bind_array :: "nat \<Rightarrow> action \<Rightarrow> bytes bind_fun" where
  "bind_array n action x =
    (case x of (object, s) \<Rightarrow>
      (case action of
        kComputeSize \<Rightarrow> (None, object, add_computed_size n s)
      | kSerialize \<Rightarrow> (case stream_write object s of (e, t) \<Rightarrow> (e, object, t))
      | kDeserialize \<Rightarrow>
          (case stream_read (Some n) s of
            (Failure e, t) \<Rightarrow> (Some e, object, t)
          | (Success d, t) \<Rightarrow> (None, d, t))))"

text \<open>An unsigned integer of 128 or 256 bits. The conversions
  \<open>boost::multiprecision::export_bits\<close> and \<open>import_bits\<close> are parameters; the
  exported bytes are stored from the beginning of an array of zeroes.\<close>

definition export_to_array :: "('w::len word \<Rightarrow> bytes) \<Rightarrow> 'w word \<Rightarrow> bytes" where
  "export_to_array export_bits object =
    (let b = export_bits object; n = LENGTH('w) div 8 in take n b @ replicate (n - length b) 0)"

definition bind_big_integral :: "('w::len word \<Rightarrow> bytes) \<Rightarrow> (bytes \<Rightarrow> 'w word) \<Rightarrow> action \<Rightarrow> 'w word bind_fun" where
  "bind_big_integral export_bits import_bits action x =
    (case x of (object, s) \<Rightarrow>
      (case action of
        kComputeSize \<Rightarrow> (None, object, add_computed_size (LENGTH('w) div 8) s)
      | kSerialize \<Rightarrow> (case stream_write (export_to_array export_bits object) s of (e, t) \<Rightarrow> (e, object, t))
      | kDeserialize \<Rightarrow>
          (case bind_array (LENGTH('w) div 8) kDeserialize (replicate (LENGTH('w) div 8) 0, s) of
            (Some e, d, t) \<Rightarrow> (Some e, object, t)
          | (None, d, t) \<Rightarrow> (None, import_bits d, t))))"

text \<open>A byte string that is the last member of its structure: its size is not recorded.\<close>

definition bind_bytes :: "action \<Rightarrow> bytes bind_fun" where
  "bind_bytes action x =
    (case x of (object, s) \<Rightarrow>
      (case action of
        kComputeSize \<Rightarrow> (None, object, add_computed_size (length object) s)
      | kSerialize \<Rightarrow> (case stream_write object s of (e, t) \<Rightarrow> (e, object, t))
      | kDeserialize \<Rightarrow>
          (case stream_read None s of
            (Failure e, t) \<Rightarrow> (Some e, object, t)
          | (Success d, t) \<Rightarrow> (None, d, t))))"

text \<open>A string, represented by its bytes.\<close>

definition bind_string :: "action \<Rightarrow> bytes bind_fun" where
  "bind_string action x =
    (case x of (object, s) \<Rightarrow>
      (case action of
        kComputeSize \<Rightarrow>
          (None, object, add_computed_size (ser_compact_sizeof (of_nat (length object)) + length object) s)
      | kSerialize \<Rightarrow>
          (case and_then (write_compact (of_nat (length object))) (stream_write object) s of (e, t) \<Rightarrow> (e, object, t))
      | kDeserialize \<Rightarrow>
          (case read_compact True s of
            (Failure e, t) \<Rightarrow> (Some e, object, t)
          | (Success data_length, t) \<Rightarrow>
              (case stream_read (Some (unat data_length)) t of
                (Failure e, u) \<Rightarrow> (Some e, object, u)
              | (Success d, u) \<Rightarrow> (None, d, u)))))"

text \<open>The loop over the items of a vector: it stops at the first failure.\<close>

fun bind_each :: "(action \<Rightarrow> 'v bind_fun) \<Rightarrow> action \<Rightarrow> 'v list bind_fun" where
  "bind_each F a ([], s) = (None, [], s)"
| "bind_each F a (x # xs, s) =
    (case F a (x, s) of
      (Some e, y, t) \<Rightarrow> (Some e, y # xs, t)
    | (None, y, t) \<Rightarrow> (case bind_each F a (xs, t) of (e, ys, u) \<Rightarrow> (e, y # ys, u)))"

text \<open>\<open>std::vector::resize\<close>.\<close>

definition resize_list :: "'v \<Rightarrow> nat \<Rightarrow> 'v list \<Rightarrow> 'v list" where
  "resize_list d n xs = take n xs @ replicate (n - length xs) d"

text \<open>\<open>Serializable::serialized_size\<close> returns 0 on an error.\<close>

definition serialized_size :: "(action \<Rightarrow> 'v bind_fun) \<Rightarrow> 'v \<times> sdata_stream \<Rightarrow> nat \<times> 'v \<times> sdata_stream" where
  "serialized_size F x =
    (case F kComputeSize x of
      (Some e, v, t) \<Rightarrow> (0, v, t)
    | (None, v, t) \<Rightarrow> (ds_computed_size t, v, t))"

section \<open>The encodings\<close>

definition compact_bytes :: "64 word \<Rightarrow> bytes" where
  "compact_bytes v =
    (let n = ser_compact_sizeof v
     in if n = 1 then [ucast v]
        else (if n = 3 then 253 else if n = 5 then 254 else 255) # take (n - 1) (word_to_le v))"

definition append_bytes :: "bytes \<Rightarrow> sdata_stream \<Rightarrow> sdata_stream" where
  "append_bytes d s = s\<lparr>ds_buffer := ds_buffer s @ d\<rparr>"

definition advance :: "nat \<Rightarrow> 'a data_stream_scheme \<Rightarrow> 'a data_stream_scheme" where
  "advance n s = s\<lparr>ds_read_position := ds_read_position s + n\<rparr>"

text \<open>The stream \<open>t\<close> is \<open>s\<close> read further, inside the same buffer.\<close>

definition stays :: "'a data_stream_scheme \<Rightarrow> 'b data_stream_scheme \<Rightarrow> bool" where
  "stays s t \<longleftrightarrow> stream_inv t \<and> ds_buffer t = ds_buffer s \<and> ds_read_position s \<le> ds_read_position t"

definition string_bytes :: "bytes \<Rightarrow> bytes" where
  "string_bytes b = compact_bytes (of_nat (length b)) @ b"

lemma stays_refl [simp]: "stream_inv s \<Longrightarrow> stays s s"
  by (simp add: stays_def)

lemma stays_trans [trans]: "stays s t \<Longrightarrow> stays t u \<Longrightarrow> stays s u"
  by (simp add: stays_def)

lemma stays_inv [dest]: "stays s t \<Longrightarrow> stream_inv t"
  by (simp add: stays_def)

lemma append_bytes_append [simp]: "append_bytes e (append_bytes d s) = append_bytes (d @ e) s"
  by (simp add: append_bytes_def)

lemma append_bytes_fields [simp]:
  "ds_buffer (append_bytes d s) = ds_buffer s @ d" "ds_read_position (append_bytes d s) = ds_read_position s"
  "ds_scope (append_bytes d s) = ds_scope s" "ds_version (append_bytes d s) = ds_version s"
  "ds_computed_size (append_bytes d s) = ds_computed_size s"
  by (simp_all add: append_bytes_def)

lemma append_bytes_abs [simp]:
  assumes "stream_inv s"
  shows "stream_inv (append_bytes d s)" "unread (append_bytes d s) = unread s @ d"
  using assms by (simp_all add: append_bytes_def)

lemma advance_advance [simp]: "advance m (advance n s) = advance (n + m) s"
  by (simp add: advance_def add.assoc)

lemma advance_0 [simp]: "advance 0 s = s"
  by (simp add: advance_def)

lemma advance_fields [simp]:
  "ds_buffer (advance n s) = ds_buffer s" "ds_read_position (advance n s) = ds_read_position s + n"
  by (simp_all add: advance_def)

lemma advance_sfields [simp]:
  "ds_version (advance n t) = ds_version t" "ds_scope (advance n t) = ds_scope t"
  "ds_computed_size (advance n t) = ds_computed_size t"
  by (simp_all add: advance_def)

lemma advance_inv [simp]: "stream_inv s \<Longrightarrow> n \<le> length (unread s) \<Longrightarrow> stream_inv (advance n s)"
  by (simp add: advance_def)

lemma unread_advance: "stream_inv s \<Longrightarrow> n \<le> length (unread s) \<Longrightarrow> unread (advance n s) = drop n (unread s)"
  by (simp add: advance_def)

lemma advance_prefix:
  assumes "stream_inv s" "unread s = d @ rest"
  shows "stream_inv (advance (length d) s)" "unread (advance (length d) s) = rest"
  using assms by (simp_all add: unread_advance)

lemma add_computed_size_add [simp]: "add_computed_size m (add_computed_size n s) = add_computed_size (n + m) s"
  by (simp add: add_computed_size_def add.assoc)

lemma compact_sizeof_cases:
  obtains "ser_compact_sizeof v = 1" "v < 253"
  | "ser_compact_sizeof v = 3" "253 \<le> v" "v \<le> 0xFFFF"
  | "ser_compact_sizeof v = 5" "0xFFFF < v" "v \<le> 0xFFFFFFFF"
  | "ser_compact_sizeof v = 9" "0xFFFFFFFF < v"
proof -
  consider "v < 253" | "253 \<le> v" "v \<le> 0xFFFF" | "0xFFFF < v" "v \<le> 0xFFFFFFFF" | "0xFFFFFFFF < v"
    by (meson not_le)
  then show ?thesis
    by cases (use that in \<open>auto simp: ser_compact_sizeof_def word_less_nat_alt word_le_nat_alt\<close>)
qed

lemma length_compact_bytes: "length (compact_bytes v) = ser_compact_sizeof v"
  by (cases v rule: compact_sizeof_cases) (simp_all add: compact_bytes_def Let_def)

lemma write_append:
  "length (ds_buffer s) + length d \<le> kMaxStreamSize \<Longrightarrow> stream_write d s = (None, append_bytes d s)"
  by (simp add: write_ok append_bytes_def)

lemma read_advance:
  "stream_inv s \<Longrightarrow> unread s = d @ rest \<Longrightarrow> length d = n \<Longrightarrow> stream_read (Some n) s = (Success d, advance n s)"
  by (simp add: read_prefix advance_def)

lemma of_nat_mod_256 [simp]: "(of_nat (n mod 256) :: byte) = of_nat n"
  by (simp add: word_of_nat_eq_iff take_bit_eq_mod)

lemma nat_to_le_nth_0: "0 < n \<Longrightarrow> nat_to_le n v ! 0 = of_nat v"
  by (cases n) simp_all

lemma word_to_le_nth_0: "word_to_le (v :: 64 word) ! 0 = ucast v"
  by (simp add: word_to_le_def nat_to_le_nth_0)

lemma write_compact_append:
  "length (ds_buffer s) + ser_compact_sizeof v \<le> kMaxStreamSize \<Longrightarrow>
    write_compact v s = (None, append_bytes (compact_bytes v) s)"
  by (cases v rule: compact_sizeof_cases)
    (simp_all add: write_compact_def compact_bytes_def Let_def word_to_le_nth_0 stream_push_back_def write_append
      append_bytes_def stream_write_def stream_size_def)

section \<open>Integers and compact sizes: round trip and canonicity\<close>

lemma read_as_eq:
  assumes "stream_inv s"
  shows "read_as s =
    (if LENGTH('w) div 8 \<le> length (unread s)
     then (Success (le_to_word (take (LENGTH('w) div 8) (unread s)) :: 'w::len word), advance (LENGTH('w) div 8) s)
     else (Failure (SerError kReadOverflow), s))"
  using assms by (simp add: read_as_def read_data_def read_Some advance_def)

lemma read_as_prefix:
  assumes "stream_inv s" "unread s = word_to_le w @ rest" "8 dvd LENGTH('w)"
  shows "read_as s = (Success (w :: 'w::len word), advance (LENGTH('w) div 8) s)"
  using assms by (simp add: read_as_eq)

lemma read_as_SuccessD:
  assumes "stream_inv s" "read_as s = (Success (w :: 'w::len word), t)" "8 dvd LENGTH('w)"
  shows "t = advance (LENGTH('w) div 8) s" "unread s = word_to_le w @ unread t" "stream_inv t"
proof -
  let ?k = "LENGTH('w) div 8"
  from assms(1,2) have t: "t = advance ?k s" "?k \<le> length (unread s)" "w = le_to_word (take ?k (unread s))"
    by (simp_all add: read_as_eq split: if_splits)
  then show "t = advance ?k s" "stream_inv t"
    using assms(1) by simp_all
  from t assms show "unread s = word_to_le w @ unread t"
    by (simp add: unread_advance)
qed

lemma take_nat_to_le: "m \<le> n \<Longrightarrow> take m (nat_to_le n v) = nat_to_le m v"
proof (induction m arbitrary: n v)
  case (Suc m)
  then show ?case by (cases n) auto
qed simp

lemma nat_to_le_mod: "nat_to_le n (v mod 256 ^ n) = nat_to_le n v"
proof -
  have "nat_to_le n (le_to_nat (nat_to_le n v)) = nat_to_le n v"
    by (simp add: nat_to_le_le_to_nat_len)
  then show ?thesis
    by (simp add: le_to_nat_nat_to_le)
qed

lemma word_to_le_ucast:
  assumes "8 dvd LENGTH('b)" "8 dvd LENGTH('a)" "LENGTH('b) \<le> LENGTH('a)"
  shows "word_to_le (ucast v :: 'b::len word) = take (LENGTH('b) div 8) (word_to_le (v :: 'a::len word))"
proof -
  have "word_to_le (ucast v :: 'b word) = nat_to_le (LENGTH('b) div 8) (unat v mod 256 ^ (LENGTH('b) div 8))"
    by (simp add: word_to_le_def unsigned_ucast_eq take_bit_eq_mod power_256 assms)
  with assms show ?thesis
    by (simp add: nat_to_le_mod word_to_le_def take_nat_to_le div_le_mono)
qed

lemma ucast_ucast_small:
  assumes "unat (v :: 64 word) < 2 ^ LENGTH('b)"
  shows "ucast (ucast v :: 'b::len word) = v"
  using assms by (simp add: word_unat_eq_iff unsigned_ucast_eq unsigned_take_bit_eq take_bit_nat_eq_self)

lemma compact_bytes_small: "ser_compact_sizeof v = 1 \<Longrightarrow> compact_bytes v = word_to_le (ucast v :: 8 word)"
  by (simp add: compact_bytes_def word_to_le_ucast) (simp add: word_to_le_def take_nat_to_le nat_to_le_nth_0)

lemma compact_bytes_16:
  "ser_compact_sizeof v = 3 \<Longrightarrow> compact_bytes v = word_to_le (253 :: 8 word) @ word_to_le (ucast v :: 16 word)"
  by (simp add: compact_bytes_def word_to_le_ucast) (simp add: word_to_le_def)

lemma compact_bytes_32:
  "ser_compact_sizeof v = 5 \<Longrightarrow> compact_bytes v = word_to_le (254 :: 8 word) @ word_to_le (ucast v :: 32 word)"
  by (simp add: compact_bytes_def word_to_le_ucast) (simp add: word_to_le_def)

lemma compact_bytes_64:
  "ser_compact_sizeof v = 9 \<Longrightarrow> compact_bytes v = word_to_le (255 :: 8 word) @ word_to_le v"
  by (simp add: compact_bytes_def) (simp add: word_to_le_def)

lemmas compact_bytes_cases = compact_bytes_small compact_bytes_16 compact_bytes_32 compact_bytes_64

lemma compact_range_ok:
  "(rc \<longrightarrow> unat v \<le> kMaxSerializedCompactSize) \<Longrightarrow> compact_range_check rc v = Success v"
  by (auto simp: compact_range_check_def word_less_nat_alt kMaxSerializedCompactSize_def)

lemma compact_range_SuccessD:
  "compact_range_check rc v = Success w \<Longrightarrow> w = v \<and> (rc \<longrightarrow> unat v \<le> kMaxSerializedCompactSize)"
  by (auto simp: compact_range_check_def word_less_nat_alt kMaxSerializedCompactSize_def split: if_splits)

lemma read_as_tagged:
  assumes "stream_inv s" "unread s = word_to_le (p :: 8 word) @ word_to_le (w :: 'w::len word) @ rest" "8 dvd LENGTH('w)"
  shows "read_as s = (Success p, advance 1 s)" "read_as (advance 1 s) = (Success w, advance (1 + LENGTH('w) div 8) s)"
proof -
  show "read_as s = (Success p, advance 1 s)"
    using read_as_prefix [OF assms(1,2)] by simp
  have "stream_inv (advance 1 s)" "unread (advance 1 s) = word_to_le w @ rest"
    using advance_prefix [OF assms(1,2)] by simp_all
  then show "read_as (advance 1 s) = (Success w, advance (1 + LENGTH('w) div 8) s)"
    by (simp add: read_as_prefix assms(3))
qed

lemma read_as_taggedD:
  assumes "stream_inv s" "read_as s = (Success (p :: 8 word), u)" "read_as u = (Success (w :: 'w::len word), t)"
    "8 dvd LENGTH('w)"
  shows "unread s = word_to_le p @ word_to_le w @ unread t" "t = advance (1 + LENGTH('w) div 8) s" "stream_inv t"
  using read_as_SuccessD [OF assms(1,2)] read_as_SuccessD [OF _ assms(3,4)] by simp_all

lemmas ucast_unat_simps = word_less_nat_alt word_le_nat_alt unsigned_ucast_eq unsigned_take_bit_eq take_bit_nat_eq_self

lemma read_compact_prefix:
  assumes "stream_inv s" "unread s = compact_bytes v @ rest" "rc \<longrightarrow> unat v \<le> kMaxSerializedCompactSize"
  shows "read_compact rc s = (Success v, advance (ser_compact_sizeof v) s)"
proof (cases v rule: compact_sizeof_cases)
  case 1
  then have "read_as s = (Success (ucast v :: 8 word), advance 1 s)"
    using read_as_prefix [OF assms(1), of "ucast v :: 8 word"] assms(2) by (simp add: compact_bytes_cases)
  moreover have "unat v < 253" "ucast (ucast v :: 8 word) = v"
    using 1 by (simp_all add: word_less_nat_alt ucast_ucast_small)
  ultimately show ?thesis
    using 1 assms(3) by (simp add: read_compact_def ucast_unat_simps compact_range_ok)
next
  case 2
  have "253 \<le> unat v" "unat v < 2 ^ 16" "ucast (ucast v :: 16 word) = v"
    using 2 by (simp_all add: word_le_nat_alt ucast_ucast_small)
  with 2 assms(3) read_as_tagged [OF assms(1), of 253 "ucast v :: 16 word" rest] show ?thesis
    by (simp add: read_compact_def numeral_3_eq_3 assms(2) compact_bytes_cases ucast_unat_simps compact_range_ok)
next
  case 3
  have "65536 \<le> unat v" "unat v < 2 ^ 32" "ucast (ucast v :: 32 word) = v"
    using 3 by (simp_all add: word_le_nat_alt word_less_nat_alt ucast_ucast_small)
  with 3 assms(3) read_as_tagged [OF assms(1), of 254 "ucast v :: 32 word" rest] show ?thesis
    by (simp add: read_compact_def assms(2) compact_bytes_cases ucast_unat_simps compact_range_ok)
next
  case 4
  have "\<not> v < 0x100000000"
    using 4 by (simp add: word_less_nat_alt)
  with 4 assms(3) read_as_tagged [OF assms(1), of 255 v rest] show ?thesis
    by (simp add: read_compact_def assms(2) compact_bytes_cases compact_range_ok)
qed

text \<open>The four shapes of a successful read.\<close>

lemma read_compact_SuccessE:
  assumes "read_compact rc s = (Success v, t)"
  obtains (one) p where "read_as s = (Success (p :: 8 word), t)" "p < 253" "compact_range_check rc (ucast p) = Success v"
  | (two) u w where "read_as s = (Success (253 :: 8 word), u)" "read_as u = (Success (w :: 16 word), t)"
      "\<not> w < 253" "compact_range_check rc (ucast w) = Success v"
  | (four) u w where "read_as s = (Success (254 :: 8 word), u)" "read_as u = (Success (w :: 32 word), t)"
      "\<not> w < 0x10000" "compact_range_check rc (ucast w) = Success v"
  | (eight) p u w where "read_as s = (Success (p :: 8 word), u)" "\<not> p < 253" "p \<noteq> 253" "p \<noteq> 254"
      "read_as u = (Success (w :: 64 word), t)" "\<not> w < 0x100000000" "compact_range_check rc w = Success v"
  using assms by (auto simp: read_compact_def split: prod.splits outcome.splits if_splits)

lemma byte_255: "\<not> p < 253 \<Longrightarrow> p \<noteq> 253 \<Longrightarrow> p \<noteq> 254 \<Longrightarrow> p = (255 :: 8 word)"
  using unsigned_less [of p, where ?'a = nat] by (auto simp: word_less_nat_alt word_unat_eq_iff)

text \<open>The bytes of a successful read are the canonical encoding of the value.\<close>

lemma read_compact_SuccessD:
  assumes inv: "stream_inv s" and r: "read_compact rc s = (Success v, t)"
  shows "unread s = compact_bytes v @ unread t \<and> t = advance (ser_compact_sizeof v) s \<and> stream_inv t \<and>
    (rc \<longrightarrow> unat v \<le> kMaxSerializedCompactSize)"
  using r
proof (cases rule: read_compact_SuccessE)
  case (one p)
  then have v: "v = ucast p" "rc \<longrightarrow> unat v \<le> kMaxSerializedCompactSize"
    by (auto dest: compact_range_SuccessD)
  with one have "ser_compact_sizeof v = 1" "ucast v = p"
    by (auto simp: ser_compact_sizeof_def ucast_unat_simps word_unat_eq_iff)
  with v read_as_SuccessD [OF inv one(1)] show ?thesis
    by (simp add: compact_bytes_cases)
next
  case (two u w)
  then have v: "v = ucast w" "rc \<longrightarrow> unat v \<le> kMaxSerializedCompactSize"
    by (auto dest: compact_range_SuccessD)
  with two unsigned_less [of w, where ?'a = nat] have "ser_compact_sizeof v = 3" "ucast v = w"
    by (auto simp: ser_compact_sizeof_def ucast_unat_simps word_unat_eq_iff)
  with v read_as_taggedD [OF inv two(1,2)] show ?thesis
    by (simp add: numeral_3_eq_3 compact_bytes_cases)
next
  case (four u w)
  then have v: "v = ucast w" "rc \<longrightarrow> unat v \<le> kMaxSerializedCompactSize"
    by (auto dest: compact_range_SuccessD)
  with four unsigned_less [of w, where ?'a = nat] have "ser_compact_sizeof v = 5" "ucast v = w"
    by (auto simp: ser_compact_sizeof_def ucast_unat_simps word_unat_eq_iff)
  with v read_as_taggedD [OF inv four(1,2)] show ?thesis
    by (simp add: compact_bytes_cases)
next
  case (eight p u w)
  then have v: "v = w" "rc \<longrightarrow> unat v \<le> kMaxSerializedCompactSize" "p = 255"
    by (auto dest: compact_range_SuccessD byte_255)
  with eight have "ser_compact_sizeof v = 9"
    by (auto simp: ser_compact_sizeof_def ucast_unat_simps)
  with v read_as_taggedD [OF inv eight(1,5)] show ?thesis
    by (simp add: compact_bytes_cases)
qed

section \<open>The contract of a serializable type\<close>

text \<open>Deserialization stays inside the buffer, whatever the bytes and whatever the outcome.\<close>

locale reader =
  fixes bind :: "action \<Rightarrow> 'v bind_fun"
  assumes safe: "stream_inv s \<Longrightarrow> bind kDeserialize (w, s) = (e, v, t) \<Longrightarrow>
    stays s t"
begin

lemma safe_unread: "stream_inv s \<Longrightarrow> bind kDeserialize (w, s) = (e, v, t) \<Longrightarrow> length (unread t) \<le> length (unread s)"
  using safe [of s w e v t] by (auto simp: length_unread stays_def)

end

text \<open>What is written is read back: \<open>enc\<close> is the encoding of an object, \<open>ok\<close>
  the objects the format can carry, and \<open>upd v w\<close> is \<open>w\<close> with the members
  covered by the format taken from \<open>v\<close>.\<close>

locale codec = reader +
  fixes enc :: "'v \<Rightarrow> bytes"
    and upd :: "'v \<Rightarrow> 'v \<Rightarrow> 'v"
    and ok :: "'v \<Rightarrow> bool"
  assumes writes: "ok v \<Longrightarrow> length (ds_buffer s) + length (enc v) \<le> kMaxStreamSize \<Longrightarrow>
      bind kSerialize (v, s) = (None, v, append_bytes (enc v) s)"
    and reads: "ok v \<Longrightarrow> stream_inv s \<Longrightarrow> unread s = enc v @ rest \<Longrightarrow>
      bind kDeserialize (w, s) = (None, upd v w, advance (length (enc v)) s)"
begin

text \<open>An object written to a stream that is read up to its end is what the next read returns, and
  the read leaves nothing behind.\<close>

lemma round_trip:
  assumes "ok v" "stream_inv s" "unread s = []" "length (ds_buffer s) + length (enc v) \<le> kMaxStreamSize"
  shows "\<exists>t u. bind kSerialize (v, s) = (None, v, t) \<and> bind kDeserialize (w, t) = (None, upd v w, u) \<and> unread u = []"
proof -
  let ?t = "append_bytes (enc v) s"
  from assms have u: "unread ?t = enc v @ []" "stream_inv ?t"
    by simp_all
  have "bind kDeserialize (w, ?t) = (None, upd v w, advance (length (enc v)) ?t)"
    by (rule reads [OF assms(1) u(2,1)])
  moreover have "unread (advance (length (enc v)) ?t) = []"
    using advance_prefix(2) [OF u(2,1)] .
  ultimately show ?thesis
    using writes [OF assms(1,4)] by blast
qed

end

text \<open>The size computed ahead is the size of what is written.\<close>

locale sized_codec = codec +
  assumes sizes: "ok v \<Longrightarrow> bind kComputeSize (v, s) = (None, v, add_computed_size (length (enc v)) s)"
begin

lemma serialized_size_enc:
  "ok v \<Longrightarrow> fst (serialized_size bind (v, s)) = ds_computed_size s + length (enc v)"
  by (simp add: serialized_size_def sizes add_computed_size_def)

end

section \<open>Composition\<close>

lemma reader_and_then [codec_intros]:
  assumes "reader F" "reader G"
  shows "reader (\<lambda>a. and_then (F a) (G a))"
proof
  fix s :: sdata_stream and w e v t
  assume s: "stream_inv s" and r: "and_then (F kDeserialize) (G kDeserialize) (w, s) = (e, v, t)"
  obtain e1 v1 t1 where F: "F kDeserialize (w, s) = (e1, v1, t1)"
    by (cases "F kDeserialize (w, s)")
  note t1 = reader.safe [OF assms(1) s F]
  show "stays s t"
  proof (cases e1)
    case None
    with F r have "G kDeserialize (v1, t1) = (e, v, t)"
      by simp
    with reader.safe [OF assms(2)] t1 show ?thesis
      by (blast intro: stays_trans)
  qed (use F r t1 in auto)
qed

lemma reader_on_field [codec_intros]:
  assumes "reader F"
  shows "reader (\<lambda>a. on_field get put (F a))"
  using reader.safe [OF assms] by unfold_locales (auto simp: on_field_def split: prod.splits)

lemma codec_and_then [codec_intros]:
  assumes "codec F e u p" "codec G e' u' p'"
  shows "codec (\<lambda>a. and_then (F a) (G a)) (\<lambda>v. e v @ e' v) (\<lambda>v w. u' v (u v w)) (\<lambda>v. p v \<and> p' v)"
proof (intro codec.intro codec_axioms.intro reader_and_then)
  show "reader F" "reader G"
    using assms by (simp_all add: codec_def)
next
  fix v and s :: sdata_stream
  assume "p v \<and> p' v" "length (ds_buffer s) + length (e v @ e' v) \<le> kMaxStreamSize"
  then show "and_then (F kSerialize) (G kSerialize) (v, s) = (None, v, append_bytes (e v @ e' v) s)"
    using codec.writes [OF assms(1), of v s] codec.writes [OF assms(2), of v "append_bytes (e v) s"] by simp
next
  fix v w and s :: sdata_stream and rest
  assume v: "p v \<and> p' v" and s: "stream_inv s" "unread s = (e v @ e' v) @ rest"
  let ?t = "advance (length (e v)) s"
  have "stream_inv ?t" "unread ?t = e' v @ rest"
    using advance_prefix [OF s(1)] s(2) by simp_all
  moreover have "F kDeserialize (w, s) = (None, u v w, ?t)"
    using codec.reads [OF assms(1) _ s(1)] v s(2) by simp
  ultimately show "and_then (F kDeserialize) (G kDeserialize) (w, s) =
      (None, u' v (u v w), advance (length (e v @ e' v)) s)"
    using codec.reads [OF assms(2), of v ?t] v by simp
qed

lemma codec_on_field [codec_intros]:
  assumes "codec F e u p" "\<And>r. put (get r) r = r"
  shows "codec (\<lambda>a. on_field get put (F a)) (\<lambda>r. e (get r)) (\<lambda>r w. put (u (get r) (get w)) w) (\<lambda>r. p (get r))"
proof (intro codec.intro codec_axioms.intro reader_on_field)
  show "reader F"
    using assms by (simp add: codec_def)
qed (simp_all add: on_field_def assms(2) codec.writes [OF assms(1)] codec.reads [OF assms(1)])

lemma sized_codec_and_then [codec_intros]:
  assumes "sized_codec F e u p" "sized_codec G e' u' p'"
  shows "sized_codec (\<lambda>a. and_then (F a) (G a)) (\<lambda>v. e v @ e' v) (\<lambda>v w. u' v (u v w)) (\<lambda>v. p v \<and> p' v)"
  using assms by (auto simp: sized_codec_def sized_codec_axioms_def intro: codec_and_then)

lemma sized_codec_on_field [codec_intros]:
  assumes "sized_codec F e u p" "\<And>r. put (get r) r = r"
  shows "sized_codec (\<lambda>a. on_field get put (F a)) (\<lambda>r. e (get r)) (\<lambda>r w. put (u (get r) (get w)) w) (\<lambda>r. p (get r))"
  using assms by (auto simp: sized_codec_def sized_codec_axioms_def on_field_def intro: codec_on_field)

text \<open>A member that is bound through a conversion; \<open>q\<close> holds of the values it keeps.\<close>

lemma sized_codec_converted:
  assumes "sized_codec F e u p" "\<And>r. q r \<Longrightarrow> put (get r) r = r \<and> p (get r)"
  shows "sized_codec (\<lambda>a. on_field get put (F a)) (\<lambda>r. e (get r)) (\<lambda>r w. put (u (get r) (get w)) w) q"
proof -
  have F: "codec F e u p"
    using assms(1) by (simp add: sized_codec_def)
  have "codec (\<lambda>a. on_field get put (F a)) (\<lambda>r. e (get r)) (\<lambda>r w. put (u (get r) (get w)) w) q"
  proof (intro codec.intro codec_axioms.intro reader_on_field)
    show "reader F"
      using F by (simp add: codec_def)
  next
    fix v w and s :: sdata_stream and rest
    assume "q v" "stream_inv s" "unread s = e (get v) @ rest"
    then show "on_field get put (F kDeserialize) (w, s) = (None, put (u (get v) (get w)) w, advance (length (e (get v))) s)"
      using codec.reads [OF F, of "get v" s rest "get w"] assms(2) by (simp add: on_field_def)
  qed (simp add: on_field_def assms(2) codec.writes [OF F])
  then show ?thesis
    using assms sized_codec.sizes [OF assms(1)]
    by (simp add: sized_codec_def sized_codec_axioms_def on_field_def)
qed

text \<open>The update matters on the objects of the format only.\<close>

lemma sized_codec_upd:
  assumes "sized_codec F e u p" "\<And>v w. p v \<Longrightarrow> u v w = u' v w"
  shows "sized_codec F e u' p"
  using assms by (simp add: sized_codec_def sized_codec_axioms_def codec_def codec_axioms_def)

text \<open>The loop over a vector.\<close>

lemma bind_each_safe:
  assumes "reader F"
  shows "stream_inv s \<Longrightarrow> bind_each F kDeserialize (ws, s) = (e, vs, t) \<Longrightarrow>
    stays s t"
proof (induction ws arbitrary: s e vs t)
  case (Cons w ws)
  obtain e1 v1 t1 where F: "F kDeserialize (w, s) = (e1, v1, t1)"
    by (cases "F kDeserialize (w, s)")
  note t1 = reader.safe [OF assms Cons.prems(1) F]
  show ?case
  proof (cases e1)
    case None
    obtain e2 v2 t2 where E: "bind_each F kDeserialize (ws, t1) = (e2, v2, t2)"
      by (cases "bind_each F kDeserialize (ws, t1)")
    with Cons.IH [OF _ this] Cons.prems(2) F None t1 show ?thesis
      by (auto intro: stays_trans)
  qed (use F t1 Cons.prems in auto)
qed simp

lemma bind_each_writes:
  assumes "codec F e u p"
  shows "\<forall>x \<in> set xs. p x \<Longrightarrow> length (ds_buffer s) + length (concat (map e xs)) \<le> kMaxStreamSize \<Longrightarrow>
    bind_each F kSerialize (xs, s) = (None, xs, append_bytes (concat (map e xs)) s)"
proof (induction xs arbitrary: s)
  case Nil
  then show ?case by (simp add: append_bytes_def)
next
  case (Cons x xs)
  then show ?case
    using codec.writes [OF assms, of x s] Cons.IH [of "append_bytes (e x) s"] by simp
qed

lemma bind_each_reads:
  assumes "codec F e (\<lambda>v w. v) p"
  shows "\<forall>x \<in> set xs. p x \<Longrightarrow> length ws = length xs \<Longrightarrow> stream_inv s \<Longrightarrow> unread s = concat (map e xs) @ rest \<Longrightarrow>
    bind_each F kDeserialize (ws, s) = (None, xs, advance (length (concat (map e xs))) s)"
proof (induction xs arbitrary: s ws)
  case (Cons x xs)
  then obtain w ws' where ws: "ws = w # ws'" "length ws' = length xs"
    by (cases ws) auto
  let ?t = "advance (length (e x)) s"
  have "stream_inv ?t" "unread ?t = concat (map e xs) @ rest"
    using advance_prefix [OF Cons.prems(3)] Cons.prems(4) by simp_all
  moreover have "F kDeserialize (w, s) = (None, x, ?t)"
    using codec.reads [OF assms _ Cons.prems(3)] Cons.prems by simp
  ultimately show ?case
    using Cons.IH [of ws' ?t] Cons.prems(1) ws by simp
qed simp

lemma length_resize_list [simp]: "length (resize_list d n xs) = n"
  by (simp add: resize_list_def)

section \<open>The bind functions are codecs\<close>

lemma advance_stays: "stream_inv s \<Longrightarrow> n \<le> length (unread s) \<Longrightarrow> stays s (advance n s)"
  by (simp add: stays_def)

lemma stream_read_safe: "stream_inv s \<Longrightarrow> stream_read (Some n) s = (r, t) \<Longrightarrow> stays s t"
  by (auto simp: read_Some stays_def split: if_splits)

lemma read_as_safe: "stream_inv s \<Longrightarrow> read_as s = (r, t) \<Longrightarrow> stays s t"
  by (auto simp: read_as_eq advance_stays split: if_splits)

lemma read_compact_safe:
  assumes "stream_inv s" "read_compact rc s = (r, t)"
  shows "stays s t"
proof -
  obtain r1 :: "(error_code, 8 word) outcome" and t1 where 1: "read_as s = (r1, t1)"
    by (cases "read_as s :: (error_code, 8 word) outcome \<times> 'a data_stream_scheme")
  note s1 = read_as_safe [OF assms(1) 1]
  from assms(2) 1 consider "t = t1"
    | r2 where "read_as t1 = (r2 :: (error_code, 16 word) outcome, t)"
    | r2 where "read_as t1 = (r2 :: (error_code, 32 word) outcome, t)"
    | r2 where "read_as t1 = (r2 :: (error_code, 64 word) outcome, t)"
    by (cases r1) (auto simp: read_compact_def split: prod.splits outcome.splits if_splits)
  then show ?thesis
    using s1 by cases (auto intro: stays_trans read_as_safe)
qed

interpretation integral_codec: sized_codec "bind_integral :: action \<Rightarrow> 'w::len word bind_fun" word_to_le "\<lambda>v w. v"
    "\<lambda>v. 8 dvd LENGTH('w)"
proof (standard, goal_cases)
  case (1 s w e v t)
  then show ?case
    using stream_read_safe [OF 1(1)]
    by (auto simp: bind_integral_def read_data_def split: prod.splits outcome.splits)
next
  case (2 v s)
  then show ?case by (simp add: bind_integral_def write_data_def write_append)
next
  case (3 v s rest w)
  then show ?case by (simp add: bind_integral_def read_data_def read_advance)
next
  case (4 v s)
  then show ?case by (simp add: bind_integral_def)
qed

interpretation bool_codec: sized_codec bind_bool "\<lambda>b. [if b then 1 else 0]" "\<lambda>v w. v" "\<lambda>_. True"
proof (standard, goal_cases)
  case (1 s w e v t)
  then show ?case
    using stream_read_safe [OF 1(1)]
    by (auto simp: bind_bool_def read_data_bool_def split: prod.splits outcome.splits)
next
  case (2 v s)
  then show ?case by (simp add: bind_bool_def write_data_bool_def stream_push_back_def append_bytes_def)
next
  case (3 v s rest w)
  then show ?case by (simp add: bind_bool_def read_data_bool_def read_Some advance_def)
next
  case (4 v s)
  then show ?case by (simp add: bind_bool_def)
qed

interpretation array_codec: sized_codec "bind_array n" "\<lambda>b. b" "\<lambda>v w. v" "\<lambda>b. length b = n"
proof (standard, goal_cases)
  case (1 s w e v t)
  then show ?case
    using stream_read_safe [OF 1(1)] by (auto simp: bind_array_def split: prod.splits outcome.splits)
next
  case (2 v s)
  then show ?case by (simp add: bind_array_def write_append)
next
  case (3 v s rest w)
  then show ?case by (simp add: bind_array_def read_advance)
next
  case (4 v s)
  then show ?case by (simp add: bind_array_def)
qed

lemma unat_of_nat_compact: "n \<le> kMaxSerializedCompactSize \<Longrightarrow> unat (of_nat n :: 64 word) = n"
  by (simp add: unat_of_nat kMaxSerializedCompactSize_def)

interpretation string_codec: sized_codec bind_string string_bytes "\<lambda>v w. v" "\<lambda>b. length b \<le> kMaxSerializedCompactSize"
proof (standard, goal_cases)
  case (1 s w e v t)
  then show ?case
    by (auto simp: bind_string_def split: prod.splits outcome.splits
        dest!: read_compact_safe intro: stays_trans stream_read_safe [OF stays_inv])
next
  case (2 v s)
  then show ?case
    by (simp add: bind_string_def string_bytes_def length_compact_bytes write_compact_append write_append)
next
  case (3 v s rest w)
  let ?n = "of_nat (length v) :: 64 word"
  have "read_compact True s = (Success ?n, advance (ser_compact_sizeof ?n) s)"
    using 3 by (intro read_compact_prefix) (simp_all add: string_bytes_def unat_of_nat_compact)
  moreover have "stream_inv (advance (ser_compact_sizeof ?n) s)" "unread (advance (ser_compact_sizeof ?n) s) = v @ rest"
    using advance_prefix [OF 3(2), of "compact_bytes ?n" "v @ rest"] 3(3)
    by (simp_all add: string_bytes_def length_compact_bytes)
  ultimately show ?case
    using 3(1) by (simp add: bind_string_def read_advance string_bytes_def length_compact_bytes unat_of_nat_compact)
next
  case (4 v s)
  then show ?case by (simp add: bind_string_def string_bytes_def length_compact_bytes)
qed

section \<open>Properties\<close>

text \<open>C29. A compact size is read back as it was written, whatever follows it in the stream, when it is
  at most the maximum that the range check allows or the check is off.\<close>

theorem compact_round_trip:
  fixes s :: sdata_stream
  assumes "stream_inv s" "unread s = []" "unat v \<le> kMaxSerializedCompactSize \<or> \<not> range_check"
    and "length (ds_buffer s) + ser_compact_sizeof v + length rest \<le> kMaxStreamSize"
  shows "\<exists>t u w. write_compact v s = (None, t) \<and> stream_write rest t = (None, u) \<and>
    read_compact range_check u = (Success v, w) \<and> unread w = rest"
proof -
  let ?t = "append_bytes (compact_bytes v) s" and ?u = "append_bytes (compact_bytes v @ rest) s"
  have "unread ?u = compact_bytes v @ rest" "stream_inv ?u"
    using assms(1,2) by simp_all
  moreover from this have "read_compact range_check ?u = (Success v, advance (ser_compact_sizeof v) ?u)"
    using assms(3) by (intro read_compact_prefix) auto
  moreover have "unread (advance (ser_compact_sizeof v) ?u) = rest"
    using advance_prefix(2) [OF calculation(2,1)] by (simp add: length_compact_bytes)
  moreover have "write_compact v s = (None, ?t)" "stream_write rest ?t = (None, ?u)"
    using assms(4) by (simp_all add: write_compact_append write_append length_compact_bytes)
  ultimately show ?thesis
    by blast
qed

theorem compact_round_trip_witness:
  "\<exists>t u w. write_compact 70000 (sdata_stream_of [] kNetwork 0) = (None, t) \<and> stream_write [7] t = (None, u) \<and>
    read_compact True u = (Success 70000, w) \<and> unread w = [7]"
  by (rule compact_round_trip)
    (simp_all add: ser_compact_sizeof_def sdata_stream_of_def stream_inv_def unread_def kMaxStreamSize_eq kMaxSerializedCompactSize_def)

text \<open>C30. The encoding of a compact size is canonical: a read succeeds only on the bytes that writing
  the value produces, so that no value has two encodings, and a checked read is in range.\<close>

theorem compact_canonical:
  assumes "stream_inv s" "read_compact range_check s = (Success v, t)"
  shows "unread s = compact_bytes v @ unread t \<and> (range_check \<longrightarrow> unat v \<le> kMaxSerializedCompactSize)"
  using read_compact_SuccessD [OF assms] by blast

theorem compact_canonical_witness:
  "\<exists>t. read_compact True (stream_of [253, 0, 1, 9]) = (Success 256, t) \<and> [253, 0, 1, 9] = compact_bytes 256 @ unread t"
proof -
  have "compact_bytes 256 = [253, 0, 1]"
    by code_simp
  then have "read_compact True (stream_of [253, 0, 1, 9]) = (Success 256, advance (ser_compact_sizeof 256) (stream_of [253, 0, 1, 9]))"
    by (intro read_compact_prefix [where rest = "[9]"]) (simp_all add: kMaxSerializedCompactSize_def)
  then obtain t where t: "read_compact True (stream_of [253, 0, 1, 9]) = (Success 256, t)"
    by blast
  from compact_canonical [OF _ t] t show ?thesis
    by auto
qed

end
