(* ===== verification/Hex.thy ===== *)
theory Hex
  imports Errors
begin

unbundle bit_operations_syntax

text \<open>
  core/encoding/hex.hpp and hex.cpp: hexadecimal text. The decoder of the source works on lookup
  tables and unrolls its loop four bytes at a time, testing the four digits of each rank for
  validity with one comparison; \<open>decode_spec\<close> is the digit by digit definition it is
  compared with. Decoding inverts encoding, and \<open>reverse_hex\<close> is the reversal of the
  encoded bytes.
\<close>

section \<open>Digits and tables\<close>

definition kHexDigits :: string where
  "kHexDigits = ''0123456789abcdef''"

definition kUnhexTable :: bytes where
  "kUnhexTable =
    replicate 48 0xff @ [0x00, 0x01, 0x02, 0x03, 0x04, 0x05, 0x06, 0x07, 0x08, 0x09] @
    replicate 7 0xff @ [0x0a, 0x0b, 0x0c, 0x0d, 0x0e, 0x0f] @
    replicate 26 0xff @ [0x0a, 0x0b, 0x0c, 0x0d, 0x0e, 0x0f] @ replicate 153 0xff"

definition kUnhexTable4 :: bytes where
  "kUnhexTable4 =
    replicate 48 0xff @ [0x00, 0x10, 0x20, 0x30, 0x40, 0x50, 0x60, 0x70, 0x80, 0x90] @
    replicate 7 0xff @ [0xa0, 0xb0, 0xc0, 0xd0, 0xe0, 0xf0] @
    replicate 26 0xff @ [0xa0, 0xb0, 0xc0, 0xd0, 0xe0, 0xf0] @ replicate 153 0xff"

definition unhex :: "char \<Rightarrow> byte" where
  "unhex c = kUnhexTable ! of_char c"

definition unhex4 :: "char \<Rightarrow> byte" where
  "unhex4 c = kUnhexTable4 ! of_char c"

definition decode_digit :: "char \<Rightarrow> (error_code, byte) outcome" where
  "decode_digit c = (if unhex c = 0xff then Failure (EncError kIllegalHexDigit) else Success (unhex c))"

section \<open>Encoding\<close>

definition has_prefix :: "string \<Rightarrow> bool" where
  "has_prefix s = (length s \<ge> 2 \<and> s ! 0 = CHR ''0'' \<and> (s ! 1 = CHR ''x'' \<or> s ! 1 = CHR ''X''))"

definition encode_byte :: "byte \<Rightarrow> string" where
  "encode_byte b = [kHexDigits ! unat (drop_bit 4 b), kHexDigits ! unat (b AND 0x0f)]"

definition encode :: "bytes \<Rightarrow> bool \<Rightarrow> string" where
  "encode bs with_prefix = (if with_prefix then ''0x'' else []) @ concat (map encode_byte bs)"

definition zeroless_view :: "bytes \<Rightarrow> bytes" where
  "zeroless_view data = dropWhile (\<lambda>b. b = 0) data"

definition encode_integral :: "'a::len word \<Rightarrow> bool \<Rightarrow> string" where
  "encode_integral value with_prefix =
    (let bs = word_to_le value;
         bs = (if length bs \<noteq> 1 then rev bs else bs);
         hexed = encode (zeroless_view bs) with_prefix
     in if length hexed = (if with_prefix then 2 else 0) then hexed @ ''00'' else hexed)"

text \<open>The loop of \<open>reverse_hex\<close> takes pairs of characters from the end of the input; a single
  character left over is padded.\<close>

function reverse_hex_loop :: "string \<Rightarrow> string" where
  "reverse_hex_loop input =
    (if length input \<ge> 2 then drop (length input - 2) input @ reverse_hex_loop (take (length input - 2) input)
     else if input = [] then [] else [CHR ''0'', last input])"
  by auto

termination
  by (relation "measure length") auto

declare reverse_hex_loop.simps [simp del]

definition reverse_hex :: "string \<Rightarrow> string" where
  "reverse_hex input =
    (if input = [] then []
     else if has_prefix input then ''0x'' @ reverse_hex_loop (drop 2 input)
     else reverse_hex_loop input)"

section \<open>Decoding\<close>

fun decode_pairs :: "string \<Rightarrow> bytes \<Rightarrow> (error_code, bytes) outcome" where
  "decode_pairs (p # q # src) out =
    (let a = unhex4 p; b = unhex q
     in if a = 0xff \<or> b = 0xff then Failure (EncError kIllegalHexDigit)
        else decode_pairs src (out @ [a OR b]))"
| "decode_pairs src out = Success out"

fun decode_unrolled :: "string \<Rightarrow> bytes \<Rightarrow> (error_code, bytes) outcome" where
  "decode_unrolled (p # q # r # s # t # u # v # w # src) out =
    (let a = unhex4 p; b = unhex q; c = unhex4 r; d = unhex s; e = unhex4 t; f = unhex u; g = unhex4 v; h = unhex w
     in if b OR d OR f OR h = 0xff \<or> a OR c OR e OR g = 0xff then Failure (EncError kIllegalHexDigit)
        else decode_unrolled src (out @ [a OR b, c OR d, e OR f, g OR h]))"
| "decode_unrolled src out = decode_pairs src out"

definition decode :: "string \<Rightarrow> (error_code, bytes) outcome" where
  "decode input =
    (let hex_str = (if has_prefix input then drop 2 input else input)
     in if hex_str = [] then Success []
        else if odd (length hex_str) then
          (let b = unhex (hd hex_str)
           in if b = 0xff then Failure (EncError kIllegalHexDigit) else decode_unrolled (tl hex_str) [b])
        else decode_unrolled hex_str [])"

section \<open>Reference decoder\<close>

fun spec_pairs :: "string \<Rightarrow> (error_code, bytes) outcome" where
  "spec_pairs (p # q # src) =
    (case (decode_digit p, decode_digit q, spec_pairs src) of
      (Success a, Success b, Success bs) \<Rightarrow> Success ((push_bit 4 a OR b) # bs)
    | _ \<Rightarrow> Failure (EncError kIllegalHexDigit))"
| "spec_pairs src = Success []"

definition decode_spec :: "string \<Rightarrow> (error_code, bytes) outcome" where
  "decode_spec input =
    (let h = (if has_prefix input then drop 2 input else input)
     in spec_pairs (if odd (length h) then CHR ''0'' # h else h))"

section \<open>The tables\<close>

lemma table_check:
  "list_all2 (\<lambda>lo hi. hi = (if lo = 0xff then 0xff else push_bit 4 lo) \<and> (lo = 0xff \<or> lo < 16)) kUnhexTable kUnhexTable4"
  by code_simp

lemma table_length: "length kUnhexTable = 256"
  by (simp add: kUnhexTable_def)

lemma unhex4_unhex: "unhex4 c = (if unhex c = 0xff then 0xff else push_bit 4 (unhex c))"
  and unhex_range: "unhex c = 0xff \<or> unhex c < 16"
proof -
  have "of_char c < length kUnhexTable"
    using nat_of_char_less_256 [of c] by (simp add: table_length)
  from list_all2_nthD [OF table_check this]
  show "unhex4 c = (if unhex c = 0xff then 0xff else push_bit 4 (unhex c))" "unhex c = 0xff \<or> unhex c < 16"
    unfolding unhex_def unhex4_def by blast+
qed

section \<open>The validity test on four digits at a time\<close>

lemma byte_ff: "(0xff :: byte) = - 1"
  by simp

lemma less_16_iff: "(x :: byte) < 16 \<longleftrightarrow> drop_bit 4 x = 0"
  by (simp add: word_less_nat_alt word_unat_eq_iff drop_bit_eq_div unat_div div_eq_0_iff)

lemma or_less_16: "(x :: byte) < 16 \<Longrightarrow> y < 16 \<Longrightarrow> x OR y < 16"
  by (simp add: less_16_iff)

lemma less_16_not_ff: "(x :: byte) < 16 \<Longrightarrow> x \<noteq> 0xff"
  by auto

lemma or_ff [simp]: "x OR 0xff = (0xff :: byte)" "0xff OR x = (0xff :: byte)"
  unfolding byte_ff by simp_all

lemma even_not_ff: "even (x :: byte) \<Longrightarrow> x \<noteq> 0xff"
  by (auto simp: even_word_iff)

lemma or_ff_low:
  assumes "x = 0xff \<or> x < 16" "y = 0xff \<or> y < (16 :: byte)"
  shows "x OR y = 0xff \<longleftrightarrow> x = 0xff \<or> y = 0xff" "x OR y = 0xff \<or> x OR y < 16"
  using assms or_less_16 [of x y] less_16_not_ff [of "x OR y"] by auto

lemma or_ff_high:
  assumes "x = 0xff \<or> even x" "y = 0xff \<or> even (y :: byte)"
  shows "x OR y = 0xff \<longleftrightarrow> x = 0xff \<or> y = 0xff" "x OR y = 0xff \<or> even (x OR y)"
  using assms even_not_ff [of "x OR y"] by (auto simp: even_or_iff)

lemma unhex4_ff [simp]: "unhex4 c = 0xff \<longleftrightarrow> unhex c = 0xff"
  using even_not_ff [of "push_bit 4 (unhex c)"] by (simp add: unhex4_unhex)

lemma unhex4_range: "unhex4 c = 0xff \<or> even (unhex4 c)"
  by (simp add: unhex4_unhex)

lemma low_test:
  "unhex b OR unhex d OR unhex f OR unhex h = 0xff \<longleftrightarrow> unhex b = 0xff \<or> unhex d = 0xff \<or> unhex f = 0xff \<or> unhex h = 0xff"
  by (simp only: or_ff_low(1) [OF unhex_range or_ff_low(2) [OF unhex_range or_ff_low(2) [OF unhex_range unhex_range]]]
      or_ff_low(1) [OF unhex_range or_ff_low(2) [OF unhex_range unhex_range]] or_ff_low(1) [OF unhex_range unhex_range])

lemma high_test:
  "unhex4 a OR unhex4 c OR unhex4 e OR unhex4 g = 0xff \<longleftrightarrow> unhex a = 0xff \<or> unhex c = 0xff \<or> unhex e = 0xff \<or> unhex g = 0xff"
  by (simp only: or_ff_high(1) [OF unhex4_range or_ff_high(2) [OF unhex4_range or_ff_high(2) [OF unhex4_range unhex4_range]]]
      or_ff_high(1) [OF unhex4_range or_ff_high(2) [OF unhex4_range unhex4_range]] or_ff_high(1) [OF unhex4_range unhex4_range] unhex4_ff)

lemma decode_unrolled_pairs: "decode_unrolled src out = decode_pairs src out"
  by (induction src out rule: decode_unrolled.induct) (simp_all add: low_test high_test Let_def)

section \<open>The decoder against its reference\<close>

lemma spec_pairs_Failure: "spec_pairs src = Failure e \<Longrightarrow> e = EncError kIllegalHexDigit"
  by (induction src rule: spec_pairs.induct) (auto split: outcome.splits)

lemma push_bit_not_ff: "push_bit 4 (x :: byte) \<noteq> 0xff"
  by (rule even_not_ff) simp

lemma decode_pairs_spec:
  "even (length src) \<Longrightarrow>
    decode_pairs src out = (case spec_pairs src of Failure e \<Rightarrow> Failure e | Success bs \<Rightarrow> Success (out @ bs))"
proof (induction src out rule: decode_pairs.induct)
  case (1 p q src out)
  then show ?case
    by (auto simp: Let_def decode_digit_def unhex4_unhex push_bit_not_ff dest: spec_pairs_Failure split: outcome.splits)
qed auto

lemma unhex_0: "unhex CHR ''0'' = 0"
  by code_simp

lemma decode_eq_spec: "decode s = decode_spec s"
proof -
  define h where "h = (if has_prefix s then drop 2 s else s)"
  have d: "decode s = (if h = [] then Success []
        else if odd (length h) then
          (let b = unhex (hd h)
           in if b = 0xff then Failure (EncError kIllegalHexDigit) else decode_unrolled (tl h) [b])
        else decode_unrolled h [])"
    unfolding decode_def h_def [symmetric] Let_def ..
  have "decode_spec s = spec_pairs (if odd (length h) then CHR ''0'' # h else h)"
    by (simp add: decode_spec_def h_def)
  moreover have "decode_digit CHR ''0'' = Success 0"
    by (simp add: decode_digit_def unhex_0)
  ultimately show ?thesis
    unfolding d
    by (cases h) (auto simp: Let_def decode_unrolled_pairs decode_pairs_spec decode_digit_def dest: spec_pairs_Failure split: outcome.splits)
qed

section \<open>Round trips\<close>

lemma hex_digit_check: "list_all (\<lambda>i. unhex (kHexDigits ! i) = of_nat i \<and> kHexDigits ! i \<noteq> CHR ''x'' \<and> kHexDigits ! i \<noteq> CHR ''X'') [0..<16]"
  by code_simp

lemma unhex_kHexDigits:
  "n < 16 \<Longrightarrow> unhex (kHexDigits ! n) = of_nat n"
  "n < 16 \<Longrightarrow> kHexDigits ! n \<noteq> CHR ''x''" "n < 16 \<Longrightarrow> kHexDigits ! n \<noteq> CHR ''X''"
  using hex_digit_check by (simp_all add: list_all_iff)

lemma nibbles: "unat (drop_bit 4 (b :: byte)) < 16" "unat (b AND 0xf) < 16" "push_bit 4 (drop_bit 4 b) OR (b AND 0xf) = b"
proof -
  show "unat (drop_bit 4 b) < 16"
    using unsigned_less [of b, where ?'a = nat] by (simp add: drop_bit_eq_div unat_div)
  have m: "b AND 0xf = take_bit 4 b"
    by (simp add: take_bit_eq_mask mask_eq_exp_minus_1)
  then show "unat (b AND 0xf) < 16"
    by (simp add: take_bit_eq_mod unat_mod)
  show "push_bit 4 (drop_bit 4 b) OR (b AND 0xf) = b"
    unfolding m by (rule bit_eqI) (auto simp: bit_simps)
qed

lemma decode_digit_nibble: "n < 16 \<Longrightarrow> decode_digit (kHexDigits ! n) = Success (of_nat n)"
proof -
  assume n: "n < 16"
  then have "unat (of_nat n :: byte) = n"
    by (simp add: unat_of_nat)
  with n have "(of_nat n :: byte) \<noteq> 0xff"
    by (auto simp: word_unat_eq_iff)
  with n show ?thesis
    by (simp add: decode_digit_def unhex_kHexDigits)
qed

lemma spec_pairs_encode_byte:
  "spec_pairs (encode_byte b @ s) = (case spec_pairs s of Success bs \<Rightarrow> Success (b # bs) | Failure e \<Rightarrow> Failure (EncError kIllegalHexDigit))"
  using nibbles [of b] by (simp add: encode_byte_def decode_digit_nibble split: outcome.split)

lemma spec_pairs_encode: "spec_pairs (concat (map encode_byte bs)) = Success bs"
  by (induction bs) (simp_all add: spec_pairs_encode_byte)

lemma length_concat_encode_byte [simp]: "length (concat (map encode_byte bs)) = 2 * length bs"
  by (induction bs) (simp_all add: encode_byte_def)

lemma no_prefix_encode: "\<not> has_prefix (concat (map encode_byte bs))"
  using nibbles(2) by (cases bs) (auto simp: has_prefix_def encode_byte_def unhex_kHexDigits)

lemma decode_encode: "decode (encode bs p) = Success bs"
proof -
  have "has_prefix (''0x'' @ s)" for s
    by (simp add: has_prefix_def)
  then show ?thesis
    by (simp add: decode_eq_spec decode_spec_def encode_def no_prefix_encode spec_pairs_encode)
qed

lemma reverse_hex_loop_snoc: "reverse_hex_loop (s @ [a, b]) = [a, b] @ reverse_hex_loop s"
  by (subst reverse_hex_loop.simps) simp

lemma reverse_hex_loop_encode: "reverse_hex_loop (concat (map encode_byte bs)) = concat (map encode_byte (rev bs))"
proof (induction bs rule: rev_induct)
  case (snoc b bs)
  then show ?case
    by (simp add: encode_byte_def reverse_hex_loop_snoc)
qed (simp add: reverse_hex_loop.simps)

lemma reverse_hex_encode: "reverse_hex (encode bs p) = encode (rev bs) p"
proof -
  have "has_prefix (''0x'' @ s)" for s
    by (simp add: has_prefix_def)
  then show ?thesis
    by (cases bs) (simp_all add: reverse_hex_def encode_def no_prefix_encode reverse_hex_loop_encode reverse_hex_loop.simps [of "[]"]
        del: list.map concat.simps)
qed

text \<open>Integers are printed most significant byte first, without leading zero bytes.\<close>

lemma rev_word_to_le_1: "length (word_to_le w) = 1 \<Longrightarrow> rev (word_to_le w) = word_to_le w"
  by (cases "word_to_le w") auto

lemma encode_byte_0: "encode_byte 0 = ''00''"
  by code_simp

lemma encode_integral_eq:
  "encode_integral w p = encode (if zeroless_view (word_to_be w) = [] then [0] else zeroless_view (word_to_be w)) p"
proof -
  have "(if length (word_to_le w) \<noteq> 1 then rev (word_to_le w) else word_to_le w) = word_to_be w"
    using rev_word_to_le_1 [of w] by (simp add: word_to_be_def)
  moreover have "length (encode bs p) = (if p then 2 else 0) + 2 * length bs" for bs
    by (simp add: encode_def)
  ultimately show ?thesis
    by (simp add: encode_integral_def Let_def) (simp add: encode_def encode_byte_0)
qed

lemma le_to_nat_snoc_zeros: "le_to_nat (xs @ replicate n 0) = le_to_nat xs"
  by (simp add: le_to_nat_append) (induction n, simp_all)

lemma zeroless_view_split: "\<exists>n. data = replicate n 0 @ zeroless_view data"
proof (induction data)
  case (Cons b data)
  then obtain n where n: "data = replicate n 0 @ zeroless_view data"
    by blast
  show ?case
  proof (cases "b = 0")
    case True
    with n have "b # data = replicate (Suc n) 0 @ zeroless_view (b # data)"
      by (simp add: zeroless_view_def)
    then show ?thesis ..
  next
    case False
    then have "b # data = replicate 0 0 @ zeroless_view (b # data)"
      by (simp add: zeroless_view_def)
    then show ?thesis ..
  qed
qed (simp add: zeroless_view_def)

lemma le_to_nat_zeroless: "le_to_nat (rev (zeroless_view data)) = le_to_nat (rev data)"
proof -
  obtain n where "data = replicate n 0 @ zeroless_view data"
    using zeroless_view_split by blast
  then have "rev data = rev (replicate n 0 @ zeroless_view data)"
    by (rule arg_cong)
  then have "rev data = rev (zeroless_view data) @ replicate n 0"
    by (simp only: rev_append rev_replicate)
  then show ?thesis
    by (simp add: le_to_nat_snoc_zeros)
qed

lemma decode_encode_integral:
  fixes w :: "'a::len word"
  assumes "8 dvd LENGTH('a)"
  shows "\<exists>bs. decode (encode_integral w p) = Success bs \<and> be_to_word bs = w \<and> length bs \<le> max 1 (LENGTH('a) div 8)"
proof -
  let ?z = "zeroless_view (word_to_be w)"
  let ?bs = "if ?z = [] then [0] else ?z"
  have "le_to_nat (rev ?bs) = le_to_nat (rev ?z)"
    by simp
  also have "\<dots> = le_to_nat (word_to_le w)"
    by (simp add: le_to_nat_zeroless word_to_be_def)
  finally have "be_to_word ?bs = w"
    using le_to_word_word_to_le [OF assms, of w] by (simp add: be_to_word_def le_to_word_def)
  moreover have "length ?z \<le> LENGTH('a) div 8"
    using length_dropWhile_le [of "\<lambda>b. b = 0" "word_to_be w"] by (simp add: zeroless_view_def)
  ultimately show ?thesis
    by (intro exI [of _ ?bs]) (auto simp: encode_integral_eq decode_encode)
qed

section \<open>Properties\<close>

text \<open>C33. The unrolled, table driven decoder, whose inner loop tests four digits at once by the
  disjunction of their table entries, accepts the same texts and yields the same bytes as the digit by
  digit reference.\<close>

theorem decode_reference: "decode s = decode_spec s"
  by (rule decode_eq_spec)

text \<open>Decoding undoes encoding, with or without the prefix, and reversing the text of some bytes is
  the text of the reversed bytes.\<close>

theorem hex_round_trip: "decode (encode bs p) = Success bs \<and> reverse_hex (encode bs p) = encode (rev bs) p"
  by (simp add: decode_encode reverse_hex_encode)

text \<open>The text of an unsigned integer decodes to bytes whose big-endian value is the integer, without
  superfluous leading bytes.\<close>

theorem hex_integral_round_trip:
  fixes w :: "'a::len word"
  assumes "8 dvd LENGTH('a)"
  shows "\<exists>bs. decode (encode_integral w p) = Success bs \<and> be_to_word bs = w \<and> length bs \<le> max 1 (LENGTH('a) div 8)"
  by (rule decode_encode_integral [OF assms])

theorem hex_integral_round_trip_witness:
  "\<exists>bs. decode (encode_integral (0x102 :: 32 word) True) = Success bs \<and> be_to_word bs = (0x102 :: 32 word) \<and> length bs \<le> max 1 (LENGTH(32) div 8)"
  by (rule hex_integral_round_trip) simp

end
