(* ===== verification/Base58.thy ===== *)
theory Base58
  imports Errors
begin

text \<open>
  core/encoding/base58.cpp: base 58 text, with and without a checksum. The arbitrary precision
  integers of the source are natural numbers; SHA-256 is a parameter. Both conversions are a
  change of positional notation: \<open>digits\<close> and \<open>digits_value\<close> are the notation
  in an arbitrary base that the round trip proofs share.
\<close>

section \<open>Encoding\<close>

definition kBase58Digits :: string where
  "kBase58Digits = ''123456789ABCDEFGHJKLMNPQRSTUVWXYZabcdefghijkmnopqrstuvwxyz''"

definition kCheckSumLength :: nat where "kCheckSumLength = 4"

fun bytes_value :: "bytes \<Rightarrow> nat \<Rightarrow> nat" where
  "bytes_value [] value = value"
| "bytes_value (b # bs) value = bytes_value bs (value * 256 + unat b)"

function base58_loop :: "nat \<Rightarrow> string \<Rightarrow> string" where
  "base58_loop value encoded =
    (if value \<noteq> 0 then base58_loop (value div 58) ((kBase58Digits ! (value mod 58)) # encoded) else encoded)"
  by auto

termination
  by (relation "measure fst") auto

fun prepend_ones :: "bytes \<Rightarrow> string \<Rightarrow> string" where
  "prepend_ones [] encoded = encoded"
| "prepend_ones (b # bs) encoded = (if b \<noteq> 0 then encoded else prepend_ones bs (CHR ''1'' # encoded))"

definition base58_encode :: "bytes \<Rightarrow> (error_code, string) outcome" where
  "base58_encode input =
    (if input = [] then Success []
     else if length input > 1024 then Failure (EncError kEncInputTooLarge)
     else Success (prepend_ones input (base58_loop (bytes_value input 0) [])))"

definition base58_encode_check :: "(bytes \<Rightarrow> bytes) \<Rightarrow> bytes \<Rightarrow> (error_code, string) outcome" where
  "base58_encode_check sha256 input = base58_encode (input @ take kCheckSumLength (sha256 input))"

section \<open>Decoding\<close>

text \<open>\<open>std::string_view::find\<close> of one character.\<close>

fun find_char :: "char \<Rightarrow> string \<Rightarrow> nat option" where
  "find_char c [] = None"
| "find_char c (d # ds) = (if c = d then Some 0 else map_option Suc (find_char c ds))"

fun base58_value :: "string \<Rightarrow> nat \<Rightarrow> (error_code, nat) outcome" where
  "base58_value [] value = Success value"
| "base58_value (c # cs) value =
    (case find_char c kBase58Digits of
      None \<Rightarrow> Failure (EncError kIllegalBase58Digit)
    | Some pos \<Rightarrow> base58_value cs (value * 58 + pos))"

function bytes_loop :: "nat \<Rightarrow> bytes \<Rightarrow> bytes" where
  "bytes_loop value decoded =
    (if value \<noteq> 0 then bytes_loop (value div 256) (of_nat (value mod 256) # decoded) else decoded)"
  by auto

termination
  by (relation "measure fst") auto

fun prepend_zeroes :: "string \<Rightarrow> bytes \<Rightarrow> bytes" where
  "prepend_zeroes [] decoded = decoded"
| "prepend_zeroes (c # cs) decoded = (if c \<noteq> CHR ''1'' then decoded else prepend_zeroes cs (0 # decoded))"

definition base58_decode :: "string \<Rightarrow> (error_code, bytes) outcome" where
  "base58_decode input =
    (if input = [] then Success []
     else
      (case base58_value input 0 of
        Failure e \<Rightarrow> Failure e
      | Success value \<Rightarrow> Success (prepend_zeroes input (bytes_loop value []))))"

definition base58_decode_check :: "(bytes \<Rightarrow> bytes) \<Rightarrow> string \<Rightarrow> (error_code, bytes) outcome" where
  "base58_decode_check sha256 input =
    (case base58_decode input of
      Failure e \<Rightarrow> Failure e
    | Success decoded \<Rightarrow>
        if length decoded < kCheckSumLength then Failure (EncError kInputTooNarrow)
        else
          (let original = take (length decoded - kCheckSumLength) decoded;
               checksum = drop (length decoded - kCheckSumLength) decoded
           in if take (length checksum) (sha256 original) \<noteq> checksum then Failure (EncError kIllegalBase58Digit)
              else Success original))"

section \<open>Positional notation\<close>

function digits :: "nat \<Rightarrow> nat \<Rightarrow> nat list" where
  "digits b n = (if n = 0 \<or> b < 2 then [] else digits b (n div b) @ [n mod b])"
  by auto

termination
  by (relation "measure snd") auto

definition digits_value :: "nat \<Rightarrow> nat list \<Rightarrow> nat" where
  "digits_value b ds = foldl (\<lambda>v d. v * b + d) 0 ds"

declare digits.simps [simp del] base58_loop.simps [simp del] bytes_loop.simps [simp del]

lemma digits_0 [simp]: "digits b 0 = []"
  by (simp add: digits.simps)

lemma digits_value_snoc [simp]: "digits_value b (ds @ [d]) = digits_value b ds * b + d" "digits_value b [] = 0"
  by (simp_all add: digits_value_def)

lemma digits_value_digits: "2 \<le> b \<Longrightarrow> digits_value b (digits b n) = n"
proof (induction b n rule: digits.induct)
  case (1 b n)
  then show ?case
    by (cases "n = 0") (simp_all add: digits.simps [of b n])
qed

lemma digits_less: "2 \<le> b \<Longrightarrow> d \<in> set (digits b n) \<Longrightarrow> d < b"
proof (induction b n rule: digits.induct)
  case (1 b n)
  then show ?case
    by (cases "n = 0") (auto simp: digits.simps [of b n])
qed

lemma digits_hd: "2 \<le> b \<Longrightarrow> digits b n = d # ds \<Longrightarrow> d \<noteq> 0"
proof (induction b n arbitrary: d ds rule: digits.induct)
  case (1 b n)
  show ?case
  proof (cases "digits b (n div b)")
    case Nil
    with 1 have "n div b = 0"
      using digits_value_digits [of b "n div b"] by simp
    with 1 Nil show ?thesis
      by (auto simp: digits.simps [of b n] div_eq_0_iff split: if_splits)
  next
    case (Cons e es)
    with 1 show ?thesis
      by (auto simp: digits.simps [of b n] split: if_splits)
  qed
qed

lemma digits_value_0: "2 \<le> b \<Longrightarrow> digits_value b ds = 0 \<longleftrightarrow> (\<forall>d \<in> set ds. d = 0)"
  by (induction ds rule: rev_induct) auto

lemma digits_digits_value:
  "2 \<le> b \<Longrightarrow> \<forall>d \<in> set ds. d < b \<Longrightarrow> digits b (digits_value b ds) = dropWhile (\<lambda>d. d = 0) ds"
proof (induction ds rule: rev_induct)
  case (snoc d ds)
  let ?v = "digits_value b ds"
  show ?case
  proof (cases "?v * b + d = 0")
    case True
    with snoc.prems(1) have "\<forall>x \<in> set ds. x = 0" "d = 0"
      by (auto simp: digits_value_0)
    moreover have "digits b (digits_value b (ds @ [d])) = []"
      by (simp add: True)
    ultimately show ?thesis
      by (simp add: dropWhile_eq_Nil_conv)
  next
    case False
    with snoc have "digits b (?v * b + d) = dropWhile (\<lambda>d. d = 0) ds @ [d]"
      by (simp add: digits.simps [of b "?v * b + d"])
    moreover have "dropWhile (\<lambda>d. d = 0) (ds @ [d]) = dropWhile (\<lambda>d. d = 0) ds @ [d]"
    proof (cases "\<forall>x \<in> set ds. x = 0")
      case True
      with False snoc.prems(1) have "d \<noteq> 0"
        using digits_value_0 [of b ds] by simp
      with True show ?thesis
        by (simp add: dropWhile_append)
    qed (auto simp: dropWhile_append dropWhile_eq_Nil_conv)
    ultimately show ?thesis
      by simp
  qed
qed simp

section \<open>The loops of the source are the notation\<close>

lemma bytes_value_eq: "bytes_value bs v = foldl (\<lambda>v d. v * 256 + d) v (map unat bs)"
  by (induction bs arbitrary: v) simp_all

lemma base58_loop_eq: "base58_loop n acc = map (\<lambda>d. kBase58Digits ! d) (digits 58 n) @ acc"
proof (induction n acc rule: base58_loop.induct)
  case (1 n acc)
  then show ?case
    by (cases "n = 0") (simp_all add: base58_loop.simps [of _ acc] digits.simps [of 58 n])
qed

lemma bytes_loop_eq: "bytes_loop n acc = map of_nat (digits 256 n) @ acc"
proof (induction n acc rule: bytes_loop.induct)
  case (1 n acc)
  then show ?case
    by (cases "n = 0") (simp_all add: bytes_loop.simps [of _ acc] digits.simps [of 256 n])
qed

lemma prepend_ones_eq: "prepend_ones bs acc = replicate (length (takeWhile (\<lambda>b. b = 0) bs)) CHR ''1'' @ acc"
  by (induction bs arbitrary: acc) (simp_all add: replicate_app_Cons_same)

lemma prepend_zeroes_eq: "prepend_zeroes cs acc = replicate (length (takeWhile (\<lambda>c. c = CHR ''1'') cs)) 0 @ acc"
  by (induction cs arbitrary: acc) (simp_all add: replicate_app_Cons_same)

lemma digit_check: "list_all (\<lambda>i. find_char (kBase58Digits ! i) kBase58Digits = Some i) [0..<58]"
  by code_simp

lemma length_kBase58Digits: "length kBase58Digits = 58"
  by (simp add: kBase58Digits_def)

lemma find_char_nth: "i < 58 \<Longrightarrow> find_char (kBase58Digits ! i) kBase58Digits = Some i"
  using digit_check by (simp add: list_all_iff)

lemma find_char_Some: "find_char c ds = Some i \<Longrightarrow> i < length ds \<and> ds ! i = c"
  by (induction ds arbitrary: i) (auto split: if_splits)

lemma digit_1: "i < 58 \<Longrightarrow> kBase58Digits ! i = CHR ''1'' \<longleftrightarrow> i = 0"
proof
  assume "i < 58" "kBase58Digits ! i = CHR ''1''"
  moreover have "find_char CHR ''1'' kBase58Digits = Some 0"
    by (simp add: kBase58Digits_def)
  ultimately show "i = 0"
    using find_char_nth [of i] by simp
qed (simp add: kBase58Digits_def)

lemma base58_value_digits:
  "\<forall>d \<in> set ds. d < 58 \<Longrightarrow>
    base58_value (map (\<lambda>d. kBase58Digits ! d) ds) v = Success (foldl (\<lambda>v d. v * 58 + d) v ds)"
  by (induction ds arbitrary: v) (simp_all add: find_char_nth)

lemma base58_value_SuccessD:
  "base58_value cs v = Success n \<Longrightarrow>
    \<exists>ds. cs = map (\<lambda>d. kBase58Digits ! d) ds \<and> (\<forall>d \<in> set ds. d < 58) \<and> n = foldl (\<lambda>v d. v * 58 + d) v ds"
proof (induction cs arbitrary: v)
  case (Cons c cs)
  then obtain i where i: "find_char c kBase58Digits = Some i" "base58_value cs (v * 58 + i) = Success n"
    by (auto split: option.splits)
  from Cons.IH [OF i(2)] obtain ds where
    "cs = map (\<lambda>d. kBase58Digits ! d) ds" "\<forall>d \<in> set ds. d < 58" "n = foldl (\<lambda>v d. v * 58 + d) (v * 58 + i) ds"
    by blast
  with find_char_Some [OF i(1)] show ?case
    by (intro exI [of _ "i # ds"]) (simp add: length_kBase58Digits)
qed simp

section \<open>Round trips\<close>

lemma split_zeroes: "bs = replicate (length (takeWhile (\<lambda>b. b = z) bs)) z @ dropWhile (\<lambda>b. b = z) bs"
  by (induction bs) auto

lemma takeWhile_replicate: "xs = [] \<or> hd xs \<noteq> z \<Longrightarrow> takeWhile (\<lambda>b. b = z) (replicate k z @ xs) = replicate k z"
proof (induction k)
  case 0
  then show ?case by (cases xs) auto
qed simp

lemma digits_eq_Nil: "2 \<le> b \<Longrightarrow> digits b n = [] \<longleftrightarrow> n = 0"
  using digits_value_digits [of b n] by auto

lemma foldl_zeroes: "foldl (\<lambda>v d. v * b + d) 0 (replicate k 0) = (0 :: nat)"
  by (induction k) simp_all

lemma dropWhile_map_unat: "dropWhile (\<lambda>d. d = 0) (map unat (bs :: bytes)) = map unat (dropWhile (\<lambda>b. b = 0) bs)"
  by (induction bs) (auto simp: unsigned_eq_0_iff)

lemma map_of_nat_unat: "map of_nat (map unat (bs :: bytes)) = bs"
  by (induction bs) simp_all

lemma unat_byte_less: "unat (b :: byte) < 256"
  using unsigned_less [of b, where ?'a = nat] by simp

lemma digits_bytes_value: "map of_nat (digits 256 (bytes_value bs 0)) = dropWhile (\<lambda>b. b = 0) bs"
proof -
  have "digits 256 (digits_value 256 (map unat bs)) = dropWhile (\<lambda>d. d = 0) (map unat bs)"
    by (rule digits_digits_value) (auto simp: unat_byte_less)
  then show ?thesis
    by (simp add: bytes_value_eq digits_value_def dropWhile_map_unat map_of_nat_unat del: map_map)
qed

lemma takeWhile_ones:
  "length (takeWhile (\<lambda>c. c = CHR ''1'') (replicate k CHR ''1'' @ map (\<lambda>d. kBase58Digits ! d) (digits 58 n))) = k"
proof (cases "digits 58 n")
  case (Cons d ds)
  then have "d \<noteq> 0" "d < 58"
    using digits_hd [of 58 n] digits_less [of 58 d n] by auto
  with Cons show ?thesis
    by (induction k) (simp_all add: digit_1)
qed (induction k, simp_all)

lemma base58_decode_encode:
  assumes "length bs \<le> 1024"
  shows "\<exists>s. base58_encode bs = Success s \<and> base58_decode s = Success bs"
proof (cases "bs = []")
  case False
  let ?n = "bytes_value bs 0" and ?k = "length (takeWhile (\<lambda>b. b = 0) bs)"
  let ?ds = "replicate ?k 0 @ digits 58 ?n"
  define s where "s = replicate ?k CHR ''1'' @ map (\<lambda>d. kBase58Digits ! d) (digits 58 ?n)"
  have e: "base58_encode bs = Success s"
    using False assms by (simp add: base58_encode_def prepend_ones_eq base58_loop_eq s_def)
  have s: "s = map (\<lambda>d. kBase58Digits ! d) ?ds"
    by (simp add: s_def map_replicate_const kBase58Digits_def)
  have "foldl (\<lambda>v d. v * 58 + d) 0 ?ds = ?n"
    using digits_value_digits [of 58 ?n] by (simp add: digits_value_def foldl_zeroes)
  then have v: "base58_value s 0 = Success ?n"
    unfolding s by (subst base58_value_digits) (use digits_less [of 58] in auto)
  have "s \<noteq> []"
  proof
    assume "s = []"
    then have "takeWhile (\<lambda>b. b = 0) bs = []" "?n = 0"
      by (simp_all add: s_def digits_eq_Nil)
    then have "dropWhile (\<lambda>b. b = 0) bs = []" "?k = 0"
      using digits_bytes_value [of bs] by simp_all
    then show False
      using False split_zeroes [of bs 0] by (simp only: replicate_0 append_Nil)
  qed
  then have "base58_decode s = Success (replicate ?k 0 @ dropWhile (\<lambda>b. b = 0) bs)"
    using takeWhile_ones [of ?k ?n]
    by (simp add: base58_decode_def v prepend_zeroes_eq bytes_loop_eq digits_bytes_value flip: s_def)
  with e split_zeroes [of bs 0] show ?thesis
    by auto
qed (simp add: base58_encode_def base58_decode_def)

text \<open>Decoding is injective: a text that decodes to at most 1 KiB is the encoding of what it decodes to.\<close>

lemma digits_256_bytes:
  "map unat (map of_nat (digits 256 n) :: bytes) = digits 256 n"
  "map of_nat (digits 256 n) = [] \<or> hd (map of_nat (digits 256 n) :: bytes) \<noteq> 0"
proof -
  have u: "unat (of_nat d :: byte) = d" if "d \<in> set (digits 256 n)" for d
    using digits_less [OF _ that] by (simp add: unat_of_nat)
  then show "map unat (map of_nat (digits 256 n) :: bytes) = digits 256 n"
    by (simp add: map_idI)
  show "map of_nat (digits 256 n) = [] \<or> hd (map of_nat (digits 256 n) :: bytes) \<noteq> 0"
  proof (cases "digits 256 n")
    case (Cons d es)
    with digits_hd [of 256 n] u [of d] have "(of_nat d :: byte) \<noteq> 0"
      by (auto simp: word_unat_eq_iff)
    with Cons show ?thesis
      by simp
  qed simp
qed

lemma encode_zeroes_digits:
  "prepend_ones (replicate k 0 @ map of_nat (digits 256 n)) (base58_loop (bytes_value (replicate k 0 @ map of_nat (digits 256 n)) 0) []) =
    replicate k CHR ''1'' @ map (\<lambda>d. kBase58Digits ! d) (digits 58 n)"
proof -
  have "bytes_value (replicate k 0 @ map of_nat (digits 256 n)) 0 = n"
    using digits_value_digits [of 256 n]
    by (simp only: bytes_value_eq map_append digits_256_bytes foldl_append map_replicate unat_0 foldl_zeroes digits_value_def)
  then show ?thesis
    by (simp add: prepend_ones_eq takeWhile_replicate [OF digits_256_bytes(2)] base58_loop_eq)
qed

lemma base58_encode_decode:
  assumes "base58_decode s = Success bs" "length bs \<le> 1024"
  shows "base58_encode bs = Success s"
proof (cases "s = []")
  case True
  with assms(1) show ?thesis
    by (simp add: base58_decode_def base58_encode_def)
next
  case False
  with assms(1) obtain n where n: "base58_value s 0 = Success n" and bs: "bs = prepend_zeroes s (bytes_loop n [])"
    by (auto simp: base58_decode_def split: outcome.splits)
  from base58_value_SuccessD [OF n] obtain ds where
    ds: "s = map (\<lambda>d. kBase58Digits ! d) ds" "\<forall>d \<in> set ds. d < 58" "n = digits_value 58 ds"
    by (auto simp: digits_value_def)
  let ?k = "length (takeWhile (\<lambda>d. d = 0) ds)"
  have k: "length (takeWhile (\<lambda>c. c = CHR ''1'') s) = ?k"
    using ds(2) unfolding ds(1) by (induction ds) (simp_all add: digit_1)
  have b: "bs = replicate ?k 0 @ map of_nat (digits 256 n)"
    by (simp add: bs prepend_zeroes_eq k bytes_loop_eq)
  have "s = map (\<lambda>d. kBase58Digits ! d) (replicate ?k 0 @ dropWhile (\<lambda>d. d = 0) ds)"
    using split_zeroes [of ds 0] ds(1) by simp
  also have "\<dots> = replicate ?k CHR ''1'' @ map (\<lambda>d. kBase58Digits ! d) (digits 58 n)"
    by (simp add: map_replicate_const kBase58Digits_def ds digits_digits_value)
  finally have "prepend_ones bs (base58_loop (bytes_value bs 0) []) = s"
    unfolding b encode_zeroes_digits ..
  moreover from this False have "bs \<noteq> []"
    by (auto simp: base58_loop.simps)
  ultimately show ?thesis
    using assms(2) by (simp add: base58_encode_def)
qed

section \<open>Checksums\<close>

lemma base58_check_round_trip:
  assumes "\<And>x. length (sha256 x) = 32" "length bs \<le> 1020"
  shows "\<exists>s. base58_encode_check sha256 bs = Success s \<and> base58_decode_check sha256 s = Success bs"
proof -
  have "length (bs @ take kCheckSumLength (sha256 bs)) \<le> 1024"
    using assms by (simp add: kCheckSumLength_def)
  from base58_decode_encode [OF this] obtain s where
    "base58_encode (bs @ take 4 (sha256 bs)) = Success s" "base58_decode s = Success (bs @ take 4 (sha256 bs))"
    by (auto simp: kCheckSumLength_def)
  then show ?thesis
    using assms by (intro exI [of _ s]) (simp add: base58_encode_check_def base58_decode_check_def kCheckSumLength_def Let_def)
qed

text \<open>A text is accepted only with the checksum of what is returned.\<close>

lemma base58_decode_check_SuccessD:
  assumes "base58_decode_check sha256 s = Success bs" "\<And>x. length (sha256 x) = 32"
  shows "base58_decode s = Success (bs @ take 4 (sha256 bs))"
proof -
  from assms(1) obtain d where d: "base58_decode s = Success d" "4 \<le> length d" "bs = take (length d - 4) d"
      "take (length (drop (length d - 4) d)) (sha256 bs) = drop (length d - 4) d"
    by (auto simp: base58_decode_check_def Let_def kCheckSumLength_def split: outcome.splits if_splits)
  then have "drop (length d - 4) d = take 4 (sha256 bs)"
    by simp
  then show ?thesis
    using d(1,3) by (metis append_take_drop_id)
qed

section \<open>Properties\<close>

text \<open>C34. Base58 is a bijection between the byte strings of at most 1024 bytes and the texts that decode:
  decoding undoes encoding, and a text that decodes is the encoding of what it decodes to, leading zeroes
  included.\<close>

theorem base58_bijection:
  assumes "length bs \<le> 1024"
  shows "(\<exists>s. base58_encode bs = Success s \<and> base58_decode s = Success bs) \<and>
    (\<forall>s. base58_decode s = Success bs \<longleftrightarrow> base58_encode bs = Success s)"
proof -
  obtain s where s: "base58_encode bs = Success s" "base58_decode s = Success bs"
    using base58_decode_encode [OF assms] by blast
  then have "base58_decode s' = Success bs \<longleftrightarrow> base58_encode bs = Success s'" for s'
    using base58_encode_decode [OF _ assms, of s'] by auto
  with s show ?thesis
    by blast
qed

theorem base58_bijection_witness:
  "(\<exists>s. base58_encode [0, 1, 255] = Success s \<and> base58_decode s = Success [0, 1, 255]) \<and>
    (\<forall>s. base58_decode s = Success [0, 1, 255] \<longleftrightarrow> base58_encode [0, 1, 255] = Success s)"
  by (rule base58_bijection) simp

text \<open>The checksummed form decodes to what was encoded, and every text it accepts carries the first four
  bytes of the digest of its payload.\<close>

theorem base58_check_sound:
  assumes "\<And>x. length (sha256 x) = 32" "length bs \<le> 1020"
  shows "(\<exists>s. base58_encode_check sha256 bs = Success s \<and> base58_decode_check sha256 s = Success bs) \<and>
    (\<forall>s. base58_decode_check sha256 s = Success bs \<longrightarrow> base58_decode s = Success (bs @ take 4 (sha256 bs)))"
  using base58_check_round_trip [of sha256, OF assms] base58_decode_check_SuccessD [of sha256 _ bs] assms(1) by blast

theorem base58_check_sound_witness:
  "(\<exists>s. base58_encode_check (\<lambda>x. replicate 32 (of_nat (length x))) [5] = Success s \<and>
      base58_decode_check (\<lambda>x. replicate 32 (of_nat (length x))) s = Success [5])"
  using base58_check_sound [of "\<lambda>x. replicate 32 (of_nat (length x))" "[5]"] by simp

end
