(* ===== verification/Crypto.thy ===== *)
theory Crypto
  imports Prelude
begin

unbundle bit_operations_syntax

text \<open>
  core/crypto: the Jenkins hash of jenkins.cpp, written out on 32 bit words, and the wrappers around
  OpenSSL's digests and MACs (md.hpp, hash256, hash160, hmac.hpp, evp_mac.hpp). The primitives of
  OpenSSL are parameters: a digest maps the bytes fed to a context since its initialisation to the
  digest, or to nothing when the library reports a failure. The wrappers are state machines; the
  lemmas show that the result does not depend on how the input was cut into updates, that HMAC is
  the construction of RFC 2104, and that the mixing steps of the Jenkins hash lose no information.
\<close>

section \<open>Jenkins\<close>

type_synonym abc = "32 word \<times> 32 word \<times> 32 word"

text \<open>\<open>HashMix\<close> is six groups of three assignments and \<open>HashFinal\<close> seven groups of
  two; each group updates one of the three words by the rotation of another one.\<close>

definition mix_a :: "nat \<Rightarrow> abc \<Rightarrow> abc" where
  "mix_a r x = (case x of (a, b, c) \<Rightarrow> let a = a - c; a = a XOR word_rotl r c; c = c + b in (a, b, c))"

definition mix_b :: "nat \<Rightarrow> abc \<Rightarrow> abc" where
  "mix_b r x = (case x of (a, b, c) \<Rightarrow> let b = b - a; b = b XOR word_rotl r a; a = a + c in (a, b, c))"

definition mix_c :: "nat \<Rightarrow> abc \<Rightarrow> abc" where
  "mix_c r x = (case x of (a, b, c) \<Rightarrow> let c = c - b; c = c XOR word_rotl r b; b = b + a in (a, b, c))"

definition HashMix :: "abc \<Rightarrow> abc" where
  "HashMix x =
    (let x = mix_a 4 x; x = mix_b 6 x; x = mix_c 8 x; x = mix_a 16 x; x = mix_b 19 x; x = mix_c 4 x in x)"

definition final_a :: "nat \<Rightarrow> abc \<Rightarrow> abc" where
  "final_a r x = (case x of (a, b, c) \<Rightarrow> let a = a XOR c; a = a - word_rotl r c in (a, b, c))"

definition final_b :: "nat \<Rightarrow> abc \<Rightarrow> abc" where
  "final_b r x = (case x of (a, b, c) \<Rightarrow> let b = b XOR a; b = b - word_rotl r a in (a, b, c))"

definition final_c :: "nat \<Rightarrow> abc \<Rightarrow> abc" where
  "final_c r x = (case x of (a, b, c) \<Rightarrow> let c = c XOR b; c = c - word_rotl r b in (a, b, c))"

definition HashFinal :: "abc \<Rightarrow> abc" where
  "HashFinal x =
    (let x = final_c 14 x; x = final_a 11 x; x = final_b 25 x; x = final_c 16 x; x = final_a 4 x; x = final_b 14 x;
         x = final_c 24 x
     in x)"

text \<open>The loop over blocks of three words; it leaves one to three words for the final switch.\<close>

definition jenkins_block :: "32 word list \<Rightarrow> 32 word list \<Rightarrow> abc \<Rightarrow> abc" where
  "jenkins_block source salt x =
    (case x of (a, b, c) \<Rightarrow>
      let a = a + (source ! 0 XOR salt ! 0);
          b = b + (source ! 1 XOR salt ! 1);
          b = b + (source ! 2 XOR salt ! 2)
      in HashMix (a, b, c))"

function jenkins_loop :: "32 word list \<Rightarrow> 32 word list \<Rightarrow> abc \<Rightarrow> 32 word list \<times> 32 word list \<times> abc" where
  "jenkins_loop source salt x =
    (if length source > 3 then jenkins_loop (drop 3 source) (drop 3 salt) (jenkins_block source salt x)
     else (source, salt, x))"
  by pat_completeness auto

termination
  by (relation "measure (\<lambda>(source, salt, x). length source)") auto

definition jenkins_tail :: "32 word list \<times> 32 word list \<times> abc \<Rightarrow> abc" where
  "jenkins_tail x =
    (let (source, salt, (a, b, c)) = x;
         c = (if length source = 3 then c + (source ! 2 XOR salt ! 2) else c);
         b = (if length source \<in> {2, 3} then b + (source ! 1 XOR salt ! 1) else b)
     in if length source \<in> {1, 2, 3} then HashFinal (a, b, c) else (a, b, c))"

definition jenkins_hash :: "32 word list \<Rightarrow> 32 word list \<Rightarrow> 64 word" where
  "jenkins_hash source salt =
    (let width = of_nat (length source * 4);
         a = 0xdeadbeef + width;
         (a', b', c') = jenkins_tail (jenkins_loop source salt (a, a, a))
     in push_bit 32 (ucast b') OR ucast c')"

section \<open>Message digests\<close>

text \<open>The context keeps what it was fed since its initialisation.\<close>

record message_digest =
  md_input :: bytes
  md_ingested_size :: nat

definition md_new :: message_digest where
  "md_new = \<lparr>md_input = [], md_ingested_size = 0\<rparr>"

definition md_init :: "message_digest \<Rightarrow> message_digest" where
  "md_init m = m\<lparr>md_ingested_size := 0, md_input := []\<rparr>"

definition md_update :: "bytes \<Rightarrow> message_digest \<Rightarrow> message_digest" where
  "md_update data m =
    (if data = [] then m
     else m\<lparr>md_ingested_size := md_ingested_size m + length data, md_input := md_input m @ data\<rparr>)"

definition md_init_with :: "bytes \<Rightarrow> message_digest \<Rightarrow> message_digest" where
  "md_init_with data m = md_update data (md_init m)"

text \<open>\<open>finalize(compress = false)\<close>: an empty result is a failure of the library.\<close>

definition md_finalize :: "(bytes \<Rightarrow> bytes option) \<Rightarrow> message_digest \<Rightarrow> bytes" where
  "md_finalize digest m = (case digest (md_input m) of Some d \<Rightarrow> d | None \<Rightarrow> [])"

section \<open>Hash256 and Hash160\<close>

record hash256 =
  h256_hasher :: message_digest
  h256_ingested_size :: nat

definition kEmptyHash256 :: bytes where
  "kEmptyHash256 =
    [0x5d, 0xf6, 0xe0, 0xe2, 0x76, 0x13, 0x59, 0xd3, 0x0a, 0x82, 0x75,
     0x05, 0x8e, 0x29, 0x9f, 0xcc, 0x03, 0x81, 0x53, 0x45, 0x45, 0xf5,
     0x5c, 0xf4, 0x3e, 0x41, 0x98, 0x3f, 0x5d, 0x4c, 0x94, 0x56]"

definition hash256_new :: "bytes \<Rightarrow> hash256" where
  "hash256_new data = \<lparr>h256_hasher = md_update data md_new, h256_ingested_size = length data\<rparr>"

definition hash256_init :: "bytes \<Rightarrow> hash256 \<Rightarrow> hash256" where
  "hash256_init data h = h\<lparr>h256_hasher := md_init_with data (h256_hasher h), h256_ingested_size := length data\<rparr>"

definition hash256_update :: "bytes \<Rightarrow> hash256 \<Rightarrow> hash256" where
  "hash256_update data h =
    h\<lparr>h256_hasher := md_update data (h256_hasher h), h256_ingested_size := h256_ingested_size h + length data\<rparr>"

definition hash256_finalize :: "(bytes \<Rightarrow> bytes option) \<Rightarrow> hash256 \<Rightarrow> bytes \<times> hash256" where
  "hash256_finalize sha256 h =
    (if h256_ingested_size h = 0 then (kEmptyHash256, h)
     else
      let data = md_finalize sha256 (h256_hasher h)
      in if data = [] then (data, h)
         else
          let hasher = md_init_with data (h256_hasher h)
          in (md_finalize sha256 hasher, h\<lparr>h256_hasher := hasher\<rparr>))"

definition kEmptyHash160 :: bytes where
  "kEmptyHash160 =
    [0xb4, 0x72, 0xa2, 0x66, 0xd0, 0xbd, 0x89, 0xc1, 0x37, 0x06,
     0xa4, 0x13, 0x2c, 0xcf, 0xb1, 0x6f, 0x7c, 0x3b, 0x9f, 0xcb]"

text \<open>A \<open>Hash160\<close> holds one SHA-256 hasher.\<close>

definition hash160_finalize :: "(bytes \<Rightarrow> bytes option) \<Rightarrow> (bytes \<Rightarrow> bytes option) \<Rightarrow> message_digest \<Rightarrow> bytes" where
  "hash160_finalize sha256 ripemd160 hasher =
    (if md_ingested_size hasher = 0 then kEmptyHash160
     else
      let data = md_finalize sha256 hasher
      in if data = [] then data else md_finalize ripemd160 (md_update data md_new))"

section \<open>HMAC\<close>

record hmac =
  hmac_inner :: message_digest
  hmac_outer :: message_digest

definition hmac_new :: hmac where
  "hmac_new = \<lparr>hmac_inner = md_new, hmac_outer = md_new\<rparr>"

definition hmac_init :: "(bytes \<Rightarrow> bytes option) \<Rightarrow> nat \<Rightarrow> bytes \<Rightarrow> hmac \<Rightarrow> hmac" where
  "hmac_init digest block_size initial_data h =
    (let inner = md_init (hmac_inner h);
         outer = md_init (hmac_outer h);
         (rkey, inner) =
           (if length initial_data > block_size then
              (let inner = md_update initial_data inner in (md_finalize digest inner, md_init inner))
            else (initial_data, inner));
         rkey = take block_size rkey @ replicate (block_size - length rkey) 0;
         rkey = map (\<lambda>b. b XOR 0x5c) rkey;
         outer = md_update rkey outer;
         rkey = map (\<lambda>b. b XOR (0x5c XOR 0x36)) rkey;
         inner = md_update rkey inner
     in \<lparr>hmac_inner = inner, hmac_outer = outer\<rparr>)"

definition hmac_update :: "bytes \<Rightarrow> hmac \<Rightarrow> hmac" where
  "hmac_update data h = h\<lparr>hmac_inner := md_update data (hmac_inner h)\<rparr>"

definition hmac_finalize :: "(bytes \<Rightarrow> bytes option) \<Rightarrow> hmac \<Rightarrow> bytes \<times> hmac" where
  "hmac_finalize digest h =
    (let tmp = md_finalize digest (hmac_inner h)
     in if tmp = [] then (tmp, h)
        else let outer = md_update tmp (hmac_outer h) in (md_finalize digest outer, h\<lparr>hmac_outer := outer\<rparr>))"

section \<open>SipHash\<close>

text \<open>The MAC is a function of key and data; \<open>None\<close> is a failed assertion, which aborts.\<close>

record siphash =
  sip_key :: bytes
  sip_input :: bytes
  sip_ingested_size :: nat

definition siphash_init :: "bytes \<Rightarrow> siphash option" where
  "siphash_init key =
    (if length key = 16 then Some \<lparr>sip_key = key, sip_input = [], sip_ingested_size = 0\<rparr> else None)"

definition siphash_new :: "64 word \<Rightarrow> 64 word \<Rightarrow> siphash option" where
  "siphash_new k0 k1 = siphash_init (word_to_le k0 @ word_to_le k1)"

definition siphash_update :: "bytes \<Rightarrow> siphash \<Rightarrow> siphash" where
  "siphash_update data s =
    (if data = [] then s
     else s\<lparr>sip_ingested_size := sip_ingested_size s + length data, sip_input := sip_input s @ data\<rparr>)"

definition siphash_finalize :: "(bytes \<Rightarrow> bytes \<Rightarrow> bytes) \<Rightarrow> siphash \<Rightarrow> bytes" where
  "siphash_finalize mac s = mac (sip_key s) (sip_input s)"

section \<open>Reference definitions\<close>

text \<open>RFC 2104.\<close>

definition rfc2104_key :: "(bytes \<Rightarrow> bytes) \<Rightarrow> nat \<Rightarrow> bytes \<Rightarrow> bytes" where
  "rfc2104_key H B K = (let K' = (if length K > B then H K else K) in K' @ replicate (B - length K') 0)"

definition rfc2104 :: "(bytes \<Rightarrow> bytes) \<Rightarrow> nat \<Rightarrow> bytes \<Rightarrow> bytes \<Rightarrow> bytes" where
  "rfc2104 H B K text =
    (let K' = rfc2104_key H B K
     in H (map (\<lambda>b. b XOR 0x5c) K' @ H (map (\<lambda>b. b XOR 0x36) K' @ text)))"

section \<open>Jenkins: the mixing steps are injective, and what the loop skips\<close>

lemma xor_cancel [simp]: "((x :: 32 word) XOR y) XOR y = x"
  by (simp add: xor.assoc)

lemma inj_mix: "inj (mix_a r)" "inj (mix_b r)" "inj (mix_c r)"
proof -
  let ?a = "\<lambda>(a, b, c). (let c = c - b in ((a XOR word_rotl r c) + c, b, c))"
  let ?b = "\<lambda>(a, b, c). (let a = a - c in (a, (b XOR word_rotl r a) + a, c))"
  let ?c = "\<lambda>(a, b, c). (let b = b - a in (a, b, (c XOR word_rotl r b) + b))"
  have *: "?a (mix_a r x) = x" "?b (mix_b r x) = x" "?c (mix_c r x) = x" for x
    by (cases x, simp add: mix_a_def mix_b_def mix_c_def Let_def)+
  show "inj (mix_a r)" "inj (mix_b r)" "inj (mix_c r)"
    using inj_on_inverseI [of UNIV ?a "mix_a r"] inj_on_inverseI [of UNIV ?b "mix_b r"] inj_on_inverseI [of UNIV ?c "mix_c r"] *
    by simp_all
qed

lemma inj_final: "inj (final_a r)" "inj (final_b r)" "inj (final_c r)"
proof -
  let ?a = "\<lambda>(a, b, c). ((a + word_rotl r c) XOR c, b, c)"
  let ?b = "\<lambda>(a, b, c). (a, (b + word_rotl r a) XOR a, c)"
  let ?c = "\<lambda>(a, b, c). (a, b, (c + word_rotl r b) XOR b)"
  have *: "?a (final_a r x) = x" "?b (final_b r x) = x" "?c (final_c r x) = x" for x
    by (cases x, simp add: final_a_def final_b_def final_c_def Let_def)+
  show "inj (final_a r)" "inj (final_b r)" "inj (final_c r)"
    using inj_on_inverseI [of UNIV ?a "final_a r"] inj_on_inverseI [of UNIV ?b "final_b r"] inj_on_inverseI [of UNIV ?c "final_c r"] *
    by simp_all
qed

lemma inj_HashMix: "inj HashMix"
  unfolding HashMix_def Let_def by (intro injI) (auto dest!: injD [OF inj_mix(1)] injD [OF inj_mix(2)] injD [OF inj_mix(3)])

lemma inj_HashFinal: "inj HashFinal"
  unfolding HashFinal_def Let_def
  by (intro injI) (auto dest!: injD [OF inj_final(1)] injD [OF inj_final(2)] injD [OF inj_final(3)])

declare jenkins_loop.simps [simp del]

text \<open>A hash of 256 bits is eight words: two blocks and a rest of two words, of which the switch reads
  the second one only.\<close>

lemma jenkins_block_update: "3 \<le> i \<Longrightarrow> jenkins_block (source[i := w]) salt x = jenkins_block source salt x"
  by (simp add: jenkins_block_def split: prod.split)

lemma jenkins_loop_8:
  assumes "length source = 8"
  shows "jenkins_loop (source[6 := w]) salt x =
    ([w, source ! 7], drop 6 salt, jenkins_block (drop 3 source) (drop 3 salt) (jenkins_block source salt x))"
proof -
  have "jenkins_loop (source[6 := w]) salt x =
      jenkins_loop ((drop 3 source)[3 := w]) (drop 3 salt) (jenkins_block source salt x)"
    using assms by (simp add: jenkins_loop.simps [of "source[6 := w]"] jenkins_block_update drop_update_swap)
  also have "\<dots> = jenkins_loop ((drop 6 source)[0 := w]) (drop 6 salt)
      (jenkins_block (drop 3 source) (drop 3 salt) (jenkins_block source salt x))"
    using assms by (simp add: jenkins_loop.simps [of "(drop 3 source)[3 := w]"] jenkins_block_update drop_update_swap)
  also have "(drop 6 source)[0 := w] = [w, source ! 7]"
    using assms by (auto simp: length_Suc_conv numeral_eq_Suc)
  finally show ?thesis
    by (simp add: jenkins_loop.simps [of "[w, source ! 7]"])
qed

lemma jenkins_tail_two: "jenkins_tail ([w, v], salt, x) = jenkins_tail ([w', v], salt, x)"
  by (simp add: jenkins_tail_def split: prod.split)

lemma jenkins_hash_skips:
  assumes "length source = 8"
  shows "jenkins_hash (source[6 := w]) salt = jenkins_hash source salt"
proof -
  have "jenkins_tail (jenkins_loop (source[6 := w]) salt x) = jenkins_tail (jenkins_loop (source[6 := source ! 6]) salt x)" for x
    unfolding jenkins_loop_8 [OF assms] by (rule jenkins_tail_two)
  then show ?thesis
    by (simp add: jenkins_hash_def)
qed

section \<open>Digests do not depend on how the input is cut\<close>

lemma md_update_input [simp]: "md_input (md_update d m) = md_input m @ d"
    "md_ingested_size (md_update d m) = md_ingested_size m + length d"
  by (simp_all add: md_update_def)

lemma md_init_input [simp]: "md_input (md_init m) = []" "md_ingested_size (md_init m) = 0"
    "md_input md_new = []" "md_ingested_size md_new = 0"
  by (simp_all add: md_init_def md_new_def)

lemma md_fold_update: "md_input (fold md_update ds m) = md_input m @ concat ds"
    "md_ingested_size (fold md_update ds m) = md_ingested_size m + length (concat ds)"
  by (induction ds arbitrary: m) simp_all

definition hash256_inv :: "hash256 \<Rightarrow> bool" where
  "hash256_inv h \<longleftrightarrow> h256_ingested_size h = length (md_input (h256_hasher h))"

lemma hash256_inv_ops:
  "hash256_inv (hash256_new d)" "hash256_inv (hash256_init d h)" "hash256_inv h \<Longrightarrow> hash256_inv (hash256_update d h)"
  by (simp_all add: hash256_inv_def hash256_new_def hash256_init_def hash256_update_def md_init_with_def)

lemma hash256_updates:
  "md_input (h256_hasher (fold hash256_update ds h)) = md_input (h256_hasher h) @ concat ds"
  "h256_ingested_size (fold hash256_update ds h) = h256_ingested_size h + length (concat ds)"
  by (induction ds arbitrary: h) (simp_all add: hash256_update_def)

lemma hash256_double:
  assumes "\<And>x. \<exists>d. sha256 x = Some d \<and> length d = 32" "concat ds \<noteq> []"
  shows "fst (hash256_finalize sha256 (fold hash256_update ds (hash256_new []))) =
    the (sha256 (the (sha256 (concat ds))))"
proof -
  obtain d e where "sha256 (concat ds) = Some d" "length d = 32" "sha256 d = Some e"
    using assms(1) by metis
  moreover from this have "d \<noteq> []"
    by auto
  ultimately show ?thesis
    using assms(2)
    by (auto simp: hash256_finalize_def hash256_updates hash256_new_def md_finalize_def md_init_with_def Let_def)
qed

section \<open>HMAC is RFC 2104\<close>

lemma xor_pads: "(b XOR 0x5c) XOR (0x5c XOR 0x36) = (b XOR 0x36 :: byte)"
  by (simp add: xor.assoc)

lemma hmac_is_rfc2104:
  assumes "\<And>x. digest x = Some (H x)" "\<And>x. length (H x) = n" "0 < n" "n \<le> B" "0 < B"
  shows "fst (hmac_finalize digest (fold hmac_update ds (hmac_init digest B key h))) = rfc2104 H B key (concat ds)"
proof -
  let ?K = "rfc2104_key H B key"
  have K: "length ?K = B"
    using assms by (simp add: rfc2104_key_def)
  have "map (\<lambda>b. b XOR (0x5c XOR 0x36)) (map (\<lambda>b. b XOR 0x5c) K') = map (\<lambda>b. b XOR 0x36) K'" for K' :: bytes
    by (simp only: map_map comp_def xor_pads)
  then have "md_input (hmac_inner (hmac_init digest B key h)) = map (\<lambda>b. b XOR 0x36) ?K"
      "md_input (hmac_outer (hmac_init digest B key h)) = map (\<lambda>b. b XOR 0x5c) ?K"
    using assms by (simp_all add: hmac_init_def rfc2104_key_def md_finalize_def Let_def del: map_map)
  moreover have "md_input (hmac_inner (fold hmac_update ds k)) = md_input (hmac_inner k) @ concat ds"
      "hmac_outer (fold hmac_update ds k) = hmac_outer k" for k
    by (induction ds arbitrary: k) (simp_all add: hmac_update_def)
  moreover have "H x \<noteq> []" for x
    using assms(2) [of x] assms(3) by auto
  ultimately show ?thesis
    by (simp add: hmac_finalize_def rfc2104_def md_finalize_def assms(1) Let_def)
qed

section \<open>Properties\<close>

text \<open>The mixing and the final step of the Jenkins hash lose no information.\<close>

theorem jenkins_steps_injective: "inj HashMix \<and> inj HashFinal"
  by (simp add: inj_HashMix inj_HashFinal)

text \<open>The hash of a 256 bit value does not depend on its seventh word: the tail of the computation
  never reads it.\<close>

theorem jenkins_ignores_a_word:
  assumes "length source = 8"
  shows "jenkins_hash (source[6 := w]) salt = jenkins_hash source salt"
  by (rule jenkins_hash_skips [OF assms])

theorem jenkins_ignores_a_word_witness:
  "jenkins_hash [1, 2, 3, 4, 5, 6, 700, 8] [0] = jenkins_hash [1, 2, 3, 4, 5, 6, 7, 8] [0]"
  using jenkins_ignores_a_word [of "[1, 2, 3, 4, 5, 6, 7, 8]" 700 "[0]"] by simp

text \<open>\<open>Hash256\<close> is the digest of the digest of everything that was fed to it, however the
  input was split in updates.\<close>

theorem hash256_is_double_digest:
  assumes "\<And>x. \<exists>d. sha256 x = Some d \<and> length d = 32" "concat ds \<noteq> []"
  shows "fst (hash256_finalize sha256 (fold hash256_update ds (hash256_new []))) = the (sha256 (the (sha256 (concat ds))))"
  by (rule hash256_double [OF assms])

theorem hash256_is_double_digest_witness:
  "fst (hash256_finalize (\<lambda>x. Some (replicate 32 (of_nat (length x)))) (fold hash256_update [[1], [2, 3]] (hash256_new []))) =
    replicate 32 32"
  using hash256_is_double_digest [of "\<lambda>x. Some (replicate 32 (of_nat (length x)))" "[[1], [2, 3]]"] by simp

text \<open>C40. The keyed hash is the HMAC of RFC 2104 over the underlying digest, for every key length and every
  split of the message in updates.\<close>

theorem hmac_rfc2104:
  assumes "\<And>x. digest x = Some (H x)" "\<And>x. length (H x) = n" "0 < n" "n \<le> B" "0 < B"
  shows "fst (hmac_finalize digest (fold hmac_update ds (hmac_init digest B key h))) = rfc2104 H B key (concat ds)"
  by (rule hmac_is_rfc2104 [OF assms])

theorem hmac_rfc2104_witness:
  "\<forall>h. fst (hmac_finalize (\<lambda>x. Some [of_nat (length x)]) (fold hmac_update [[1], [2]] (hmac_init (\<lambda>x. Some [of_nat (length x)]) 64 [9] h))) =
    rfc2104 (\<lambda>x. [of_nat (length x)]) 64 [9] (concat [[1], [2]])"
  by (intro allI hmac_rfc2104 [where n = 1]) simp_all

end
