(* ===== verification/Containers.thy ===== *)
theory Containers
  imports Main
begin

text \<open>
  The bounded containers of the node: \<open>LruSet\<close> (core/common/lru_set.hpp),
  \<open>CappedSet\<close> (core/common/capped_set.hpp), \<open>UniqueQueue\<close>
  (infra/concurrency/unique_queue.hpp) and \<open>ObjectPool\<close> (core/common/object_pool.hpp).
  Each keeps an order (a list or queue) next to a lookup table (a set); iterators stored in either
  are represented by the element they point to. The locks of the source make each operation
  atomic, so the operations are functions on the state. The contract that the three sets share is
  the locale \<open>bounded_set\<close>.
\<close>

section \<open>LruSet\<close>

record 'k lru_set =
  lru_max_size :: nat
  lru_list :: "'k list"
  lru_map :: "'k set"

definition lru_new :: "nat \<Rightarrow> 'k lru_set" where
  "lru_new max_size = \<lparr>lru_max_size = max_size, lru_list = [], lru_map = {}\<rparr>"

definition lru_contains :: "'k \<Rightarrow> 'k lru_set \<Rightarrow> bool" where
  "lru_contains item s = (item \<in> lru_map s)"

definition lru_size :: "'k lru_set \<Rightarrow> nat" where
  "lru_size s = length (lru_list s)"

definition lru_insert :: "'k \<Rightarrow> 'k lru_set \<Rightarrow> bool \<times> 'k lru_set" where
  "lru_insert item s =
    (if item \<in> lru_map s then (False, s\<lparr>lru_list := item # remove1 item (lru_list s)\<rparr>)
     else
      let l = item # lru_list s; m = insert item (lru_map s)
      in if length l > lru_max_size s then (True, s\<lparr>lru_map := m - {last l}, lru_list := butlast l\<rparr>)
         else (True, s\<lparr>lru_map := m, lru_list := l\<rparr>))"

definition lru_front :: "'k lru_set \<Rightarrow> 'k" where
  "lru_front s = hd (lru_list s)"

definition lru_back :: "'k lru_set \<Rightarrow> 'k" where
  "lru_back s = last (lru_list s)"

definition lru_clear :: "'k lru_set \<Rightarrow> 'k lru_set" where
  "lru_clear s = s\<lparr>lru_list := [], lru_map := {}\<rparr>"

section \<open>CappedSet\<close>

record 'k capped_set =
  capped_capacity :: nat
  capped_items :: "'k set"
  capped_queue :: "'k list"

text \<open>\<open>None\<close> is the failed precondition of the constructor.\<close>

definition capped_new :: "nat \<Rightarrow> 'k capped_set option" where
  "capped_new capacity =
    (if capacity \<noteq> 0 then Some \<lparr>capped_capacity = capacity, capped_items = {}, capped_queue = []\<rparr> else None)"

definition capped_contains :: "'k \<Rightarrow> 'k capped_set \<Rightarrow> bool" where
  "capped_contains item s = (item \<in> capped_items s)"

definition capped_insert :: "'k \<Rightarrow> 'k capped_set \<Rightarrow> bool \<times> 'k capped_set" where
  "capped_insert item s =
    (if item \<in> capped_items s then (False, s)
     else
      let s = (if card (capped_items s) = capped_capacity s
               then s\<lparr>capped_items := capped_items s - {hd (capped_queue s)}, capped_queue := tl (capped_queue s)\<rparr>
               else s)
      in (True, s\<lparr>capped_items := insert item (capped_items s), capped_queue := capped_queue s @ [item]\<rparr>))"

definition capped_clear :: "'k capped_set \<Rightarrow> 'k capped_set" where
  "capped_clear s = s\<lparr>capped_items := {}, capped_queue := []\<rparr>"

section \<open>UniqueQueue\<close>

record 'k unique_queue =
  uq_capacity :: nat
  uq_queue :: "'k list"
  uq_set :: "'k set"

text \<open>\<open>None\<close> is the exception of the constructor.\<close>

definition uq_new :: "nat \<Rightarrow> 'k unique_queue option" where
  "uq_new capacity =
    (if capacity = 0 then None else Some \<lparr>uq_capacity = capacity, uq_queue = [], uq_set = {}\<rparr>)"

definition uq_contains :: "'k \<Rightarrow> 'k unique_queue \<Rightarrow> bool" where
  "uq_contains item q = (item \<in> uq_set q)"

definition uq_push :: "'k \<Rightarrow> 'k unique_queue \<Rightarrow> bool \<times> 'k unique_queue" where
  "uq_push item q =
    (if item \<in> uq_set q then (False, q)
     else
      let s = insert item (uq_set q); l = uq_queue q @ [item]
      in if length l > uq_capacity q then (True, q\<lparr>uq_set := s - {hd l}, uq_queue := tl l\<rparr>)
         else (True, q\<lparr>uq_set := s, uq_queue := l\<rparr>))"

definition uq_pop :: "'k unique_queue \<Rightarrow> 'k option \<times> 'k unique_queue" where
  "uq_pop q =
    (case uq_queue q of
      [] \<Rightarrow> (None, q)
    | item # rest \<Rightarrow> (Some item, q\<lparr>uq_queue := rest, uq_set := uq_set q - {item}\<rparr>))"

definition uq_clear :: "'k unique_queue \<Rightarrow> 'k unique_queue" where
  "uq_clear q = q\<lparr>uq_queue := [], uq_set := {}\<rparr>"

section \<open>ObjectPool\<close>

text \<open>A stack of owned pointers; \<open>None\<close> is the null pointer.\<close>

definition pool_add :: "'p \<Rightarrow> 'p list \<Rightarrow> 'p list" where
  "pool_add p pool = p # pool"

definition pool_acquire :: "'p list \<Rightarrow> 'p option \<times> 'p list" where
  "pool_acquire pool = (case pool of [] \<Rightarrow> (None, []) | p # rest \<Rightarrow> (Some p, rest))"

section \<open>Invariants and abstraction\<close>

definition lru_inv :: "'k lru_set \<Rightarrow> bool" where
  "lru_inv s \<longleftrightarrow> distinct (lru_list s) \<and> lru_map s = set (lru_list s) \<and> length (lru_list s) \<le> lru_max_size s"

definition capped_inv :: "'k capped_set \<Rightarrow> bool" where
  "capped_inv s \<longleftrightarrow> 0 < capped_capacity s \<and> distinct (capped_queue s) \<and> capped_items s = set (capped_queue s) \<and>
    length (capped_queue s) \<le> capped_capacity s"

definition uq_inv :: "'k unique_queue \<Rightarrow> bool" where
  "uq_inv q \<longleftrightarrow> 0 < uq_capacity q \<and> distinct (uq_queue q) \<and> uq_set q = set (uq_queue q) \<and>
    length (uq_queue q) \<le> uq_capacity q"

text \<open>The keys of a sequence of insertions, most recent first.\<close>

fun most_recent :: "'k list \<Rightarrow> 'k list" where
  "most_recent [] = []"
| "most_recent (k # ks) = k # filter (\<lambda>x. x \<noteq> k) (most_recent ks)"

text \<open>The abstract bounded queue without duplicates: the oldest key is dropped when it is full.\<close>

definition fifo_insert :: "nat \<Rightarrow> 'k \<Rightarrow> 'k list \<Rightarrow> 'k list" where
  "fifo_insert n k q = (if k \<in> set q then q else if length q = n then tl q @ [k] else q @ [k])"

section \<open>The contract of a bounded set\<close>

locale bounded_set =
  fixes inv :: "'s \<Rightarrow> bool"
    and items :: "'s \<Rightarrow> 'k list"
    and member :: "'k \<Rightarrow> 's \<Rightarrow> bool"
    and ins :: "'k \<Rightarrow> 's \<Rightarrow> bool \<times> 's"
    and cap :: "'s \<Rightarrow> nat"
  assumes member_items: "inv s \<Longrightarrow> member k s \<longleftrightarrow> k \<in> set (items s)"
    and distinct_items: "inv s \<Longrightarrow> distinct (items s)"
    and length_items: "inv s \<Longrightarrow> length (items s) \<le> cap s"
    and inv_ins: "inv s \<Longrightarrow> inv (snd (ins k s))"
    and cap_ins: "inv s \<Longrightarrow> cap (snd (ins k s)) = cap s"
    and ins_result: "inv s \<Longrightarrow> fst (ins k s) \<longleftrightarrow> \<not> member k s"
    and ins_subset: "inv s \<Longrightarrow> set (items (snd (ins k s))) \<subseteq> insert k (set (items s))"
    and ins_room: "inv s \<Longrightarrow> member k s \<or> length (items s) < cap s \<Longrightarrow>
      set (items (snd (ins k s))) = insert k (set (items s))"
begin

definition ins_all :: "'k list \<Rightarrow> 's \<Rightarrow> 's" where
  "ins_all ks s = fold (\<lambda>k s. snd (ins k s)) ks s"

lemma ins_all_inv: "inv s \<Longrightarrow> inv (ins_all ks s) \<and> cap (ins_all ks s) = cap s"
  unfolding ins_all_def by (induction ks arbitrary: s) (simp_all add: inv_ins cap_ins)

lemma ins_all_bounded: "inv s \<Longrightarrow> length (items (ins_all ks s)) \<le> cap s"
  using ins_all_inv [of s ks] length_items [of "ins_all ks s"] by simp

text \<open>As long as the distinct keys fit, nothing is evicted.\<close>

lemma ins_all_fits:
  "inv s \<Longrightarrow> card (set (items s) \<union> set ks) \<le> cap s \<Longrightarrow> set (items (ins_all ks s)) = set (items s) \<union> set ks"
proof (induction ks arbitrary: s)
  case Nil
  then show ?case by (simp add: ins_all_def)
next
  case (Cons k ks)
  let ?t = "snd (ins k s)"
  have "member k s \<or> length (items s) < cap s"
  proof (rule disjCI)
    assume "\<not> length (items s) < cap s"
    then have "card (set (items s) \<union> set (k # ks)) \<le> card (set (items s))"
      using Cons.prems distinct_items [of s] by (simp add: distinct_card)
    then have "set (items s) = set (items s) \<union> set (k # ks)"
      by (intro card_seteq) auto
    then show "member k s"
      using Cons.prems(1) member_items by auto
  qed
  then have t: "set (items ?t) = insert k (set (items s))"
    using Cons.prems(1) ins_room by blast
  then have "set (items (ins_all ks ?t)) = set (items ?t) \<union> set ks"
    using Cons.prems cap_ins inv_ins by (intro Cons.IH) simp_all
  then show ?case
    using t by (simp add: ins_all_def)
qed

end

lemma set_butlast_distinct: "distinct l \<Longrightarrow> l \<noteq> [] \<Longrightarrow> set (butlast l) = set l - {last l}"
  by (induction l rule: rev_induct) auto

lemma set_tl_distinct: "distinct l \<Longrightarrow> l \<noteq> [] \<Longrightarrow> set (tl l) = set l - {hd l}"
  by (cases l) auto

text \<open>The three branches of an insertion on the order alone.\<close>

lemma lru_insert_list:
  assumes "lru_inv s"
  shows "lru_list (snd (lru_insert k s)) =
      (if k \<in> set (lru_list s) then k # remove1 k (lru_list s) else take (lru_max_size s) (k # lru_list s))"
    "lru_max_size (snd (lru_insert k s)) = lru_max_size s" "fst (lru_insert k s) \<longleftrightarrow> k \<notin> set (lru_list s)"
proof -
  consider "k \<in> set (lru_list s)" | "k \<notin> set (lru_list s)" "length (lru_list s) < lru_max_size s"
    | "k \<notin> set (lru_list s)" "length (lru_list s) = lru_max_size s"
    using assms by (force simp: lru_inv_def)
  then have "lru_list (snd (lru_insert k s)) =
      (if k \<in> set (lru_list s) then k # remove1 k (lru_list s) else take (lru_max_size s) (k # lru_list s)) \<and>
      lru_max_size (snd (lru_insert k s)) = lru_max_size s \<and> (fst (lru_insert k s) \<longleftrightarrow> k \<notin> set (lru_list s))"
    using assms by cases (simp_all add: lru_inv_def lru_insert_def Let_def butlast_conv_take)
  then show "lru_list (snd (lru_insert k s)) =
      (if k \<in> set (lru_list s) then k # remove1 k (lru_list s) else take (lru_max_size s) (k # lru_list s))"
    "lru_max_size (snd (lru_insert k s)) = lru_max_size s" "fst (lru_insert k s) \<longleftrightarrow> k \<notin> set (lru_list s)"
    by simp_all
qed

lemma lru_insert_inv:
  assumes "lru_inv s"
  shows "lru_inv (snd (lru_insert k s))"
proof (cases "k \<in> set (lru_list s)")
  case True
  then have "length (k # remove1 k (lru_list s)) = length (lru_list s)"
    using length_pos_if_in_set [OF True] by (simp add: length_remove1)
  with True assms show ?thesis
    by (auto simp: lru_inv_def lru_insert_def)
next
  case False
  with assms have "distinct (k # lru_list s)"
    by (simp add: lru_inv_def)
  note set_butlast_distinct [OF this] distinct_butlast [OF this]
  with False assms show ?thesis
    by (simp add: lru_inv_def lru_insert_def Let_def)
qed

lemma lru_contains_list: "lru_inv s \<Longrightarrow> lru_contains k s \<longleftrightarrow> k \<in> set (lru_list s)"
  by (simp add: lru_inv_def lru_contains_def)

interpretation lru: bounded_set lru_inv lru_list lru_contains lru_insert lru_max_size
proof (standard, goal_cases)
  case (1 s k)
  then show ?case by (rule lru_contains_list)
next
  case (2 s)
  then show ?case by (simp add: lru_inv_def)
next
  case (3 s)
  then show ?case by (simp add: lru_inv_def)
next
  case (4 s k)
  then show ?case by (rule lru_insert_inv)
next
  case (5 s k)
  then show ?case by (rule lru_insert_list(2))
next
  case (6 s k)
  then show ?case by (simp add: lru_insert_list(3) lru_contains_list)
next
  case (7 s k)
  then show ?case
    using set_remove1_subset [of k "lru_list s"] set_take_subset [of "lru_max_size s" "k # lru_list s"]
    by (simp add: lru_insert_list(1)) blast
next
  case (8 s k)
  then have r: "set (remove1 k (lru_list s)) = set (lru_list s) - {k}"
    by (simp add: lru_inv_def set_remove1_eq)
  show ?case
  proof (cases "k \<in> set (lru_list s)")
    case True
    with 8 r show ?thesis
      by (simp add: lru_insert_list(1))
  next
    case False
    with 8 show ?thesis
      by (simp add: lru_insert_list(1) lru_contains_list)
  qed
qed

text \<open>On the order of insertion, \<open>CappedSet\<close> and \<open>UniqueQueue\<close> are the same queue.\<close>

lemma capped_insert_queue:
  assumes "capped_inv s"
  shows "capped_queue (snd (capped_insert k s)) = fifo_insert (capped_capacity s) k (capped_queue s)"
    "capped_capacity (snd (capped_insert k s)) = capped_capacity s"
    "fst (capped_insert k s) \<longleftrightarrow> k \<notin> set (capped_queue s)"
  using assms by (auto simp: capped_inv_def capped_insert_def fifo_insert_def Let_def distinct_card)

lemma uq_push_queue:
  assumes "uq_inv q"
  shows "uq_queue (snd (uq_push k q)) = fifo_insert (uq_capacity q) k (uq_queue q)"
    "uq_capacity (snd (uq_push k q)) = uq_capacity q"
    "fst (uq_push k q) \<longleftrightarrow> k \<notin> set (uq_queue q)"
  using assms by (auto simp: uq_inv_def uq_push_def fifo_insert_def Let_def tl_append split: list.split)

lemma fifo_insert_props:
  assumes "distinct q" "length q \<le> n" "0 < n"
  shows "distinct (fifo_insert n k q)" "length (fifo_insert n k q) \<le> n"
    "set (fifo_insert n k q) \<subseteq> insert k (set q)"
    "k \<in> set q \<or> length q < n \<Longrightarrow> set (fifo_insert n k q) = insert k (set q)"
  using assms by (auto simp: fifo_insert_def distinct_tl dest: list.set_sel(2))

lemma capped_insert_inv:
  assumes "capped_inv s"
  shows "capped_inv (snd (capped_insert k s))"
proof -
  have "capped_queue s \<noteq> []" if "length (capped_queue s) = capped_capacity s"
    using assms that by (auto simp: capped_inv_def)
  then have "capped_items (snd (capped_insert k s)) = set (fifo_insert (capped_capacity s) k (capped_queue s))"
    using assms set_tl_distinct [of "capped_queue s"]
    by (simp add: capped_inv_def capped_insert_def fifo_insert_def Let_def distinct_card)
  with assms show ?thesis
    by (simp add: capped_inv_def capped_insert_queue fifo_insert_props)
qed

lemma uq_push_inv:
  assumes "uq_inv q"
  shows "uq_inv (snd (uq_push k q))"
proof -
  have "uq_queue q \<noteq> []" if "length (uq_queue q) = uq_capacity q"
    using assms that by (auto simp: uq_inv_def)
  then have "set (tl (uq_queue q)) = set (uq_queue q) - {hd (uq_queue q)}" "hd (uq_queue q @ [k]) = hd (uq_queue q)"
      "hd (uq_queue q) \<in> set (uq_queue q)" if "length (uq_queue q) = uq_capacity q"
    using assms that set_tl_distinct [of "uq_queue q"] by (simp_all add: uq_inv_def)
  moreover have "k \<noteq> hd (uq_queue q) \<Longrightarrow> insert k (set (uq_queue q)) - {hd (uq_queue q)} = insert k (set (uq_queue q) - {hd (uq_queue q)})"
    by blast
  ultimately have "uq_set (snd (uq_push k q)) = set (fifo_insert (uq_capacity q) k (uq_queue q))"
    using assms by (cases "k \<in> set (uq_queue q)"; cases "length (uq_queue q) = uq_capacity q")
      (force simp: uq_inv_def uq_push_def fifo_insert_def Let_def)+
  with assms show ?thesis
    by (simp add: uq_inv_def uq_push_queue fifo_insert_props)
qed

lemma uq_pop_inv: "uq_inv q \<Longrightarrow> uq_inv (snd (uq_pop q))"
  by (auto simp: uq_inv_def uq_pop_def split: list.split)

interpretation capped: bounded_set capped_inv capped_queue capped_contains capped_insert capped_capacity
proof (standard, goal_cases)
  case (1 s k)
  then show ?case by (simp add: capped_inv_def capped_contains_def)
next
  case (2 s)
  then show ?case by (simp add: capped_inv_def)
next
  case (3 s)
  then show ?case by (simp add: capped_inv_def)
next
  case (4 s k)
  then show ?case by (rule capped_insert_inv)
next
  case (5 s k)
  then show ?case by (rule capped_insert_queue(2))
next
  case (6 s k)
  then show ?case by (simp add: capped_insert_queue(3) capped_contains_def capped_inv_def)
next
  case (7 s k)
  then show ?case by (simp add: capped_insert_queue(1) fifo_insert_props capped_inv_def)
next
  case (8 s k)
  then show ?case by (simp add: capped_insert_queue(1) fifo_insert_props capped_inv_def capped_contains_def)
qed

interpretation uq: bounded_set uq_inv uq_queue uq_contains uq_push uq_capacity
proof (standard, goal_cases)
  case (1 s k)
  then show ?case by (simp add: uq_inv_def uq_contains_def)
next
  case (2 s)
  then show ?case by (simp add: uq_inv_def)
next
  case (3 s)
  then show ?case by (simp add: uq_inv_def)
next
  case (4 s k)
  then show ?case by (rule uq_push_inv)
next
  case (5 s k)
  then show ?case by (rule uq_push_queue(2))
next
  case (6 s k)
  then show ?case by (simp add: uq_push_queue(3) uq_contains_def uq_inv_def)
next
  case (7 s k)
  then show ?case by (simp add: uq_push_queue(1) fifo_insert_props uq_inv_def)
next
  case (8 s k)
  then show ?case by (simp add: uq_push_queue(1) fifo_insert_props uq_inv_def uq_contains_def)
qed

section \<open>The recency order of an LruSet\<close>

lemma set_most_recent [simp]: "set (most_recent ks) = set ks"
  by (induction ks) auto

lemma distinct_most_recent [simp]: "distinct (most_recent ks)"
  by (induction ks) auto

lemma recency_step:
  assumes "distinct l"
  shows "(if k \<in> set (take n l) then k # remove1 k (take n l) else take n (k # take n l)) =
    take n (k # filter (\<lambda>x. x \<noteq> k) l)"
proof (cases n)
  case (Suc m)
  show ?thesis
  proof (cases "k \<in> set (take n l)")
    case True
    then have "k \<in> set l"
      by (rule in_set_takeD)
    then obtain xs ys where l: "l = xs @ k # ys" "k \<notin> set xs"
      by (meson split_list_first)
    with assms have "k \<notin> set ys"
      by simp
    moreover have "length xs \<le> m"
      using True l Suc by (cases "length xs \<le> m") (auto dest: in_set_takeD)
    ultimately have "filter (\<lambda>x. x \<noteq> k) xs = xs" "filter (\<lambda>x. x \<noteq> k) ys = ys"
      using l(2) by (auto simp: filter_id_conv)
    note \<open>length xs \<le> m\<close> this
    with l True Suc show ?thesis
      by (simp add: remove1_append Suc_diff_le)
  next
    case False
    then have "filter (\<lambda>x. x \<noteq> k) (take n l) = take n l"
      by (auto simp: filter_id_conv)
    then have "filter (\<lambda>x. x \<noteq> k) (take n l @ drop n l) = take n l @ filter (\<lambda>x. x \<noteq> k) (drop n l)"
      by (simp only: filter_append)
    then have "take m (filter (\<lambda>x. x \<noteq> k) l) = take m l"
      using Suc by (cases "n \<le> length l") simp_all
    with False Suc show ?thesis
      by simp
  qed
qed simp

lemma lru_insert_recent:
  assumes "lru_inv s" "lru_list s = take (lru_max_size s) (most_recent ks)"
  shows "lru_list (snd (lru_insert k s)) = take (lru_max_size s) (most_recent (k # ks))"
proof -
  have "take (lru_max_size s) (k # lru_list s) = take (lru_max_size s) (k # take (lru_max_size s) (most_recent ks))"
    by (simp add: assms(2))
  then show ?thesis
    unfolding lru_insert_list(1) [OF assms(1)] most_recent.simps
    using recency_step [of "most_recent ks" k "lru_max_size s"] by (simp only: assms(2) distinct_most_recent)
qed

lemma lru_new_inv [simp]: "lru_inv (lru_new n)" "lru_max_size (lru_new n) = n"
  by (simp_all add: lru_inv_def lru_new_def)

lemma lru_ins_all_recent:
  "lru_list (lru.ins_all ks (lru_new n)) = take n (most_recent (rev ks))"
proof (induction ks rule: rev_induct)
  case Nil
  then show ?case by (simp add: lru.ins_all_def lru_new_def)
next
  case (snoc k ks)
  have "lru_inv (lru.ins_all ks (lru_new n))" "lru_max_size (lru.ins_all ks (lru_new n)) = n"
    using lru.ins_all_inv [OF lru_new_inv(1), of ks n] by simp_all
  with lru_insert_recent [of "lru.ins_all ks (lru_new n)" "rev ks" k] snoc
  show ?case
    unfolding lru.ins_all_def by (simp del: most_recent.simps)
qed

section \<open>Queues\<close>

lemma uq_pop_push:
  assumes "uq_inv q" "uq_queue q = []"
  shows "uq_pop (snd (uq_push k q)) = (Some k, q)"
  using assms by (auto simp: uq_inv_def uq_push_def uq_pop_def Let_def)

lemma pool_acquire_add: "pool_acquire (pool_add p pool) = (Some p, pool)"
  by (simp add: pool_acquire_def pool_add_def)

section \<open>Properties\<close>

text \<open>C39. After any sequence of insertions in a new \<open>LruSet\<close> its list holds the distinct keys, most
  recently inserted first, cut to the maximum size.\<close>

theorem lru_holds_most_recent: "lru_list (fold (\<lambda>k s. snd (lru_insert k s)) ks (lru_new n)) = take n (most_recent (rev ks))"
  using lru_ins_all_recent [of ks n] by (simp add: lru.ins_all_def)

text \<open>\<open>CappedSet\<close> and \<open>UniqueQueue\<close>, whose code evicts before and after the insertion,
  implement the same bounded queue without duplicates: from the same content and capacity, an insertion
  gives the same answer and the same content, and keeps the invariants.\<close>

theorem capped_set_refines_unique_queue:
  assumes "capped_inv s" "uq_inv q" "capped_queue s = uq_queue q" "capped_capacity s = uq_capacity q"
  shows "fst (capped_insert k s) = fst (uq_push k q) \<and>
    capped_queue (snd (capped_insert k s)) = uq_queue (snd (uq_push k q)) \<and>
    capped_queue (snd (capped_insert k s)) = fifo_insert (uq_capacity q) k (uq_queue q) \<and>
    capped_inv (snd (capped_insert k s)) \<and> uq_inv (snd (uq_push k q))"
  using assms capped_insert_queue [OF assms(1), of k] uq_push_queue [OF assms(2), of k]
  by (simp add: capped_insert_inv uq_push_inv)

theorem capped_set_refines_unique_queue_witness:
  "capped_queue (snd (capped_insert 3 \<lparr>capped_capacity = 2, capped_items = {1, 2}, capped_queue = [1, 2 :: nat]\<rparr>)) =
    uq_queue (snd (uq_push 3 \<lparr>uq_capacity = 2, uq_queue = [1, 2], uq_set = {1, 2}\<rparr>))"
proof -
  have "capped_inv \<lparr>capped_capacity = 2, capped_items = {1, 2}, capped_queue = [1, 2 :: nat]\<rparr>"
    "uq_inv \<lparr>uq_capacity = 2, uq_queue = [1, 2 :: nat], uq_set = {1, 2}\<rparr>"
    by (simp_all add: capped_inv_def uq_inv_def)
  from capped_set_refines_unique_queue [OF this, of 3] show ?thesis
    by simp
qed

text \<open>The three bounded containers never exceed their capacity, whatever is inserted.\<close>

theorem containers_bounded:
  assumes "lru_inv l" "capped_inv c" "uq_inv q"
  shows "length (lru_list (fold (\<lambda>k s. snd (lru_insert k s)) ks l)) \<le> lru_max_size l \<and>
    length (capped_queue (fold (\<lambda>k s. snd (capped_insert k s)) ks c)) \<le> capped_capacity c \<and>
    length (uq_queue (fold (\<lambda>k s. snd (uq_push k s)) ks q)) \<le> uq_capacity q"
  using lru.ins_all_bounded [OF assms(1), of ks] capped.ins_all_bounded [OF assms(2), of ks]
    uq.ins_all_bounded [OF assms(3), of ks]
  by (simp add: lru.ins_all_def capped.ins_all_def uq.ins_all_def)

theorem containers_bounded_witness:
  "length (lru_list (fold (\<lambda>k s. snd (lru_insert k s)) [1, 2, 3 :: nat] (lru_new 2))) \<le> 2"
proof -
  have "capped_inv \<lparr>capped_capacity = 2, capped_items = {}, capped_queue = [] :: nat list\<rparr>"
    "uq_inv \<lparr>uq_capacity = 2, uq_queue = [] :: nat list, uq_set = {}\<rparr>"
    by (simp_all add: capped_inv_def uq_inv_def)
  from containers_bounded [OF lru_new_inv(1) [of 2] this, of "[1, 2, 3]"] show ?thesis
    by simp
qed

end
