(* ===== verification/Locked_Pages.thy ===== *)
theory Locked_Pages
  imports Main
begin

unbundle bit_operations_syntax

text \<open>
  \<open>LockedPagesManagerBase\<close> of core/common/memory.hpp: reference counts of the memory
  pages that hold secrets. The manager asks the operating system to lock a page when its count goes
  from none to one and to unlock it when the count returns to zero. The operating system is
  represented by its answers (parameters telling which pages it locks or unlocks) and by the set of
  pages it holds locked, which is what the counts must agree with. Addresses are natural numbers: a
  range does not wrap around the end of the address space.
\<close>

record locked_pages =
  lp_page_size :: nat
  lp_locked_pages :: "nat \<rightharpoonup> int"
  lp_os_locked :: "nat set"

definition page_of :: "nat \<Rightarrow> nat \<Rightarrow> nat" where
  "page_of page_size address = address - address mod page_size"

text \<open>\<open>None\<close> is a failed precondition of the constructor.\<close>

definition lp_new :: "nat \<Rightarrow> locked_pages option" where
  "lp_new page_size =
    (if 512 \<le> page_size \<and> page_size \<le> 1024 * 1024 * 1024 \<and> page_size AND (page_size - 1) = 0
     then Some \<lparr>lp_page_size = page_size, lp_locked_pages = Map.empty, lp_os_locked = {}\<rparr>
     else None)"

definition get_range_boundaries :: "nat \<Rightarrow> nat \<Rightarrow> nat \<Rightarrow> nat \<times> nat" where
  "get_range_boundaries page_size address sz =
    (page_of page_size address, page_of page_size (address + sz - 1))"

text \<open>The pages visited by \<open>for (page = start; page <= end; page += page_size)\<close>.\<close>

function page_range :: "nat \<Rightarrow> nat \<Rightarrow> nat \<Rightarrow> nat list" where
  "page_range page_size page stop =
    (if page_size = 0 \<or> page > stop then [] else page # page_range page_size (page + page_size) stop)"
  by auto

termination
  by (relation "measure (\<lambda>(n, p, l). Suc l - p)") auto

fun lock_pages :: "(nat \<Rightarrow> bool) \<Rightarrow> nat list \<Rightarrow> locked_pages \<Rightarrow> bool \<times> locked_pages" where
  "lock_pages os_lock [] s = (True, s)"
| "lock_pages os_lock (page # pages) s =
    (case lp_locked_pages s page of
      Some n \<Rightarrow> lock_pages os_lock pages (s\<lparr>lp_locked_pages := (lp_locked_pages s)(page \<mapsto> n + 1)\<rparr>)
    | None \<Rightarrow>
        if os_lock page then
          lock_pages os_lock pages
            (s\<lparr>lp_locked_pages := (lp_locked_pages s)(page \<mapsto> 1), lp_os_locked := insert page (lp_os_locked s)\<rparr>)
        else (False, s))"

definition lock_range :: "(nat \<Rightarrow> bool) \<Rightarrow> nat \<Rightarrow> nat \<Rightarrow> locked_pages \<Rightarrow> bool \<times> locked_pages" where
  "lock_range os_lock address sz s =
    (if address = 0 \<or> sz = 0 then (False, s)
     else case get_range_boundaries (lp_page_size s) address sz of (start, stop) \<Rightarrow>
       lock_pages os_lock (page_range (lp_page_size s) start stop) s)"

text \<open>A result of \<open>None\<close> is the failed assertion on a count that is not positive.\<close>

fun unlock_pages :: "(nat \<Rightarrow> bool) \<Rightarrow> nat list \<Rightarrow> locked_pages \<Rightarrow> (bool \<times> locked_pages) option" where
  "unlock_pages os_unlock [] s = Some (True, s)"
| "unlock_pages os_unlock (page # pages) s =
    (case lp_locked_pages s page of
      None \<Rightarrow> unlock_pages os_unlock pages s
    | Some n \<Rightarrow>
        if n \<le> 0 then None
        else if n - 1 = 0 then
          (if os_unlock page then
             unlock_pages os_unlock pages
               (s\<lparr>lp_locked_pages := (lp_locked_pages s)(page := None), lp_os_locked := lp_os_locked s - {page}\<rparr>)
           else Some (False, s))
        else unlock_pages os_unlock pages (s\<lparr>lp_locked_pages := (lp_locked_pages s)(page \<mapsto> n - 1)\<rparr>))"

definition unlock_range :: "(nat \<Rightarrow> bool) \<Rightarrow> nat \<Rightarrow> nat \<Rightarrow> locked_pages \<Rightarrow> (bool \<times> locked_pages) option" where
  "unlock_range os_unlock address sz s =
    (if address = 0 \<or> sz = 0 then Some (False, s)
     else case get_range_boundaries (lp_page_size s) address sz of (start, stop) \<Rightarrow>
       unlock_pages os_unlock (page_range (lp_page_size s) start stop) s)"

definition lp_contains :: "nat \<Rightarrow> locked_pages \<Rightarrow> bool" where
  "lp_contains address s = (lp_locked_pages s (page_of (lp_page_size s) address) \<noteq> None)"

text \<open>\<open>clear\<close> drops the pages that the system unlocks and keeps the others.\<close>

definition lp_clear :: "(nat \<Rightarrow> bool) \<Rightarrow> locked_pages \<Rightarrow> locked_pages" where
  "lp_clear os_unlock s =
    s\<lparr>lp_locked_pages := (\<lambda>page. if os_unlock page then None else lp_locked_pages s page),
      lp_os_locked := {page \<in> lp_os_locked s. \<not> (os_unlock page \<and> lp_locked_pages s page \<noteq> None)}\<rparr>"

declare page_range.simps [simp del]

section \<open>Invariant\<close>

text \<open>The counts are positive, the pages are aligned, and the operating system holds exactly the
  counted pages.\<close>

definition lp_inv :: "locked_pages \<Rightarrow> bool" where
  "lp_inv s \<longleftrightarrow> 0 < lp_page_size s \<and> dom (lp_locked_pages s) = lp_os_locked s \<and>
    (\<forall>page n. lp_locked_pages s page = Some n \<longrightarrow> 0 < n \<and> page mod lp_page_size s = 0)"

definition lp_count :: "locked_pages \<Rightarrow> nat \<Rightarrow> int" where
  "lp_count s page = (case lp_locked_pages s page of None \<Rightarrow> 0 | Some n \<Rightarrow> n)"

lemma page_of_aligned: "page_of n a mod n = 0"
  by (simp add: page_of_def mod_eq_0_iff_dvd dvd_minus_mod)

lemma page_range_aligned: "0 < n \<Longrightarrow> start mod n = 0 \<Longrightarrow> page \<in> set (page_range n start stop) \<Longrightarrow> page mod n = 0"
proof (induction n start stop rule: page_range.induct)
  case (1 n start stop)
  then show ?case
    by (auto simp: page_range.simps [of n start stop] split: if_splits)
qed

lemma page_range_ge: "page \<in> set (page_range n start stop) \<Longrightarrow> start \<le> page \<and> page \<le> stop"
proof (induction n start stop rule: page_range.induct)
  case (1 n start stop)
  then show ?case
    by (auto simp: page_range.simps [of n start stop] split: if_splits)
qed

lemma distinct_page_range: "distinct (page_range n start stop)"
proof (induction n start stop rule: page_range.induct)
  case (1 n start stop)
  then show ?case
    by (subst page_range.simps) (auto dest: page_range_ge)
qed

lemma lp_inv_upd_Some:
  "lp_inv s \<Longrightarrow> lp_locked_pages s page = Some n \<Longrightarrow> 0 < m \<Longrightarrow> lp_inv (s\<lparr>lp_locked_pages := (lp_locked_pages s)(page \<mapsto> m)\<rparr>)"
  by (auto simp: lp_inv_def)

lemma lp_inv_lock:
  "lp_inv s \<Longrightarrow> page mod lp_page_size s = 0 \<Longrightarrow>
    lp_inv (s\<lparr>lp_locked_pages := (lp_locked_pages s)(page \<mapsto> 1), lp_os_locked := insert page (lp_os_locked s)\<rparr>)"
  by (simp add: lp_inv_def)

lemma lp_inv_unlock:
  "lp_inv s \<Longrightarrow>
    lp_inv (s\<lparr>lp_locked_pages := (lp_locked_pages s)(page := None), lp_os_locked := lp_os_locked s - {page}\<rparr>)"
  by (simp add: lp_inv_def)

lemma lp_inv_pos_size: "lp_inv s \<Longrightarrow> 0 < lp_page_size s"
  by (simp add: lp_inv_def)

lemma lp_inv_pos: "lp_inv s \<Longrightarrow> lp_locked_pages s page = Some n \<Longrightarrow> 0 < n"
  by (simp add: lp_inv_def)

lemma lock_pages_inv:
  "lp_inv s \<Longrightarrow> \<forall>page \<in> set pages. page mod lp_page_size s = 0 \<Longrightarrow> lp_inv (snd (lock_pages f pages s))"
proof (induction pages arbitrary: s)
  case (Cons page pages)
  then show ?case
    using lp_inv_pos [OF Cons.prems(1), of page]
    by (auto simp: lp_inv_upd_Some lp_inv_lock split: option.split)
qed simp

text \<open>Unlocking never meets the assertion.\<close>

lemma unlock_pages_inv:
  "lp_inv s \<Longrightarrow> unlock_pages f pages s \<noteq> None \<and> lp_inv (snd (the (unlock_pages f pages s)))"
proof (induction pages arbitrary: s)
  case (Cons page pages)
  then show ?case
    using lp_inv_pos [OF Cons.prems, of page]
    by (auto simp: lp_inv_upd_Some lp_inv_unlock split: option.split)
qed simp

lemma lock_range_inv: "lp_inv s \<Longrightarrow> lp_inv (snd (lock_range f a n s))"
  using page_range_aligned [OF _ page_of_aligned, of "lp_page_size s"]
  by (auto simp: lock_range_def get_range_boundaries_def lp_inv_pos_size intro!: lock_pages_inv)

lemma unlock_range_inv: "lp_inv s \<Longrightarrow> unlock_range f a n s \<noteq> None \<and> lp_inv (snd (the (unlock_range f a n s)))"
proof (cases "a = 0 \<or> n = 0")
  case False
  moreover assume "lp_inv s"
  ultimately show ?thesis
    unfolding unlock_range_def get_range_boundaries_def prod.case using unlock_pages_inv [of s f] by presburger
qed (auto simp: unlock_range_def)

lemma clear_inv: "lp_inv s \<Longrightarrow> lp_inv (lp_clear f s)"
proof -
  have "dom (\<lambda>p. if f p then None else m p) = {p \<in> dom m. \<not> (f p \<and> m p \<noteq> None)}" for m :: "nat \<rightharpoonup> int"
    by (auto split: if_splits)
  moreover assume "lp_inv s"
  ultimately show ?thesis
    by (simp add: lp_inv_def lp_clear_def)
qed

section \<open>Reference counting\<close>

text \<open>When the system accepts every request, locking a list of pages increases their counts by one
  and unlocking decreases them.\<close>

lemma lock_pages_counts:
  "distinct pages \<Longrightarrow> fst (lock_pages (\<lambda>_. True) pages s) \<and>
    lp_locked_pages (snd (lock_pages (\<lambda>_. True) pages s)) =
      (\<lambda>page. if page \<in> set pages then Some (lp_count s page + 1) else lp_locked_pages s page)"
proof (induction pages arbitrary: s)
  case (Cons page pages)
  then show ?case
    by (cases "lp_locked_pages s page") (auto simp: lp_count_def fun_eq_iff)
qed simp

definition unlocked :: "nat list \<Rightarrow> locked_pages \<Rightarrow> nat \<Rightarrow> int option" where
  "unlocked pages s page =
    (if page \<in> set pages then if lp_count s page \<le> 1 then None else Some (lp_count s page - 1)
     else lp_locked_pages s page)"

lemma unlock_pages_counts:
  "distinct pages \<Longrightarrow> lp_inv s \<Longrightarrow>
    \<exists>t. unlock_pages (\<lambda>_. True) pages s = Some (True, t) \<and> lp_inv t \<and> (\<forall>p. lp_locked_pages t p = unlocked pages s p)"
proof (induction pages arbitrary: s)
  case Nil
  then show ?case by (simp add: unlocked_def)
next
  case (Cons page pages)
  let ?t = "case lp_locked_pages s page of None \<Rightarrow> s
    | Some n \<Rightarrow> if n = 1 then s\<lparr>lp_locked_pages := (lp_locked_pages s)(page := None), lp_os_locked := lp_os_locked s - {page}\<rparr>
      else s\<lparr>lp_locked_pages := (lp_locked_pages s)(page \<mapsto> n - 1)\<rparr>"
  have pos: "lp_locked_pages s page = Some n \<Longrightarrow> 0 < n" for n
    using Cons.prems(2) by (rule lp_inv_pos)
  then have t: "lp_inv ?t"
    using Cons.prems(2) by (fastforce simp: lp_inv_unlock intro!: lp_inv_upd_Some split: option.split)
  have u: "unlock_pages (\<lambda>_. True) (page # pages) s = unlock_pages (\<lambda>_. True) pages ?t"
    using pos by (fastforce split: option.split)
  have "unlocked pages ?t p = unlocked (page # pages) s p" for p
    using Cons.prems(1) pos by (cases "p = page") (auto simp: unlocked_def lp_count_def split: option.split)
  with Cons.IH [OF _ t] Cons.prems(1) show ?case
    unfolding u by simp
qed

lemma unlock_lock_pages:
  assumes "lp_inv s" "distinct pages" "\<forall>page \<in> set pages. page mod lp_page_size s = 0"
  shows "\<exists>t. unlock_pages (\<lambda>_. True) pages (snd (lock_pages (\<lambda>_. True) pages s)) = Some (True, t) \<and>
    lp_locked_pages t = lp_locked_pages s \<and> lp_os_locked t = lp_os_locked s"
proof -
  let ?u = "snd (lock_pages (\<lambda>_. True) pages s)"
  have u: "lp_inv ?u"
    using assms by (simp add: lock_pages_inv)
  obtain t where t: "unlock_pages (\<lambda>_. True) pages ?u = Some (True, t)" "lp_inv t"
    "\<And>page. lp_locked_pages t page = unlocked pages ?u page"
    using unlock_pages_counts [OF assms(2) u] by blast
  have "lp_locked_pages t page = lp_locked_pages s page" for page
    using lock_pages_counts [OF assms(2), of s] lp_inv_pos [OF assms(1), of page]
    by (cases "lp_locked_pages s page") (simp_all add: t(3) unlocked_def lp_count_def)
  then have "lp_locked_pages t = lp_locked_pages s"
    by (rule ext)
  with t assms(1) show ?thesis
    by (auto simp: lp_inv_def)
qed

section \<open>Properties\<close>

text \<open>Locking, unlocking and clearing keep the invariant of the page manager, whichever calls to the
  operating system fail: counters are positive, pages are aligned, and the pages locked by the system are
  those with a counter. Unlocking never decrements a counter below zero.\<close>

theorem locked_pages_keep_inv:
  assumes "lp_inv s"
  shows "lp_inv (snd (lock_range f a n s)) \<and> (\<exists>r t. unlock_range g a n s = Some (r, t) \<and> lp_inv t) \<and> lp_inv (lp_clear g s)"
  using lock_range_inv [OF assms, of f a n] unlock_range_inv [OF assms, of g a n] clear_inv [OF assms, of g]
  by (cases "unlock_range g a n s") auto

theorem locked_pages_keep_inv_witness:
  "\<exists>s. lp_new 4096 = Some s \<and> lp_inv (snd (lock_range (\<lambda>_. True) 5000 8000 s))"
proof -
  obtain s where s: "lp_new 4096 = Some s" "lp_inv s"
    by (auto simp: lp_new_def lp_inv_def)
  with locked_pages_keep_inv [OF s(2)] show ?thesis
    by blast
qed

text \<open>Unlocking a range of pages that has just been locked restores the counters and the set of locked
  pages, also when ranges overlap.\<close>

theorem unlock_undoes_lock:
  assumes "lp_inv s" "distinct pages" "\<forall>page \<in> set pages. page mod lp_page_size s = 0"
  shows "\<exists>t. unlock_pages (\<lambda>_. True) pages (snd (lock_pages (\<lambda>_. True) pages s)) = Some (True, t) \<and>
    lp_locked_pages t = lp_locked_pages s \<and> lp_os_locked t = lp_os_locked s"
  by (rule unlock_lock_pages [OF assms])

theorem unlock_undoes_lock_witness:
  "\<exists>s t. lp_new 4096 = Some s \<and>
    unlock_pages (\<lambda>_. True) [0, 4096] (snd (lock_pages (\<lambda>_. True) [0, 4096] s)) = Some (True, t) \<and> lp_os_locked t = lp_os_locked s"
proof -
  obtain s where s: "lp_new 4096 = Some s" "lp_inv s" "lp_page_size s = 4096"
    by (auto simp: lp_new_def lp_inv_def)
  then have "\<exists>t. unlock_pages (\<lambda>_. True) [0, 4096] (snd (lock_pages (\<lambda>_. True) [0, 4096] s)) = Some (True, t) \<and>
      lp_locked_pages t = lp_locked_pages s \<and> lp_os_locked t = lp_os_locked s"
    by (intro unlock_undoes_lock) simp_all
  with s(1) show ?thesis
    by blast
qed

end
