(* ===== verification/Hash_Type.thy ===== *)
theory Hash_Type
  imports Serialize Hex Crypto
begin

text \<open>
  \<open>Hash<BITS>\<close> of core/types/hash.hpp: a fixed number of bytes, represented by a byte list of
  that length, with its constructors, its text form, its salted Jenkins hash, its order and its
  serialization. The order is the one of the numbers that the bytes spell most significant byte
  first.
\<close>

section \<open>Operations\<close>

definition hash_zero :: "nat \<Rightarrow> bytes" where
  "hash_zero n = replicate n 0"

definition hash_of_bytes :: "nat \<Rightarrow> bytes \<Rightarrow> bytes" where
  "hash_of_bytes n init =
    (if length init > n then hash_zero n else replicate (n - length init) 0 @ init)"

text \<open>\<open>None\<close> is the failed assertion for a hash of less than eight bytes.\<close>

definition hash_of_u64 :: "nat \<Rightarrow> 64 word \<Rightarrow> bytes option" where
  "hash_of_u64 n value = (if 8 \<le> n then Some (replicate (n - 8) 0 @ word_to_be value) else None)"

definition hash_from_hex :: "nat \<Rightarrow> string \<Rightarrow> bool \<Rightarrow> (error_code, bytes) outcome" where
  "hash_from_hex n input reverse =
    (case decode input of
      Failure e \<Rightarrow> Failure e
    | Success parsed \<Rightarrow> Success (hash_of_bytes n (if reverse then rev parsed else parsed)))"

definition hash_to_hex :: "bytes \<Rightarrow> bool \<Rightarrow> bool \<Rightarrow> string" where
  "hash_to_hex h reverse with_prefix = encode (if reverse then rev h else h) with_prefix"

text \<open>The bytes read as an array of 32 bit integers.\<close>

fun le_words :: "bytes \<Rightarrow> 32 word list" where
  "le_words (b0 # b1 # b2 # b3 # bs) = le_to_word [b0, b1, b2, b3] # le_words bs"
| "le_words bs = []"

definition hash_hash :: "bytes \<Rightarrow> bytes \<Rightarrow> 64 word" where
  "hash_hash h salt = jenkins_hash (le_words h) (le_words salt)"

datatype std_ordering = ord_less | ord_equal | ord_greater

fun memcmp :: "bytes \<Rightarrow> bytes \<Rightarrow> std_ordering" where
  "memcmp (a # as) (b # bs) = (if a < b then ord_less else if b < a then ord_greater else memcmp as bs)"
| "memcmp as bs = ord_equal"

definition hash_compare :: "bytes \<Rightarrow> bytes \<Rightarrow> std_ordering" where
  "hash_compare h other = memcmp h other"

definition hash_is_set :: "bytes \<Rightarrow> bool" where
  "hash_is_set h = list_ex (\<lambda>b. b > 0) h"

definition bind_hash :: "nat \<Rightarrow> action \<Rightarrow> bytes bind_fun" where
  "bind_hash n action x = bind_array n action x"

section \<open>Lemmas\<close>

lemma length_hash_of_bytes [simp]: "length (hash_of_bytes n b) = n"
  by (simp add: hash_of_bytes_def hash_zero_def)

lemma hash_of_bytes_id: "length b = n \<Longrightarrow> hash_of_bytes n b = b"
  by (simp add: hash_of_bytes_def)

lemma hash_of_bytes_value: "length b \<le> n \<Longrightarrow> le_to_nat (rev (hash_of_bytes n b)) = le_to_nat (rev b)"
  by (simp add: hash_of_bytes_def le_to_nat_snoc_zeros)

lemma hash_from_to_hex:
  "length h = n \<Longrightarrow> hash_from_hex n (hash_to_hex h r p) r = Success h"
  by (simp add: hash_from_hex_def hash_to_hex_def decode_encode hash_of_bytes_id)

lemma memcmp_eq: "length a = length b \<Longrightarrow> memcmp a b = ord_equal \<longleftrightarrow> a = b"
proof (induction a b rule: memcmp.induct)
  case (1 a as b bs)
  then show ?case by (auto simp: not_less_iff_gr_or_eq)
qed auto

lemma memcmp_value:
  "length a = length b \<Longrightarrow> memcmp a b = ord_less \<longleftrightarrow> le_to_nat (rev a) < le_to_nat (rev b)"
proof (induction a b rule: memcmp.induct)
  case (1 a as b bs)
  have d: "length as = length bs"
    using 1 by simp
  have l: "le_to_nat (rev as) < 256 ^ length bs" "le_to_nat (rev bs) < 256 ^ length bs"
    using le_to_nat_less [of "rev as"] le_to_nat_less [of "rev bs"] d by simp_all
  have less: "x + 256 ^ length bs * unat c < y + 256 ^ length bs * unat d"
    if "x < 256 ^ length bs" "unat c < unat d" for x y and c d :: byte
  proof -
    have "x + 256 ^ length bs * unat c < 256 ^ length bs * Suc (unat c)"
      using that(1) by simp
    also have "\<dots> \<le> 256 ^ length bs * unat d"
      using that(2) by (intro mult_le_mono2) simp
    finally show ?thesis
      by simp
  qed
  consider "a < b" | "b < a" | "a = b"
    by (meson not_less_iff_gr_or_eq)
  then show ?case
  proof cases
    case 1
    then show ?thesis
      using less [OF l(1), of a b "le_to_nat (rev bs)"] d by (simp add: le_to_nat_append word_less_nat_alt)
  next
    case 2
    then show ?thesis
      using less [OF l(2), of b a "le_to_nat (rev as)"] d
      by (auto simp: le_to_nat_append word_less_nat_alt)
  next
    case 3
    then show ?thesis
      using "1.IH" d by (simp add: le_to_nat_append)
  qed
qed auto

lemma length_le_words: "length (le_words h) = length h div 4"
  by (induction h rule: le_words.induct) auto

lemma bind_hash_eq: "bind_hash n = bind_array n"
  by (simp add: bind_hash_def fun_eq_iff)

interpretation hash_codec: sized_codec "bind_hash n" "\<lambda>b. b" "\<lambda>v w. v" "\<lambda>b. length b = n"
  unfolding bind_hash_eq by (rule array_codec.sized_codec_axioms)

section \<open>Properties\<close>

text \<open>The hexadecimal text of a hash parses back to the hash, in either byte order, with or without the
  prefix.\<close>

theorem hash_hex_round_trip:
  assumes "length h = n"
  shows "hash_from_hex n (hash_to_hex h r p) r = Success h"
  by (rule hash_from_to_hex [OF assms])

theorem hash_hex_round_trip_witness: "hash_from_hex 2 (hash_to_hex [1, 0xAB] True True) True = Success [1, 0xAB]"
  by (rule hash_hex_round_trip) simp

text \<open>The comparison of hashes is the order of their big-endian values and is equality only on equal
  hashes.\<close>

theorem hash_order:
  assumes "length a = length b"
  shows "(memcmp a b = ord_less \<longleftrightarrow> le_to_nat (rev a) < le_to_nat (rev b)) \<and> (memcmp a b = ord_equal \<longleftrightarrow> a = b)"
  using memcmp_value [OF assms] memcmp_eq [OF assms] by blast

theorem hash_order_witness: "memcmp [1, 2] [1, 3] = ord_less \<longleftrightarrow> le_to_nat (rev [1, 2]) < le_to_nat (rev [1, 3])"
  using hash_order [of "[1, 2]" "[1, 3]"] by simp

end
