(* ===== verification/Block.thy ===== *)
theory Block
  imports Hash_Type
begin

text \<open>
  The block header of core/types/block.hpp and block.cpp and the inventory item of
  core/types/inventory.hpp and inventory.cpp. The nonce of a header is a 256 bit integer whose
  conversions to and from bytes are the ones of boost::multiprecision, which are parameters; what
  the library documents is \<open>boost_bits\<close>. A header round-trips when the top byte of its nonce
  is not zero, and does not when the nonce is a smaller number.
\<close>

section \<open>Block header\<close>

definition kBlockHeaderSerializedSize :: nat where
  "kBlockHeaderSerializedSize = 140"

record block_header =
  bh_version :: "32 word"
  bh_parent_hash :: bytes
  bh_merkle_root :: bytes
  bh_scct_root :: bytes
  bh_time :: "32 word"
  bh_bits :: "32 word"
  bh_nonce :: "256 word"
  bh_solution :: bytes

definition block_header_new :: block_header where
  "block_header_new =
    \<lparr>bh_version = 0, bh_parent_hash = hash_zero 32, bh_merkle_root = hash_zero 32, bh_scct_root = hash_zero 32,
     bh_time = 0, bh_bits = 0, bh_nonce = 0, bh_solution = []\<rparr>"

definition block_header_reset :: "block_header \<Rightarrow> block_header" where
  "block_header_reset h =
    h\<lparr>bh_version := 0, bh_parent_hash := hash_zero 32, bh_merkle_root := hash_zero 32, bh_scct_root := hash_zero 32,
      bh_time := 0, bh_bits := 0, bh_nonce := 0, bh_solution := []\<rparr>"

text \<open>The members that follow the version, up to the nonce.\<close>

definition block_header_members ::
  "(256 word \<Rightarrow> bytes) \<Rightarrow> (bytes \<Rightarrow> 256 word) \<Rightarrow> action \<Rightarrow> block_header bind_fun" where
  "block_header_members export_bits import_bits action =
    and_then (on_field bh_parent_hash (\<lambda>v. bh_parent_hash_update (\<lambda>_. v)) (bind_hash 32 action))
    (and_then (on_field bh_merkle_root (\<lambda>v. bh_merkle_root_update (\<lambda>_. v)) (bind_hash 32 action))
    (and_then (on_field bh_scct_root (\<lambda>v. bh_scct_root_update (\<lambda>_. v)) (bind_hash 32 action))
    (and_then (on_field bh_time (\<lambda>v. bh_time_update (\<lambda>_. v)) (bind_integral action))
    (and_then (on_field bh_bits (\<lambda>v. bh_bits_update (\<lambda>_. v)) (bind_integral action))
    (on_field bh_nonce (\<lambda>v. bh_nonce_update (\<lambda>_. v)) (bind_big_integral export_bits import_bits action))))))"

definition block_header_serialization ::
  "(256 word \<Rightarrow> bytes) \<Rightarrow> (bytes \<Rightarrow> 256 word) \<Rightarrow> action \<Rightarrow> block_header bind_fun" where
  "block_header_serialization export_bits import_bits action =
    and_then (on_field bh_version (\<lambda>v. bh_version_update (\<lambda>_. v)) (bind_integral action))
    (and_then (\<lambda>(h, s). (None, h, sstream_set_version (sint (bh_version h)) s))
    (and_then (block_header_members export_bits import_bits action)
    (on_field bh_solution (\<lambda>v. bh_solution_update (\<lambda>_. v)) (bind_bytes action))))"

definition compare_of :: "bool \<Rightarrow> bool \<Rightarrow> std_ordering" where
  "compare_of lt gt = (if lt then ord_less else if gt then ord_greater else ord_equal)"

fun first_difference :: "std_ordering list \<Rightarrow> std_ordering" where
  "first_difference [] = ord_equal"
| "first_difference (c # cs) = (if c \<noteq> ord_equal then c else first_difference cs)"

definition block_header_compare :: "block_header \<Rightarrow> block_header \<Rightarrow> std_ordering" where
  "block_header_compare h other =
    first_difference
     [compare_of (sint (bh_version h) < sint (bh_version other)) (sint (bh_version other) < sint (bh_version h)),
      hash_compare (bh_parent_hash h) (bh_parent_hash other),
      hash_compare (bh_merkle_root h) (bh_merkle_root other),
      hash_compare (bh_scct_root h) (bh_scct_root other),
      compare_of (bh_time h < bh_time other) (bh_time other < bh_time h),
      compare_of (bh_bits h < bh_bits other) (bh_bits other < bh_bits h),
      compare_of (bh_nonce h < bh_nonce other) (bh_nonce other < bh_nonce h)]"

section \<open>Inventory item\<close>

datatype inventory_type = kError | kTx | kBlock | kFilteredBlock

fun inventory_type_code :: "inventory_type \<Rightarrow> 32 word" where
  "inventory_type_code kError = 0"
| "inventory_type_code kTx = 1"
| "inventory_type_code kBlock = 2"
| "inventory_type_code kFilteredBlock = 3"

definition inventory_type_cast :: "32 word \<Rightarrow> inventory_type option" where
  "inventory_type_cast n =
    (if n = 0 then Some kError else if n = 1 then Some kTx else if n = 2 then Some kBlock
     else if n = 3 then Some kFilteredBlock else None)"

record inventory_item =
  inv_type :: inventory_type
  inv_identifier :: bytes

definition inventory_item_new :: inventory_item where
  "inventory_item_new = \<lparr>inv_type = kError, inv_identifier = hash_zero 32\<rparr>"

definition inventory_item_serialization :: "action \<Rightarrow> inventory_item bind_fun" where
  "inventory_item_serialization action x =
    (case x of (item, s) \<Rightarrow>
      if action = kSerialize then
        (case bind_integral action (inventory_type_code (inv_type item), s) of
          (Some e, _, t) \<Rightarrow> (Some e, item, t)
        | (None, _, t) \<Rightarrow> on_field inv_identifier (\<lambda>v. inv_identifier_update (\<lambda>_. v)) (bind_hash 32 action) (item, t))
      else
        (case bind_integral action (0 :: 32 word, s) of
          (Some e, _, t) \<Rightarrow> (Some e, item, t)
        | (None, type, t) \<Rightarrow>
            (case inventory_type_cast type of
              None \<Rightarrow> (Some (SerError kInvalidInventoryType), item, t)
            | Some ty \<Rightarrow>
                on_field inv_identifier (\<lambda>v. inv_identifier_update (\<lambda>_. v)) (bind_hash 32 action)
                  (item\<lparr>inv_type := ty\<rparr>, t))))"

section \<open>What boost::multiprecision documents\<close>

text \<open>\<open>export_bits\<close> writes the most significant byte first and only as many bytes as the value
  needs; \<open>import_bits\<close> reads all bytes, most significant first.\<close>

definition boost_bits :: "('w::len word \<Rightarrow> bytes) \<Rightarrow> (bytes \<Rightarrow> 'w word) \<Rightarrow> bool" where
  "boost_bits export_bits import_bits \<longleftrightarrow>
    (\<forall>v. export_bits v = (if v = 0 then [0] else dropWhile (\<lambda>b. b = 0) (word_to_be v))) \<and>
    (\<forall>bs. import_bits bs = be_to_word bs)"

text \<open>The values whose bytes fill the array: zero, and those with a top byte that is not zero.\<close>

definition full_width :: "'w::len word \<Rightarrow> bool" where
  "full_width v \<longleftrightarrow> v = 0 \<or> hd (word_to_be v) \<noteq> 0"

definition block_header_ok :: "block_header \<Rightarrow> bool" where
  "block_header_ok h \<longleftrightarrow> length (bh_parent_hash h) = 32 \<and> length (bh_merkle_root h) = 32 \<and> length (bh_scct_root h) = 32 \<and>
    full_width (bh_nonce h)"

definition block_header_bytes :: "block_header \<Rightarrow> bytes" where
  "block_header_bytes h =
    word_to_le (bh_version h) @ bh_parent_hash h @ bh_merkle_root h @ bh_scct_root h @ word_to_le (bh_time h) @
    word_to_le (bh_bits h) @ word_to_be (bh_nonce h) @ bh_solution h"

section \<open>Lemmas\<close>

lemma word_to_be_0: "word_to_be (0 :: 'w::len word) = replicate (LENGTH('w) div 8) 0"
proof -
  have "nat_to_le n 0 = replicate n 0" for n
    by (induction n) simp_all
  then show ?thesis
    by (simp add: word_to_be_def word_to_le_def)
qed

lemma export_full_width:
  assumes "boost_bits e i" "full_width (v :: 'w::len word)" "8 \<le> LENGTH('w)"
  shows "export_to_array e v = word_to_be v"
proof (cases "v = 0")
  case True
  have "LENGTH('w) div 8 \<noteq> 0"
    using assms(3) by (simp add: div_eq_0_iff)
  then obtain n where "LENGTH('w) div 8 = Suc n"
    using not0_implies_Suc by blast
  with True assms(1) show ?thesis
    by (simp add: export_to_array_def boost_bits_def word_to_be_0 Let_def)
next
  case False
  with assms(2) have "dropWhile (\<lambda>b. b = 0) (word_to_be v) = word_to_be v"
    by (cases "word_to_be v") (auto simp: full_width_def)
  with False assms(1) show ?thesis
    by (simp add: export_to_array_def boost_bits_def Let_def)
qed

lemma big_integral_sized_codec [codec_intros]:
  fixes e :: "'w::len word \<Rightarrow> bytes"
  assumes "boost_bits e i" "8 dvd LENGTH('w)" "8 \<le> LENGTH('w)"
  shows "sized_codec (bind_big_integral e i) word_to_be (\<lambda>v w. v) full_width"
proof (intro sized_codec.intro codec.intro reader.intro codec_axioms.intro sized_codec_axioms.intro, goal_cases)
  case (1 s w e v t)
  then show ?case
    using array_codec.safe [OF 1(1)]
    by (auto simp: bind_big_integral_def split: prod.splits option.splits)
next
  case (2 v s)
  then show ?case
    using assms by (simp add: bind_big_integral_def export_full_width write_append)
next
  case (3 v s rest w)
  let ?n = "LENGTH('w) div 8"
  have "bind_array ?n kDeserialize (replicate ?n 0, s) = (None, word_to_be v, advance ?n s)"
    using array_codec.reads [of "word_to_be v" ?n s rest] 3 by simp
  then show ?case
    using assms by (simp add: bind_big_integral_def boost_bits_def)
next
  case (4 v s)
  then show ?case by (simp add: bind_big_integral_def)
qed

definition members_bytes :: "block_header \<Rightarrow> bytes" where
  "members_bytes h = bh_parent_hash h @ bh_merkle_root h @ bh_scct_root h @ word_to_le (bh_time h) @
    word_to_le (bh_bits h) @ word_to_be (bh_nonce h)"

definition members_upd :: "block_header \<Rightarrow> block_header \<Rightarrow> block_header" where
  "members_upd v w = w\<lparr>bh_parent_hash := bh_parent_hash v, bh_merkle_root := bh_merkle_root v,
    bh_scct_root := bh_scct_root v, bh_time := bh_time v, bh_bits := bh_bits v, bh_nonce := bh_nonce v\<rparr>"

lemmas hash_member = sized_codec_on_field [OF hash_codec.sized_codec_axioms [of 32]]
lemmas integral_member = sized_codec_on_field [OF integral_codec.sized_codec_axioms]

lemma block_members_sized_codec:
  assumes "boost_bits e i"
  shows "sized_codec (block_header_members e i) members_bytes members_upd block_header_ok"
proof -
  note n = sized_codec_on_field [OF big_integral_sized_codec [OF assms], of "\<lambda>v. bh_nonce_update (\<lambda>_. v)" bh_nonce, simplified]
  note b = integral_member [of "\<lambda>v. bh_bits_update (\<lambda>_. v)" bh_bits, simplified]
  note t = integral_member [of "\<lambda>v. bh_time_update (\<lambda>_. v)" bh_time, simplified]
  note c = hash_member [of "\<lambda>v. bh_scct_root_update (\<lambda>_. v)" bh_scct_root, simplified]
  note m = hash_member [of "\<lambda>v. bh_merkle_root_update (\<lambda>_. v)" bh_merkle_root, simplified]
  note p = hash_member [of "\<lambda>v. bh_parent_hash_update (\<lambda>_. v)" bh_parent_hash, simplified]
  note all = sized_codec_and_then [OF p sized_codec_and_then [OF m sized_codec_and_then [OF c
      sized_codec_and_then [OF t sized_codec_and_then [OF b n]]]]]
  show ?thesis
    using all by (simp add: block_header_members_def [abs_def] members_bytes_def [abs_def] members_upd_def [abs_def]
        block_header_ok_def [abs_def])
qed

text \<open>A header takes 140 bytes next to its solution.\<close>

lemma length_block_header_bytes:
  "block_header_ok h \<Longrightarrow> length (block_header_bytes h) = kBlockHeaderSerializedSize + length (bh_solution h)"
  by (simp add: block_header_ok_def block_header_bytes_def kBlockHeaderSerializedSize_def)

lemma block_header_writes:
  assumes "boost_bits e i" "block_header_ok h" "length (ds_buffer s) + length (block_header_bytes h) \<le> kMaxStreamSize"
  shows "block_header_serialization e i kSerialize (h, s) =
    (None, h, append_bytes (block_header_bytes h) (sstream_set_version (sint (bh_version h)) s))"
proof -
  let ?s1 = "sstream_set_version (sint (bh_version h)) (append_bytes (word_to_le (bh_version h)) s)"
  have len: "length (block_header_bytes h) = 4 + length (members_bytes h) + length (bh_solution h)"
    by (simp add: block_header_bytes_def members_bytes_def)
  have b1: "ds_buffer ?s1 = ds_buffer s @ word_to_le (bh_version h)"
    by (simp add: sstream_set_version_def)
  have "on_field bh_version (\<lambda>v. bh_version_update (\<lambda>_. v)) (bind_integral kSerialize) (h, s) =
      (None, h, append_bytes (word_to_le (bh_version h)) s)"
    using integral_codec.writes [where v = "bh_version h" and s = s] assms(3) len by (simp add: on_field_def)
  moreover have "block_header_members e i kSerialize (h, ?s1) = (None, h, append_bytes (members_bytes h) ?s1)"
    using codec.writes [OF sized_codec.axioms(1) [OF block_members_sized_codec [OF assms(1)]] assms(2), of ?s1] assms(3) len b1
    by simp
  moreover have "bind_bytes kSerialize (bh_solution h, append_bytes (members_bytes h) ?s1) =
      (None, bh_solution h, append_bytes (bh_solution h) (append_bytes (members_bytes h) ?s1))"
    using assms(3) len b1 by (simp add: bind_bytes_def write_append)
  ultimately have "block_header_serialization e i kSerialize (h, s) =
      (None, h, append_bytes (members_bytes h @ bh_solution h) ?s1)"
    by (simp add: block_header_serialization_def on_field_def)
  then show ?thesis
    by (simp add: block_header_bytes_def members_bytes_def append_bytes_def sstream_set_version_def)
qed

lemma block_header_reads:
  assumes "boost_bits e i" "block_header_ok h" "stream_inv s" "unread s = block_header_bytes h"
  shows "block_header_serialization e i kDeserialize (w, s) =
    (None, h, advance (length (block_header_bytes h)) (sstream_set_version (sint (bh_version h)) s))"
proof -
  let ?w1 = "w\<lparr>bh_version := bh_version h\<rparr>"
  let ?s1 = "sstream_set_version (sint (bh_version h)) (advance 4 s)"
  have u: "unread s = word_to_le (bh_version h) @ members_bytes h @ bh_solution h"
    using assms(4) by (simp add: block_header_bytes_def members_bytes_def)
  have "on_field bh_version (\<lambda>v. bh_version_update (\<lambda>_. v)) (bind_integral kDeserialize) (w, s) = (None, ?w1, advance 4 s)"
    using integral_codec.reads [OF _ assms(3) u] by (simp add: on_field_def)
  moreover have s1: "stream_inv ?s1" "unread ?s1 = members_bytes h @ bh_solution h"
    using advance_prefix [OF assms(3) u] by (simp_all add: sstream_set_version_def stream_inv_def unread_def)
  then have "block_header_members e i kDeserialize (?w1, ?s1) =
      (None, members_upd h ?w1, advance (length (members_bytes h)) ?s1)"
    using codec.reads [OF sized_codec.axioms(1) [OF block_members_sized_codec [OF assms(1)]] assms(2)] by blast
  moreover have "bind_bytes kDeserialize (bh_solution (members_upd h ?w1), advance (length (members_bytes h)) ?s1) =
      (None, bh_solution h, advance (length (bh_solution h)) (advance (length (members_bytes h)) ?s1))"
    using advance_prefix [OF s1] by (simp add: bind_bytes_def read_None advance_def)
  ultimately have "block_header_serialization e i kDeserialize (w, s) =
      (None, (members_upd h ?w1)\<lparr>bh_solution := bh_solution h\<rparr>, advance (length (members_bytes h) + length (bh_solution h)) ?s1)"
    by (simp add: block_header_serialization_def on_field_def)
  then show ?thesis
    by (simp add: members_upd_def block_header_bytes_def members_bytes_def advance_def sstream_set_version_def)
qed

section \<open>A nonce that does not fill its array\<close>

lemma le_to_nat_replicate_0: "le_to_nat (replicate n 0 @ bs) = 256 ^ n * le_to_nat bs"
  by (induction n) simp_all

lemma import_export_value:
  fixes v :: "'w::len word"
  assumes "boost_bits e i" "8 dvd LENGTH('w)" "v \<noteq> 0"
  shows "unat (i (export_to_array e v)) = 256 ^ length (takeWhile (\<lambda>b. b = 0) (word_to_be v)) * unat v"
proof -
  let ?k = "length (takeWhile (\<lambda>b. b = 0) (word_to_be v))"
  let ?d = "dropWhile (\<lambda>b. b = 0) (word_to_be v)"
  have len: "length ?d + ?k = LENGTH('w) div 8"
    using arg_cong [OF takeWhile_dropWhile_id [of "\<lambda>b. b = 0" "word_to_be v"], of length]
    by (simp only: length_append length_word_to_be add.commute)
  then have e: "export_to_array e v = ?d @ replicate ?k 0"
    using assms(1,3) by (simp add: export_to_array_def boost_bits_def Let_def)
  have d: "le_to_nat (rev ?d) = unat v"
    using le_to_nat_zeroless [of "word_to_be v"] assms(2)
    by (simp add: zeroless_view_def word_to_be_def word_to_le_def le_to_nat_nat_to_le power_256 unsigned_less)
  have "le_to_nat (rev (?d @ replicate ?k 0)) = 256 ^ ?k * unat v"
    by (simp add: le_to_nat_replicate_0 d)
  moreover have "le_to_nat (rev (?d @ replicate ?k 0)) < 2 ^ LENGTH('w)"
    using le_to_nat_less [of "rev (?d @ replicate ?k 0)"] len power_256 [OF assms(2)] by (simp add: add.commute)
  ultimately have "unat (of_nat (le_to_nat (rev (?d @ replicate ?k 0))) :: 'w word) = 256 ^ ?k * unat v"
    by (simp only: unat_of_nat mod_less)
  moreover have "i (export_to_array e v) = of_nat (le_to_nat (rev (?d @ replicate ?k 0)))"
    using assms(1) unfolding e boost_bits_def be_to_word_def le_to_word_def by blast
  ultimately show ?thesis
    by (simp only:)
qed

lemma nonce_not_round_trip:
  fixes v :: "'w::len word"
  assumes "boost_bits e i" "8 dvd LENGTH('w)" "\<not> full_width v"
  shows "i (export_to_array e v) \<noteq> v"
proof
  assume *: "i (export_to_array e v) = v"
  have "v \<noteq> 0" "hd (word_to_be v) = 0"
    using assms(3) by (simp_all add: full_width_def)
  moreover from this have "word_to_be v \<noteq> []"
    using be_to_word_word_to_be [OF assms(2), of v] by (auto simp: be_to_word_def le_to_word_def)
  ultimately have "0 < length (takeWhile (\<lambda>b. b = 0) (word_to_be v))" "0 < unat v"
    by (cases "word_to_be v", auto simp: unat_gt_0)
  then have "unat v < 256 ^ length (takeWhile (\<lambda>b. b = 0) (word_to_be v)) * unat v"
    using one_less_power [of "256 :: nat" "length (takeWhile (\<lambda>b. b = 0) (word_to_be v))"] by simp
  with import_export_value [OF assms(1,2) \<open>v \<noteq> 0\<close>] * show False
    by simp
qed

section \<open>Inventory items\<close>

lemma inventory_type_cast_code [simp]: "inventory_type_cast (inventory_type_code t) = Some t"
  by (cases t) (simp_all add: inventory_type_cast_def)

lemma inventory_type_cast_SomeD: "inventory_type_cast n = Some t \<Longrightarrow> n = inventory_type_code t"
  by (auto simp: inventory_type_cast_def split: if_splits)

definition inventory_item_bytes :: "inventory_item \<Rightarrow> bytes" where
  "inventory_item_bytes item = word_to_le (inventory_type_code (inv_type item)) @ inv_identifier item"

interpretation inventory_codec: codec inventory_item_serialization inventory_item_bytes "\<lambda>v w. v"
    "\<lambda>item. length (inv_identifier item) = 32"
proof (standard, goal_cases)
  case (1 s w e v t)
  then obtain e1 n u where n: "bind_integral kDeserialize (0 :: 32 word, s) = (e1, n, u)"
    by (cases "bind_integral kDeserialize (0 :: 32 word, s)")
  note u = integral_codec.safe [OF 1(1) n]
  show ?case
  proof (cases "e1 = None \<and> inventory_type_cast n \<noteq> None")
    case True
    then obtain ty where ty: "e1 = None" "inventory_type_cast n = Some ty"
      by auto
    obtain e2 h t2 where h: "bind_hash 32 kDeserialize (inv_identifier w, u) = (e2, h, t2)"
      by (cases "bind_hash 32 kDeserialize (inv_identifier w, u)")
    with 1(2) n ty have "t2 = t"
      by (simp add: inventory_item_serialization_def on_field_def)
    with hash_codec.safe [OF stays_inv [OF u] h] u show ?thesis
      by (blast intro: stays_trans)
  next
    case False
    with 1(2) n have "t = u"
      by (auto simp: inventory_item_serialization_def split: option.splits)
    with u show ?thesis
      by simp
  qed
next
  case (2 v s)
  then show ?case
    using integral_codec.writes [where v = "inventory_type_code (inv_type v)" and s = s]
      hash_codec.writes [of "inv_identifier v" 32 "append_bytes (word_to_le (inventory_type_code (inv_type v))) s"]
    by (simp add: inventory_item_serialization_def inventory_item_bytes_def on_field_def)
next
  case (3 v s rest w)
  let ?c = "inventory_type_code (inv_type v)"
  have u: "unread s = word_to_le ?c @ inv_identifier v @ rest"
    using 3 by (simp add: inventory_item_bytes_def)
  have "bind_integral kDeserialize (0, s) = (None, ?c, advance 4 s)"
    using integral_codec.reads [OF _ 3(2) u] by simp
  moreover have "bind_hash 32 kDeserialize (inv_identifier w, advance 4 s) = (None, inv_identifier v, advance 32 (advance 4 s))"
    using hash_codec.reads [OF 3(1), of "advance 4 s" rest] advance_prefix [OF 3(2) u] 3(1) by simp
  ultimately show ?case
    using 3(1) by (simp add: inventory_item_serialization_def on_field_def inventory_item_bytes_def)
qed

text \<open>Computing the size of an item resets its type.\<close>

lemma inventory_compute_size:
  "inventory_item_serialization kComputeSize (item, s) = (None, item\<lparr>inv_type := kError\<rparr>, add_computed_size 36 s)"
  by (simp add: inventory_item_serialization_def bind_integral_def inventory_type_cast_def on_field_def bind_hash_def
      bind_array_def)

section \<open>Properties\<close>


text \<open>The conversions that boost::multiprecision documents, as functions.\<close>

definition documented_export :: "'w::len word \<Rightarrow> bytes" where
  "documented_export v = (if v = 0 then [0] else dropWhile (\<lambda>b. b = 0) (word_to_be v))"

lemma documented_bits: "boost_bits documented_export be_to_word"
  by (simp add: boost_bits_def documented_export_def)


text \<open>A nonce that is not zero and whose top byte is zero does not survive serialization: it is written
  left-aligned, and the value read back is the nonce times a power of 256.\<close>

theorem short_nonce_is_shifted:
  fixes v :: "256 word"
  assumes "boost_bits e i" "v \<noteq> 0"
  shows "unat (i (export_to_array e v)) = 256 ^ length (takeWhile (\<lambda>b. b = 0) (word_to_be v)) * unat v"
  by (rule import_export_value [OF assms(1) _ assms(2)]) simp

theorem short_nonce_is_shifted_witness:
  "unat (be_to_word (export_to_array documented_export (1 :: 256 word)) :: 256 word) =
    256 ^ length (takeWhile (\<lambda>b. b = 0) (word_to_be (1 :: 256 word))) * unat (1 :: 256 word)"
  by (rule short_nonce_is_shifted [OF documented_bits]) simp

text \<open>An inventory item is read back as it was written, and computing its size instead of writing it
  resets its type.\<close>

theorem inventory_item_round_trip:
  assumes "length (inv_identifier item) = 32" "stream_inv s" "unread s = []" "length (ds_buffer s) + 36 \<le> kMaxStreamSize"
  shows "(\<exists>t u. inventory_item_serialization kSerialize (item, s) = (None, item, t) \<and>
    inventory_item_serialization kDeserialize (w, t) = (None, item, u) \<and> unread u = []) \<and>
    inventory_item_serialization kComputeSize (item, s) = (None, item\<lparr>inv_type := kError\<rparr>, add_computed_size 36 s)"
proof -
  have "length (inventory_item_bytes item) = 36"
    using assms(1) by (simp add: inventory_item_bytes_def)
  then show ?thesis
    using inventory_codec.round_trip [OF assms(1-3)] assms(4) inventory_compute_size by simp
qed

theorem inventory_item_round_trip_witness:
  "inventory_item_serialization kComputeSize (\<lparr>inv_type = kTx, inv_identifier = hash_zero 32\<rparr>, sdata_stream_of [] kNetwork 0) =
    (None, \<lparr>inv_type = kError, inv_identifier = hash_zero 32\<rparr>, add_computed_size 36 (sdata_stream_of [] kNetwork 0))"
  using inventory_item_round_trip [of "\<lparr>inv_type = kTx, inv_identifier = hash_zero 32\<rparr>" "sdata_stream_of [] kNetwork 0"]
  by (simp add: hash_zero_def sdata_stream_of_def stream_inv_def unread_def kMaxStreamSize_eq)

end
