(* ===== verification/Amounts.thy ===== *)
theory Amounts
  imports Errors "HOL-Library.Signed_Division"
begin

text \<open>
  core/types/amounts.hpp and amounts.cpp: token amounts, their text form in units of one coin, and
  fee rates. An amount is the signed 64 bit integer it wraps; the arithmetic operators wrap around
  in two's complement (the source leaves the overflow of signed integers undefined). Reading the
  text of a valid amount returns the amount.
\<close>

section \<open>Amount\<close>

definition kCoinMaxDecimals :: nat where "kCoinMaxDecimals = 8"
definition kCoin :: int where "kCoin = 100000000"
definition kCoinMaxSupply :: int where "kCoinMaxSupply = 21000000"
definition kAmountMax :: int where "kAmountMax = kCoinMaxSupply * kCoin"
definition kCurrency :: string where "kCurrency = ''ZEN''"

text \<open>The value of a signed 64 bit integer.\<close>

definition to_int64 :: "int \<Rightarrow> int" where
  "to_int64 n = (n + 2 ^ 63) mod 2 ^ 64 - 2 ^ 63"

definition valid_money :: "int \<Rightarrow> bool" where
  "valid_money v = (v \<ge> 0 \<and> v \<le> kAmountMax)"

definition amount_add :: "int \<Rightarrow> int \<Rightarrow> int" where "amount_add a b = to_int64 (a + b)"
definition amount_sub :: "int \<Rightarrow> int \<Rightarrow> int" where "amount_sub a b = to_int64 (a - b)"
definition amount_mul :: "int \<Rightarrow> int \<Rightarrow> int" where "amount_mul a b = to_int64 (a * b)"

definition is_digit :: "char \<Rightarrow> bool" where
  "is_digit c = (48 \<le> (of_char c :: nat) \<and> (of_char c :: nat) \<le> 57)"

text \<open>\<open>boost::lexical_cast\<close> of a string of digits.\<close>

definition digits_to_nat :: "string \<Rightarrow> nat" where
  "digits_to_nat s = foldl (\<lambda>v c. v * 10 + (of_char c - 48)) 0 s"

text \<open>The groups of the pattern \<open>^(\d{0,8})(\.\d{0,8})?$\<close>.\<close>

definition match_amount :: "string \<Rightarrow> (string \<times> string) option" where
  "match_amount input =
    (let whole = takeWhile is_digit input; rest = dropWhile is_digit input
     in if length whole > 8 then None
        else if rest = [] then Some (whole, [])
        else if hd rest = CHR ''.'' \<and> list_all is_digit (tl rest) \<and> length (tl rest) \<le> kCoinMaxDecimals
        then Some (whole, rest)
        else None)"

definition amount_from_string :: "string \<Rightarrow> (error_code, int) outcome" where
  "amount_from_string input =
    (case match_amount input of
      None \<Rightarrow> Failure (Errc invalid_argument)
    | Some (whole_part, fract_part) \<Rightarrow>
        (let fract_part = (if fract_part \<noteq> [] then
               take kCoinMaxDecimals (tl fract_part) @ replicate (kCoinMaxDecimals - length (tl fract_part)) CHR ''0''
             else fract_part);
             whole = int (digits_to_nat whole_part);
             fract = int (digits_to_nat fract_part);
             value = whole * kCoin + fract
         in if \<not> valid_money value then Failure (Errc result_out_of_range) else Success value))"

section \<open>Printing\<close>

function show_nat :: "nat \<Rightarrow> string" where
  "show_nat n = (if n < 10 then [char_of (48 + n)] else show_nat (n div 10) @ [char_of (48 + n mod 10)])"
  by auto

termination
  by (relation "measure (\<lambda>n. n)") auto

declare show_nat.simps [simp del]

definition show_int :: "int \<Rightarrow> string" where
  "show_int i = (if i < 0 then CHR ''-'' # show_nat (nat (- i)) else show_nat (nat i))"

text \<open>The conversion \<open>%08i\<close> of a number that is not negative.\<close>

definition show_pad8 :: "nat \<Rightarrow> string" where
  "show_pad8 n = replicate (8 - length (show_nat n)) CHR ''0'' @ show_nat n"

text \<open>The loop that strips trailing zeroes and then a trailing decimal point, on the reversed text.\<close>

fun strip_zeroes :: "string \<Rightarrow> string" where
  "strip_zeroes (c # cs) = (if c = CHR ''0'' then strip_zeroes cs else if c = CHR ''.'' then cs else c # cs)"
| "strip_zeroes [] = []"

definition amount_format :: "int \<Rightarrow> string" where
  "amount_format v =
    (let sign = (if v < 0 then ''-'' else []);
         quot = v sdiv kCoin;
         rem = (if v < 0 then - (v smod kCoin) else v smod kCoin)
     in rev (strip_zeroes (rev (sign @ show_int quot @ ''.'' @ show_pad8 (nat rem)))))"

definition amount_to_string :: "int \<Rightarrow> string" where
  "amount_to_string v = (if v = 0 then ''0 '' @ kCurrency else amount_format v @ '' '' @ kCurrency)"

section \<open>Fee rates\<close>

text \<open>Amount per 1000 bytes.\<close>

definition fee_rate_of :: "int \<Rightarrow> nat \<Rightarrow> int" where
  "fee_rate_of paid sz = (if sz \<noteq> 0 then to_int64 (paid * 1000) sdiv to_int64 (int sz) else 0)"

definition fee_rate_fee :: "int \<Rightarrow> nat \<Rightarrow> int" where
  "fee_rate_fee rate bytes_size =
    (let ret = to_int64 (rate * to_int64 (int bytes_size)) sdiv 1000 in if ret = 0 then rate else ret)"

definition fee_rate_to_string :: "int \<Rightarrow> string" where
  "fee_rate_to_string rate = amount_to_string rate @ ''/K''"

section \<open>Digits\<close>

lemma to_int64_id: "- (2 ^ 63) \<le> n \<Longrightarrow> n < 2 ^ 63 \<Longrightarrow> to_int64 n = n"
  by (simp add: to_int64_def)

lemma of_char_digit: "n < 10 \<Longrightarrow> of_char (char_of (48 + n :: nat)) = (48 + n :: nat)"
  by simp

lemma is_digit_char: "n < 10 \<Longrightarrow> is_digit (char_of (48 + n :: nat))"
  by (simp add: is_digit_def)

lemma digits_to_nat_snoc: "digits_to_nat (s @ [c]) = digits_to_nat s * 10 + (of_char c - 48)" "digits_to_nat [] = 0"
  by (simp_all add: digits_to_nat_def)

lemma show_nat_digits: "list_all is_digit (show_nat n)"
proof (induction n rule: show_nat.induct)
  case (1 n)
  then show ?case
    by (cases "n < 10") (simp_all add: show_nat.simps [of n] is_digit_char)
qed

lemma digits_to_nat_show_nat: "digits_to_nat (show_nat n) = n"
proof (induction n rule: show_nat.induct)
  case (1 n)
  show ?case
  proof (cases "n < 10")
    case True
    then show ?thesis
      by (simp add: show_nat.simps [of n] digits_to_nat_def)
  next
    case False
    with 1 show ?thesis
      by (simp add: show_nat.simps [of n] digits_to_nat_snoc)
  qed
qed

lemma length_show_nat: "0 < k \<Longrightarrow> n < 10 ^ k \<Longrightarrow> length (show_nat n) \<le> k"
proof (induction n arbitrary: k rule: show_nat.induct)
  case (1 n)
  show ?case
  proof (cases "n < 10")
    case False
    with 1 obtain j where j: "k = Suc j" "0 < j"
      by (cases k; cases "k - 1") auto
    with 1 have "n div 10 < 10 ^ j"
      by (simp add: less_mult_imp_div_less mult.commute)
    with 1 False j show ?thesis
      by (simp add: show_nat.simps [of n])
  qed (use 1 in \<open>simp add: show_nat.simps [of n]\<close>)
qed

lemma digits_to_nat_append_zeroes: "digits_to_nat (replicate k CHR ''0'' @ s) = digits_to_nat s"
proof -
  have "foldl (\<lambda>v c. v * 10 + (of_char c - 48)) 0 (replicate k CHR ''0'') = (0 :: nat)"
    by (induction k) simp_all
  then show ?thesis
    by (simp add: digits_to_nat_def)
qed

lemma show_pad8:
  assumes "n < 10 ^ 8"
  shows "length (show_pad8 n) = 8" "list_all is_digit (show_pad8 n)" "digits_to_nat (show_pad8 n) = n"
proof -
  show "length (show_pad8 n) = 8"
    using length_show_nat [of 8 n] assms by (simp add: show_pad8_def)
  show "list_all is_digit (show_pad8 n)"
    by (simp add: show_pad8_def show_nat_digits) (simp add: list_all_iff is_digit_def)
  show "digits_to_nat (show_pad8 n) = n"
    by (simp add: show_pad8_def digits_to_nat_append_zeroes digits_to_nat_show_nat)
qed

section \<open>Reading back what is printed\<close>

lemma strip_zeroes_eq:
  "strip_zeroes (l @ CHR ''.'' # xs) =
    (let d = dropWhile (\<lambda>c. c = CHR ''0'') l in if d = [] then xs else if hd d = CHR ''.'' then tl d @ CHR ''.'' # xs else d @ CHR ''.'' # xs)"
  by (induction l) (auto simp: Let_def)

lemma not_is_digit_dot [simp]: "\<not> is_digit CHR ''.''"
  by (simp add: is_digit_def)

lemma takeWhile_digits: "list_all is_digit s \<Longrightarrow> takeWhile is_digit (s @ CHR ''.'' # t) = s"
    "list_all is_digit s \<Longrightarrow> dropWhile is_digit (s @ CHR ''.'' # t) = CHR ''.'' # t"
    "list_all is_digit s \<Longrightarrow> takeWhile is_digit s = s" "list_all is_digit s \<Longrightarrow> dropWhile is_digit s = []"
  by (induction s) simp_all

lemma match_whole: "list_all is_digit w \<Longrightarrow> length w \<le> 8 \<Longrightarrow> match_amount w = Some (w, [])"
  by (simp add: match_amount_def takeWhile_digits)

lemma match_fract:
  "list_all is_digit w \<Longrightarrow> length w \<le> 8 \<Longrightarrow> list_all is_digit f \<Longrightarrow> length f \<le> 8 \<Longrightarrow>
    match_amount (w @ CHR ''.'' # f) = Some (w, CHR ''.'' # f)"
  by (simp add: match_amount_def takeWhile_digits kCoinMaxDecimals_def)

text \<open>A padded fraction is its digits up to the last one that is not zero, and zeroes.\<close>

lemma strip_pad:
  assumes "list_all is_digit p"
  obtains f where "p = f @ replicate (length p - length f) CHR ''0''" "list_all is_digit f" "length f \<le> length p"
    "rev (strip_zeroes (rev (w @ CHR ''.'' # p))) = (if f = [] then w else w @ CHR ''.'' # f)"
proof
  let ?d = "dropWhile (\<lambda>c. c = CHR ''0'') (rev p)"
  let ?z = "takeWhile (\<lambda>c. c = CHR ''0'') (rev p)"
  have z: "?z = replicate (length ?z) CHR ''0''"
    by (rule replicate_eqI) (auto dest: set_takeWhileD)
  have p: "p = rev ?d @ rev ?z"
    using takeWhile_dropWhile_id [of "\<lambda>c. c = CHR ''0''" "rev p"] by (metis rev_append rev_rev_ident)
  then have l: "length p = length ?d + length ?z"
    by (metis length_append length_rev)
  then have "length ?z = length p - length (rev ?d)"
    by simp
  with p z show "p = rev ?d @ replicate (length p - length (rev ?d)) CHR ''0''"
    by (metis rev_replicate)
  show d: "list_all is_digit (rev ?d)"
    using assms by (auto simp: list_all_iff dest: set_dropWhileD)
  show "length (rev ?d) \<le> length p"
    using l by simp
  have "hd ?d \<noteq> CHR ''.''" if "?d \<noteq> []"
    using d that by (cases ?d) auto
  then show "rev (strip_zeroes (rev (w @ CHR ''.'' # p))) = (if rev ?d = [] then w else w @ CHR ''.'' # rev ?d)"
    by (simp add: strip_zeroes_eq Let_def)
qed

lemma amount_format_eq:
  assumes "0 < v"
  shows "amount_format v =
    rev (strip_zeroes (rev (show_nat (nat v div 10 ^ 8) @ CHR ''.'' # show_pad8 (nat v mod 10 ^ 8))))"
proof -
  have "v sdiv kCoin = v div 10 ^ 8" "v smod kCoin = v mod 10 ^ 8"
    using assms by (simp_all add: kCoin_def signed_divide_int_def signed_modulo_int_def sgn_if)
  moreover have "nat (v div 10 ^ 8) = nat v div 10 ^ 8" "nat (v mod 10 ^ 8) = nat v mod 10 ^ 8"
    using assms by (simp_all add: nat_div_distrib nat_mod_distrib)
  moreover have "0 \<le> v div 10 ^ 8"
    using assms by simp
  ultimately show ?thesis
    using assms by (simp add: amount_format_def Let_def show_int_def)
qed

lemma amount_from_format:
  assumes "0 < v" "v \<le> kAmountMax"
  shows "amount_from_string (amount_format v) = Success v"
proof -
  let ?q = "nat v div 10 ^ 8" and ?r = "nat v mod 10 ^ 8"
  have r: "?r < 10 ^ 8" and q: "?q < 10 ^ 8"
    using assms by (simp_all add: kAmountMax_def kCoin_def kCoinMaxSupply_def)
  have w: "list_all is_digit (show_nat ?q)" "length (show_nat ?q) \<le> 8"
    using length_show_nat [of 8 ?q] q by (simp_all add: show_nat_digits)
  have v: "int ?q * kCoin + int ?r = v"
    using assms(1) by (simp add: kCoin_def zdiv_int zmod_int)
  obtain f where f: "show_pad8 ?r = f @ replicate (8 - length f) CHR ''0''" "list_all is_digit f" "length f \<le> 8"
    "amount_format v = (if f = [] then show_nat ?q else show_nat ?q @ CHR ''.'' # f)"
    using strip_pad [OF show_pad8(2) [OF r], of "show_nat ?q"] show_pad8(1) [OF r] amount_format_eq [OF assms(1)]
    by metis
  show ?thesis
  proof (cases "f = []")
    case True
    have "?r = 0"
      using show_pad8(3) [OF r] f(1) True digits_to_nat_append_zeroes [of 8 "[]"] by (simp add: digits_to_nat_snoc)
    with True f(4) v w assms show ?thesis
      by (simp add: amount_from_string_def match_whole digits_to_nat_show_nat valid_money_def Let_def digits_to_nat_snoc)
  next
    case False
    have "digits_to_nat (f @ replicate (8 - length f) CHR ''0'') = ?r"
      using show_pad8(3) [OF r] f(1) by simp
    with False f v w assms show ?thesis
      by (simp add: amount_from_string_def match_fract digits_to_nat_show_nat valid_money_def Let_def kCoinMaxDecimals_def)
  qed
qed

lemma amount_to_string_round_trip:
  assumes "valid_money v"
  shows "\<exists>t. amount_to_string v = t @ '' ZEN'' \<and> amount_from_string t = Success v"
proof (cases "v = 0")
  case True
  have "amount_from_string ''0'' = Success 0"
    by code_simp
  with True show ?thesis
    by (intro exI [of _ "''0''"]) (simp add: amount_to_string_def kCurrency_def)
next
  case False
  with assms show ?thesis
    by (intro exI [of _ "amount_format v"])
      (simp add: amount_to_string_def kCurrency_def amount_from_format valid_money_def)
qed

text \<open>Parsing never yields an amount outside the supply.\<close>

lemma amount_from_string_valid: "amount_from_string t = Success v \<Longrightarrow> valid_money v"
  by (auto simp: amount_from_string_def Let_def split: option.splits if_splits)

section \<open>Properties\<close>

text \<open>The text of every valid amount, without the currency, parses back to the amount, and every text that
  parses is a valid amount.\<close>

theorem amount_round_trip:
  assumes "valid_money v"
  shows "(\<exists>t. amount_to_string v = t @ '' ZEN'' \<and> amount_from_string t = Success v) \<and>
    (\<forall>t u. amount_from_string t = Success u \<longrightarrow> valid_money u)"
  using amount_to_string_round_trip [OF assms] amount_from_string_valid by blast

theorem amount_round_trip_witness:
  "\<exists>t. amount_to_string 150000000 = t @ '' ZEN'' \<and> amount_from_string t = Success 150000000"
  using amount_round_trip [of 150000000] by (simp add: valid_money_def kAmountMax_def kCoinMaxSupply_def kCoin_def)

end
