(* ===== verification/Chain_Config.thy ===== *)
theory Chain_Config
  imports Prelude
begin

text \<open>
  core/chain/config.hpp, config.cpp and seeds.cpp: the configurations of the known chains, their
  lookup by number and by name, and their seeds. The comparison of names,
  \<open>boost::iequals\<close>, is a parameter. The JSON form is not modelled.
\<close>

datatype seal_engine_type = kNoProof | kEquihash

record chain_config =
  cc_identifier :: "32 word"
  cc_magic :: bytes
  cc_default_port :: "16 word"
  cc_seal_engine_type :: seal_engine_type
  cc_genesis_hash :: string
  cc_merkle_root_hash :: string

definition kMainNetConfig :: chain_config where
  "kMainNetConfig =
    \<lparr>cc_identifier = 1, cc_magic = [0x63, 0x61, 0x73, 0x68], cc_default_port = 9033, cc_seal_engine_type = kEquihash,
     cc_genesis_hash = ''0x0007104ccda289427919efc39dc9e4d499804b7bebc22df55f8b834301260602'',
     cc_merkle_root_hash = ''0x19612bcf00ea7611d315d7f43554fa983c6e8c30cba17e52c679e0e80abf7d42''\<rparr>"

definition kTestNetConfig :: chain_config where
  "kTestNetConfig =
    \<lparr>cc_identifier = 2, cc_magic = [0xbf, 0xf2, 0xcd, 0xe6], cc_default_port = 19033, cc_seal_engine_type = kEquihash,
     cc_genesis_hash = ''0x03e1c4bb705c871bf9bfda3e74b7f8f86bff267993c215a89d5795e3708e5e1f'',
     cc_merkle_root_hash = ''0x19612bcf00ea7611d315d7f43554fa983c6e8c30cba17e52c679e0e80abf7d42''\<rparr>"

definition kRegTestConfig :: chain_config where
  "kRegTestConfig =
    \<lparr>cc_identifier = 3, cc_magic = [0x2f, 0x54, 0xcc, 0x9d], cc_default_port = 19133, cc_seal_engine_type = kEquihash,
     cc_genesis_hash = ''0x0da5ee723b7923feb580518541c6f098206330dbc711a6678922c11f2ccf1abb'',
     cc_merkle_root_hash = ''0x19612bcf00ea7611d315d7f43554fa983c6e8c30cba17e52c679e0e80abf7d42''\<rparr>"

definition kKnownChainConfigs :: "(string \<times> chain_config) list" where
  "kKnownChainConfigs =
    [(''mainnet'', kMainNetConfig), (''testnet'', kTestNetConfig), (''regtest'', kRegTestConfig)]"

definition lookup_known_chain :: "32 word \<Rightarrow> (string \<times> chain_config) option" where
  "lookup_known_chain identifier = find (\<lambda>p. cc_identifier (snd p) = identifier) kKnownChainConfigs"

definition lookup_known_chain_by_name :: "(string \<Rightarrow> string \<Rightarrow> bool) \<Rightarrow> string \<Rightarrow> (string \<times> chain_config) option" where
  "lookup_known_chain_by_name iequals identifier = find (\<lambda>p. iequals (fst p) identifier) kKnownChainConfigs"

definition lookup_known_chain_name :: "32 word \<Rightarrow> string" where
  "lookup_known_chain_name identifier =
    (case lookup_known_chain identifier of None \<Rightarrow> ''unknown'' | Some chain \<Rightarrow> fst chain)"

definition get_known_chains_map :: "string \<rightharpoonup> 32 word" where
  "get_known_chains_map = foldl (\<lambda>m p. m(fst p \<mapsto> cc_identifier (snd p))) Map.empty kKnownChainConfigs"

definition kMainNetSeeds :: "string list" where
  "kMainNetSeeds = [''mainnet.horizen.global'', ''mainnet.zensystem.io'', ''node1.zenchain.info'']"

definition kTestNetSeeds :: "string list" where
  "kTestNetSeeds = [''testnet.horizen.global'', ''testnet.zensystem.io'', ''node1.zenchain.info'']"

definition kRegTestSeeds :: "string list" where
  "kRegTestSeeds = []"

text \<open>\<open>None\<close> is the failed assertion on an unknown chain.\<close>

definition get_chain_seeds :: "chain_config \<Rightarrow> string list option" where
  "get_chain_seeds config =
    (if cc_identifier config = 1 then Some kMainNetSeeds
     else if cc_identifier config = 2 then Some kTestNetSeeds
     else if cc_identifier config = 3 then Some kRegTestSeeds
     else None)"

lemmas known_chain_defs = kKnownChainConfigs_def kMainNetConfig_def kTestNetConfig_def kRegTestConfig_def

text \<open>The position of a known chain is its number minus one, which its JSON form relies on.\<close>

lemma known_chain_position:
  "i < length kKnownChainConfigs \<Longrightarrow> cc_identifier (snd (kKnownChainConfigs ! i)) = of_nat (i + 1)"
  by (auto simp: known_chain_defs less_Suc_eq nth_Cons' numeral_eq_Suc)

lemma known_chains_agree:
  assumes "\<And>a b. iequals a b \<longleftrightarrow> lower a = lower b"
    and "lower ''mainnet'' \<noteq> lower ''testnet''" "lower ''mainnet'' \<noteq> lower ''regtest''" "lower ''testnet'' \<noteq> lower ''regtest''"
    and "lookup_known_chain i = Some (name, config)"
  shows "lookup_known_chain_by_name iequals name = Some (name, config)" "get_known_chains_map name = Some i"
    "get_chain_seeds config \<noteq> None" "cc_identifier config = i"
  using assms by (auto simp: lookup_known_chain_def lookup_known_chain_by_name_def get_known_chains_map_def
      get_chain_seeds_def known_chain_defs split: if_splits)

lemma magics_distinct: "distinct (map (cc_magic \<circ> snd) kKnownChainConfigs)"
  by (simp add: known_chain_defs)

section \<open>Properties\<close>

text \<open>The lookups of a known chain by number, by name and in the map of known chains agree, every known
  chain has seeds, and the network magics differ.\<close>

theorem known_chain_lookups_agree:
  assumes "\<And>a b. iequals a b \<longleftrightarrow> lower a = lower b"
    and "lower ''mainnet'' \<noteq> lower ''testnet''" "lower ''mainnet'' \<noteq> lower ''regtest''" "lower ''testnet'' \<noteq> lower ''regtest''"
    and "lookup_known_chain i = Some (name, config)"
  shows "lookup_known_chain_by_name iequals name = Some (name, config) \<and> get_known_chains_map name = Some i \<and>
    get_chain_seeds config \<noteq> None \<and> cc_identifier config = i \<and> distinct (map (cc_magic \<circ> snd) kKnownChainConfigs)"
  using known_chains_agree [of iequals lower, OF assms] magics_distinct by blast

theorem known_chain_lookups_agree_witness:
  "lookup_known_chain_by_name (=) ''testnet'' = Some (''testnet'', kTestNetConfig) \<and> get_known_chains_map ''testnet'' = Some 2"
  using known_chain_lookups_agree [of "(=)" id 2 "''testnet''" kTestNetConfig]
  by (simp add: lookup_known_chain_def known_chain_defs)

end
