(* ===== verification/Addresses.thy ===== *)
theory Addresses
  imports Serialize Complex_Main
begin

unbundle bit_operations_syntax

text \<open>
  infra/network/addresses.hpp and addresses.cpp: IP addresses, endpoints, subnets and the services
  that nodes advertise. An address of boost::asio is its value, 4 or 16 bytes in network order; the
  classification predicates of the library are the parameter \<open>asio\<close>. The text forms of
  addresses (regular expressions over the parsers of the library) are not modelled; the prefix
  lengths of subnets are.
\<close>

section \<open>Addresses\<close>

datatype ip_address = V4 "32 word" | V6 "128 word"

text \<open>The predicates of \<open>boost::asio::ip::address_v4\<close> and \<open>address_v6\<close>.\<close>

record asio =
  asio_is_loopback :: "ip_address \<Rightarrow> bool"
  asio_is_multicast :: "ip_address \<Rightarrow> bool"
  asio_is_unspecified :: "ip_address \<Rightarrow> bool"

datatype reservation =
    kNotReserved | kRFC1918 | kRFC2544 | kRFC6598 | kRFC5737 | kRFC3927 | kRFC3849 | kRFC3964
  | kRFC4193 | kRFC4380 | kRFC4843 | kRFC4862 | kRFC6052 | kRFC6145

datatype ip_address_type = kIPv4 | kIPv6

fun ip_to_bytes :: "ip_address \<Rightarrow> bytes" where
  "ip_to_bytes (V4 w) = word_to_be w"
| "ip_to_bytes (V6 w) = word_to_be w"

fun is_v4 :: "ip_address \<Rightarrow> bool" where
  "is_v4 (V4 w) = True"
| "is_v4 (V6 w) = False"

fun ip_get_type :: "ip_address \<Rightarrow> ip_address_type" where
  "ip_get_type (V4 w) = kIPv4"
| "ip_get_type (V6 w) = kIPv6"

fun ip_is_any :: "ip_address \<Rightarrow> bool" where
  "ip_is_any (V4 w) = (w = 0)"
| "ip_is_any (V6 w) = (w = 0)"

definition ip_is_valid :: "asio \<Rightarrow> ip_address \<Rightarrow> bool" where
  "ip_is_valid asio a = (\<not> (ip_is_any a \<or> asio_is_unspecified asio a))"

definition address_v4_reservation :: "bytes \<Rightarrow> reservation" where
  "address_v4_reservation b =
    (let ret = kNotReserved;
         ret = (if b ! 0 = 10 \<or> (b ! 0 = 172 \<and> b ! 1 \<ge> 16 \<and> b ! 1 \<le> 31) \<or> (b ! 0 = 192 \<and> b ! 1 = 168)
                then kRFC1918 else ret);
         ret = (if b ! 0 = 192 \<and> (b ! 1 = 18 \<or> b ! 1 = 19) then kRFC2544 else ret);
         ret = (if b ! 0 = 100 \<and> (b ! 1 \<ge> 64 \<and> b ! 1 \<le> 127) then kRFC6598 else ret);
         ret = (if (b ! 0 = 192 \<and> b ! 1 = 0 \<and> b ! 2 = 2) \<or> (b ! 0 = 198 \<and> b ! 1 = 51 \<and> b ! 2 = 100) \<or>
                   (b ! 0 = 203 \<and> b ! 1 = 0 \<and> b ! 2 = 113)
                then kRFC5737 else ret);
         ret = (if b ! 0 = 169 \<and> b ! 1 = 254 then kRFC3927 else ret)
     in ret)"

definition address_v6_reservation :: "bytes \<Rightarrow> reservation" where
  "address_v6_reservation b =
    (let ret = kNotReserved;
         ret = (if b ! 0 = 0x20 \<and> b ! 1 = 0x01 \<and> b ! 2 = 0x0D \<and> b ! 3 = 0xB8 then kRFC3849 else ret);
         ret = (if b ! 0 = 0x20 \<and> b ! 1 = 0x02 then kRFC3964 else ret);
         ret = (if b ! 0 = 0xFC \<or> b ! 0 = 0xFD then kRFC4193 else ret);
         ret = (if b ! 0 = 0x20 \<and> b ! 1 = 0x01 \<and> b ! 2 = 0x00 \<and> b ! 3 = 0x00 then kRFC4380 else ret);
         ret = (if b ! 0 = 0x20 \<and> b ! 1 = 0x01 \<and> b ! 2 = 0x00 \<and> b ! 3 AND 0xF0 = 0x10 then kRFC4843 else ret);
         ret = (if b ! 0 = 0xFE \<and> b ! 1 = 0x80 then kRFC4862 else ret);
         ret = (if b ! 0 = 0x00 \<and> b ! 1 = 0x64 \<and> b ! 2 = 0xFF \<and> b ! 3 = 0x9B then kRFC6052 else ret);
         ret = (if b ! 0 = 0x00 \<and> b ! 1 = 0x00 \<and> b ! 2 = 0xFF \<and> b ! 3 = 0xFF \<and>
                   list_all (\<lambda>i. b ! i = 0x00) [4..<16]
                then kRFC6145 else ret)
     in ret)"

definition address_reservation :: "asio \<Rightarrow> ip_address \<Rightarrow> reservation" where
  "address_reservation asio a =
    (if asio_is_unspecified asio a then kNotReserved
     else if is_v4 a then address_v4_reservation (ip_to_bytes a) else address_v6_reservation (ip_to_bytes a))"

definition ip_is_reserved :: "asio \<Rightarrow> ip_address \<Rightarrow> bool" where
  "ip_is_reserved asio a = (address_reservation asio a \<noteq> kNotReserved)"

definition ip_is_routable :: "asio \<Rightarrow> ip_address \<Rightarrow> bool" where
  "ip_is_routable asio a =
    (if \<not> ip_is_valid asio a \<or> asio_is_loopback asio a then False
     else address_reservation asio a \<notin>
       {kRFC1918, kRFC2544, kRFC3927, kRFC4862, kRFC6598, kRFC5737, kRFC4193, kRFC4843, kRFC3849})"

text \<open>\<open>SDataStream::bind\<close> of an address: always 16 bytes, an IPv4 address being mapped.\<close>

definition v4_mapped :: "32 word \<Rightarrow> bytes" where
  "v4_mapped w = replicate 10 0x00 @ [0xff, 0xff] @ word_to_be w"

definition address_wire_bytes :: "ip_address \<Rightarrow> bytes" where
  "address_wire_bytes a = (case a of V4 w \<Rightarrow> v4_mapped w | V6 w \<Rightarrow> word_to_be w)"

definition address_of_wire :: "bytes \<Rightarrow> ip_address" where
  "address_of_wire b =
    (if (le_to_word (take 8 b) :: 64 word) = 0 then V4 (be_to_word (drop 12 b)) else V6 (be_to_word b))"

definition bind_address :: "action \<Rightarrow> ip_address bind_fun" where
  "bind_address action x =
    (case x of (object, s) \<Rightarrow>
      (case action of
        kComputeSize \<Rightarrow> (None, object, add_computed_size 16 s)
      | kSerialize \<Rightarrow> (case bind_array 16 action (address_wire_bytes object, s) of (e, b, t) \<Rightarrow> (e, object, t))
      | kDeserialize \<Rightarrow>
          (case bind_array 16 action (replicate 16 0, s) of
            (Some e, b, t) \<Rightarrow> (Some e, object, t)
          | (None, b, t) \<Rightarrow> (None, address_of_wire b, t))))"

section \<open>Endpoints\<close>

record ip_endpoint =
  ep_address :: ip_address
  ep_port :: "16 word"

definition ip_endpoint_new :: ip_endpoint where
  "ip_endpoint_new = \<lparr>ep_address = V4 0, ep_port = 0\<rparr>"

definition endpoint_to_bytes :: "asio \<Rightarrow> ip_endpoint \<Rightarrow> bytes" where
  "endpoint_to_bytes asio e =
    (if ip_is_valid asio (ep_address e) then ip_to_bytes (ep_address e) else []) @
    [ucast (drop_bit 8 (ep_port e)), ucast (ep_port e AND 0xFF)]"

definition bswap_16 :: "16 word \<Rightarrow> 16 word" where
  "bswap_16 w = le_to_word (rev (word_to_le w))"

definition bind_port :: "action \<Rightarrow> 16 word bind_fun" where
  "bind_port action = on_field bswap_16 (\<lambda>v _. bswap_16 v) (bind_integral action)"

definition endpoint_serialization :: "action \<Rightarrow> ip_endpoint bind_fun" where
  "endpoint_serialization action =
    and_then (on_field ep_address (\<lambda>v. ep_address_update (\<lambda>_. v)) (bind_address action))
    (on_field ep_port (\<lambda>v. ep_port_update (\<lambda>_. v)) (bind_port action))"

definition endpoint_is_valid :: "asio \<Rightarrow> ip_endpoint \<Rightarrow> bool" where
  "endpoint_is_valid asio e = (ip_is_valid asio (ep_address e) \<and> (ep_port e > 1 \<and> ep_port e < 0xFFFF))"

definition endpoint_is_routable :: "asio \<Rightarrow> ip_endpoint \<Rightarrow> bool" where
  "endpoint_is_routable asio e = (endpoint_is_valid asio e \<and> ip_is_routable asio (ep_address e))"

section \<open>Subnets\<close>

record ip_subnet =
  sn_base_address :: ip_address
  sn_prefix_length :: nat

definition subnet_is_valid :: "asio \<Rightarrow> ip_subnet \<Rightarrow> bool" where
  "subnet_is_valid asio n =
    (ip_is_valid asio (sn_base_address n) \<and>
     (sn_prefix_length n > 0 \<and> sn_prefix_length n \<le> (if is_v4 (sn_base_address n) then 32 else 128)))"

definition v4_mask :: "nat \<Rightarrow> 32 word" where
  "v4_mask prefix_length = push_bit (32 - prefix_length) 0xFFFFFFFF"

definition v6_mask :: "nat \<Rightarrow> bytes" where
  "v6_mask prefix_length =
    (let mask = map (\<lambda>i. if i < prefix_length div 8 then 0xFF else 0) [0..<16]
     in if prefix_length mod 8 \<noteq> 0 then mask[prefix_length div 8 := 0xFF AND push_bit (8 - prefix_length mod 8) 0xFF]
        else mask)"

definition subnet_contains_address :: "asio \<Rightarrow> ip_subnet \<Rightarrow> ip_address \<Rightarrow> bool" where
  "subnet_contains_address asio n address =
    (if \<not> subnet_is_valid asio n \<or> (asio_is_unspecified asio address \<or> asio_is_loopback asio address) then False
     else
      (case (sn_base_address n, address) of
        (V4 base, V4 a) \<Rightarrow> a AND v4_mask (sn_prefix_length n) = base
      | (V6 base, V6 a) \<Rightarrow>
          list_all (\<lambda>i. word_to_be a ! i AND v6_mask (sn_prefix_length n) ! i = word_to_be base ! i) [0..<16]
      | _ \<Rightarrow> False))"

definition subnet_contains :: "asio \<Rightarrow> ip_subnet \<Rightarrow> ip_address \<Rightarrow> bool" where
  "subnet_contains asio n address =
    (if \<not> subnet_is_valid asio n \<or> \<not> ip_is_valid asio address then False
     else subnet_contains_address asio n address)"

text \<open>A shift of a 32 bit integer by 32 is undefined; \<open>None\<close> stands for it.\<close>

definition calculate_subnet_base_address :: "ip_address \<Rightarrow> nat \<Rightarrow> (error_code, ip_address) outcome option" where
  "calculate_subnet_base_address address prefix_length =
    (case address of
      V4 a \<Rightarrow>
        if prefix_length > 32 then Some (Failure (Errc value_too_large))
        else if prefix_length = 0 then None
        else Some (Success (V4 (v4_mask prefix_length AND a)))
    | V6 a \<Rightarrow>
        if prefix_length > 128 then Some (Failure (Errc value_too_large))
        else Some (Success (V6 (be_to_word (map2 (AND) (word_to_be a) (v6_mask prefix_length))))))"

definition calculate_subnet_base :: "asio \<Rightarrow> ip_address \<Rightarrow> nat \<Rightarrow> (error_code, ip_address) outcome option" where
  "calculate_subnet_base asio address prefix_length =
    (if \<not> ip_is_valid asio address then Some (Failure (Errc invalid_argument))
     else calculate_subnet_base_address address prefix_length)"

text \<open>The groups of \<open>^([0-9]{1,3}).([0-9]{1,3}).([0-9]{1,3}).([0-9]{1,3})$\<close>: the dot matches
  any character but a line terminator, and the first of the greedy choices of lengths is taken.\<close>

definition is_decimal :: "char \<Rightarrow> bool" where
  "is_decimal c = (48 \<le> (of_char c :: nat) \<and> (of_char c :: nat) \<le> 57)"

definition any_char :: "char \<Rightarrow> bool" where
  "any_char c = ((of_char c :: nat) \<notin> {10, 13})"

definition split_dotted :: "string \<Rightarrow> nat \<times> nat \<times> nat \<times> nat \<Rightarrow> string list option" where
  "split_dotted s n =
    (case n of (a, b, c, d) \<Rightarrow>
      let g1 = take a s; g2 = take b (drop (a + 1) s); g3 = take c (drop (a + b + 2) s); g4 = drop (a + b + c + 3) s
      in if length s = a + b + c + d + 3 \<and> list_all is_decimal (g1 @ g2 @ g3 @ g4) \<and>
            any_char (s ! a) \<and> any_char (s ! (a + b + 1)) \<and> any_char (s ! (a + b + c + 2))
         then Some [g1, g2, g3, g4] else None)"

definition dotted_lengths :: "(nat \<times> nat \<times> nat \<times> nat) list" where
  "dotted_lengths =
    concat (map (\<lambda>a. concat (map (\<lambda>b. concat (map (\<lambda>c. map (\<lambda>d. (a, b, c, d)) [3, 2, 1]) [3, 2, 1])) [3, 2, 1])) [3, 2, 1])"

definition match_dotted :: "string \<Rightarrow> string list option" where
  "match_dotted s =
    (case find (\<lambda>n. split_dotted s n \<noteq> None) dotted_lengths of None \<Rightarrow> None | Some n \<Rightarrow> split_dotted s n)"

definition decimal_to_nat :: "string \<Rightarrow> nat" where
  "decimal_to_nat s = foldl (\<lambda>v c. v * 10 + (of_char c - 48)) 0 s"

definition popcount :: "nat \<Rightarrow> nat" where
  "popcount n = length (filter (bit n) [0..<16])"

fun mask_octets :: "nat list \<Rightarrow> bool \<Rightarrow> nat \<Rightarrow> (error_code, nat) outcome" where
  "mask_octets [] zero_found ret = Success ret"
| "mask_octets (octet # octets) zero_found ret =
    (if octet = 0 then mask_octets octets True ret
     else if octet \<in> {128, 192, 224, 240, 248, 252, 254, 255} then
       (if zero_found then Failure (Errc illegal_byte_sequence)
        else mask_octets octets zero_found (ret + popcount octet))
     else Failure (Errc invalid_argument))"

definition parse_prefix_length :: "string \<Rightarrow> (error_code, nat) outcome" where
  "parse_prefix_length input =
    (if input = [] then Failure (Errc invalid_argument)
     else case match_dotted input of
       Some groups \<Rightarrow> mask_octets (map decimal_to_nat groups) False 0
     | None \<Rightarrow>
         if 1 \<le> length input \<and> length input \<le> 3 \<and> list_all is_decimal input then
           (let ret = decimal_to_nat input in if ret > 128 then Failure (Errc value_too_large) else Success ret)
         else Failure (Errc invalid_argument))"

primrec split_slash :: "string \<Rightarrow> string list" where
  "split_slash [] = [[]]"
| "split_slash (c # cs) =
    (if c = CHR ''/'' then [] # split_slash cs else (c # hd (split_slash cs)) # tl (split_slash cs))"

text \<open>\<open>IPSubNet::from_string\<close>; the parser of an address is a parameter.\<close>

definition subnet_from_string :: "(string \<Rightarrow> (error_code, ip_address) outcome) \<Rightarrow> string \<Rightarrow> (error_code, ip_subnet) outcome" where
  "subnet_from_string address_from_string input =
    (if input = [] then Success \<lparr>sn_base_address = V4 0, sn_prefix_length = 0\<rparr>
     else
      let parts = split_slash input
      in if length parts > 2 then Failure (Errc invalid_argument)
         else
          (case address_from_string (parts ! 0) of
            Failure e \<Rightarrow> Failure e
          | Success a \<Rightarrow>
              if length parts = 1 then
                Success \<lparr>sn_base_address = a, sn_prefix_length = (if is_v4 a then 32 else 128)\<rparr>
              else
                (case parse_prefix_length (parts ! 1) of
                  Failure e \<Rightarrow> Failure e
                | Success p \<Rightarrow>
                    if is_v4 a \<and> p > 32 then Failure (Errc value_too_large)
                    else Success \<lparr>sn_base_address = a, sn_prefix_length = p\<rparr>)))"

section \<open>Services\<close>

text \<open>Times are seconds since the epoch. On the wire they are 32 bit; the member is assigned from the
  32 bit value on every action.\<close>

definition bind_seconds :: "action \<Rightarrow> int bind_fun" where
  "bind_seconds action = on_field (\<lambda>t. word_of_int t :: 32 word) (\<lambda>v _. uint v) (bind_integral action)"

definition kTimeInit :: int where
  "kTimeInit = 100000000"

record node_service =
  ns_time :: int
  ns_services :: "64 word"
  ns_endpoint :: ip_endpoint

definition node_service_new :: node_service where
  "node_service_new = \<lparr>ns_time = kTimeInit, ns_services = 0, ns_endpoint = ip_endpoint_new\<rparr>"

definition node_service_serialization :: "action \<Rightarrow> node_service bind_fun" where
  "node_service_serialization action =
    and_then (on_field ns_time (\<lambda>v. ns_time_update (\<lambda>_. v)) (bind_seconds action))
    (and_then (on_field ns_services (\<lambda>v. ns_services_update (\<lambda>_. v)) (bind_integral action))
    (on_field ns_endpoint (\<lambda>v. ns_endpoint_update (\<lambda>_. v)) (endpoint_serialization action)))"

definition version_node_service_serialization :: "action \<Rightarrow> node_service bind_fun" where
  "version_node_service_serialization action =
    and_then (on_field ns_services (\<lambda>v. ns_services_update (\<lambda>_. v)) (bind_integral action))
    (on_field ns_endpoint (\<lambda>v. ns_endpoint_update (\<lambda>_. v)) (endpoint_serialization action))"

record node_service_info =
  nsi_service :: node_service
  nsi_user_agent :: bytes
  nsi_origin :: ip_address
  nsi_last_connection_attempt :: int
  nsi_last_connection_success :: int
  nsi_connection_attempts :: "32 word"
  nsi_random_pos :: "32 word"
  nsi_tried_ref :: "32 word option"
  nsi_new_refs :: "32 word set"

definition node_service_info_new :: "node_service \<Rightarrow> ip_address \<Rightarrow> node_service_info" where
  "node_service_info_new service source =
    \<lparr>nsi_service = service, nsi_user_agent = [], nsi_origin = source, nsi_last_connection_attempt = 0,
     nsi_last_connection_success = 0, nsi_connection_attempts = 0, nsi_random_pos = 0, nsi_tried_ref = None,
     nsi_new_refs = {}\<rparr>"

definition node_service_info_serialization :: "action \<Rightarrow> node_service_info bind_fun" where
  "node_service_info_serialization action =
    and_then (on_field nsi_service (\<lambda>v. nsi_service_update (\<lambda>_. v)) (node_service_serialization action))
    (and_then (on_field nsi_user_agent (\<lambda>v. nsi_user_agent_update (\<lambda>_. v)) (bind_string action))
    (and_then (on_field nsi_origin (\<lambda>v. nsi_origin_update (\<lambda>_. v)) (bind_address action))
    (and_then (on_field nsi_last_connection_attempt (\<lambda>v. nsi_last_connection_attempt_update (\<lambda>_. v)) (bind_seconds action))
    (and_then (on_field nsi_last_connection_success (\<lambda>v. nsi_last_connection_success_update (\<lambda>_. v)) (bind_seconds action))
    (and_then (on_field nsi_connection_attempts (\<lambda>v. nsi_connection_attempts_update (\<lambda>_. v)) (bind_integral action))
    (on_field nsi_random_pos (\<lambda>v. nsi_random_pos_update (\<lambda>_. v)) (bind_integral action)))))))"

definition kMinute :: int where
  "kMinute = 60"

definition kDay :: int where
  "kDay = 86400"

definition kMaxDaysSinceLastSeen :: int where
  "kMaxDaysSinceLastSeen = 30 * kDay"

definition kNewPeerMaxRetries :: "32 word" where
  "kNewPeerMaxRetries = 3"

definition kRecentConnectionDays :: int where
  "kRecentConnectionDays = 7 * kDay"

definition kMaxReconnectionFailures :: "32 word" where
  "kMaxReconnectionFailures = 10"

definition is_bad :: "int \<Rightarrow> node_service_info \<Rightarrow> bool" where
  "is_bad now i =
    (if nsi_last_connection_attempt i > now - kMinute then False
     else if ns_time (nsi_service i) > now + 10 * kMinute then True
     else if ns_time (nsi_service i) < now - kMaxDaysSinceLastSeen then True
     else if nsi_last_connection_success i = 0 \<and> nsi_connection_attempts i > kNewPeerMaxRetries then True
     else if nsi_last_connection_success i < now - kRecentConnectionDays \<and>
             nsi_connection_attempts i > kMaxReconnectionFailures then True
     else False)"

text \<open>The chance is a \<open>double\<close> in the source; here it is the rational number that the
  operations approximate.\<close>

definition get_chance :: "int \<Rightarrow> node_service_info \<Rightarrow> rat" where
  "get_chance now i =
    (if is_bad now i then 0
     else
      let ret = 1;
          ret = (if now - nsi_last_connection_attempt i < 10 * kMinute then ret * (1 / 100) else ret);
          ret = (if nsi_connection_attempts i > 0 then ret * (66 / 100) ^ min (unat (nsi_connection_attempts i)) 8 else ret)
      in ret)"

section \<open>The wire formats\<close>

text \<open>An IPv6 address is carried when its first 8 bytes are not all zero.\<close>

definition address_ok :: "ip_address \<Rightarrow> bool" where
  "address_ok a \<longleftrightarrow> (case a of V4 w \<Rightarrow> True | V6 w \<Rightarrow> 2 ^ 64 \<le> w)"

definition seconds_ok :: "int \<Rightarrow> bool" where
  "seconds_ok t \<longleftrightarrow> 0 \<le> t \<and> t < 2 ^ 32"

definition endpoint_bytes :: "ip_endpoint \<Rightarrow> bytes" where
  "endpoint_bytes e = address_wire_bytes (ep_address e) @ word_to_be (ep_port e)"

definition node_service_bytes :: "node_service \<Rightarrow> bytes" where
  "node_service_bytes n =
    word_to_le (word_of_int (ns_time n) :: 32 word) @ word_to_le (ns_services n) @ endpoint_bytes (ns_endpoint n)"

definition node_service_ok :: "node_service \<Rightarrow> bool" where
  "node_service_ok n \<longleftrightarrow> seconds_ok (ns_time n) \<and> address_ok (ep_address (ns_endpoint n))"

lemma le_to_nat_eq_0: "le_to_nat bs = 0 \<longleftrightarrow> bs = replicate (length bs) 0"
  by (induction bs) (auto simp: unat_eq_0)

lemma le_to_nat_zeros [simp]: "le_to_nat (replicate n 0) = 0"
  by (simp add: le_to_nat_eq_0)

lemma length_address_wire_bytes [simp]: "length (address_wire_bytes a) = 16"
  by (cases a) (simp_all add: address_wire_bytes_def v4_mapped_def)

lemma be_split: "length bs = 16 \<Longrightarrow> le_to_nat (rev bs) = le_to_nat (rev (drop 8 bs)) + 2 ^ 64 * le_to_nat (rev (take 8 bs))"
  using le_to_nat_append [of "rev (drop 8 bs)" "rev (take 8 bs)"] by (simp flip: rev_append)

lemma first_eight_zero:
  assumes "length bs = 16"
  shows "(le_to_word (take 8 bs) :: 64 word) = 0 \<longleftrightarrow> le_to_nat (rev bs) < 2 ^ 64"
proof -
  have a: "le_to_nat (rev (drop 8 bs)) < 2 ^ 64"
    using le_to_nat_less [of "rev (drop 8 bs)"] assms by simp
  have b: "le_to_nat (take 8 bs) < 2 ^ 64"
    using le_to_nat_less [of "take 8 bs"] assms by simp
  have "(le_to_word (take 8 bs) :: 64 word) = 0 \<longleftrightarrow> le_to_nat (take 8 bs) = 0"
    using b by (simp add: le_to_word_def word_of_nat_eq_0_iff nat_dvd_not_less) (use nat_dvd_not_less in auto)
  also have "\<dots> \<longleftrightarrow> take 8 bs = replicate 8 0"
    using assms by (simp add: le_to_nat_eq_0)
  also have "\<dots> \<longleftrightarrow> le_to_nat (rev (take 8 bs)) = 0"
    unfolding le_to_nat_eq_0 using assms rev_swap [of "take 8 bs" "replicate 8 0"] by simp
  also have "\<dots> \<longleftrightarrow> le_to_nat (rev bs) < 2 ^ 64"
    using a unfolding be_split [OF assms] by (cases "le_to_nat (rev (take 8 bs))") simp_all
  finally show ?thesis .
qed

lemma le_to_nat_word_to_be: "8 dvd LENGTH('w) \<Longrightarrow> le_to_nat (rev (word_to_be (w :: 'w::len word))) = unat w"
  by (simp add: word_to_be_def word_to_le_def le_to_nat_nat_to_le power_256 unsigned_less)

text \<open>An IPv6 address below 2^64 is read back as an IPv4 address, its last four bytes.\<close>

lemma address_of_wire_bytes:
  "address_of_wire (address_wire_bytes a) = (case a of V4 w \<Rightarrow> V4 w | V6 w \<Rightarrow> if w < 2 ^ 64 then V4 (ucast w) else V6 w)"
proof (cases a)
  case (V4 w)
  have "(le_to_word (take 8 (v4_mapped w)) :: 64 word) = 0"
    by (simp add: v4_mapped_def le_to_word_def)
  then show ?thesis
    using V4 by (simp add: address_of_wire_def address_wire_bytes_def v4_mapped_def)
next
  case (V6 w)
  have z: "(le_to_word (take 8 (word_to_be w)) :: 64 word) = 0 \<longleftrightarrow> w < 2 ^ 64"
    using first_eight_zero [of "word_to_be w"] by (simp add: le_to_nat_word_to_be word_less_nat_alt)
  have "rev (drop 12 (word_to_be w)) = take 4 (word_to_le w)"
    by (simp add: word_to_be_def rev_drop)
  also have "\<dots> = nat_to_le 4 (unat w)"
    by (simp add: word_to_le_def take_nat_to_le)
  finally have "(be_to_word (drop 12 (word_to_be w)) :: 32 word) = of_nat (unat w mod 2 ^ 32)"
    by (simp add: be_to_word_def le_to_word_def le_to_nat_nat_to_le)
  also have "\<dots> = ucast w"
    by (rule word_unat_eq_iff [THEN iffD2]) (simp add: unat_of_nat unsigned_ucast_eq take_bit_eq_mod)
  finally show ?thesis
    using V6 z by (simp add: address_of_wire_def address_wire_bytes_def)
qed

lemma address_of_wire_ok: "address_ok a \<Longrightarrow> address_of_wire (address_wire_bytes a) = a"
  by (auto simp: address_of_wire_bytes address_ok_def split: ip_address.splits)

interpretation address_codec: sized_codec bind_address address_wire_bytes "\<lambda>v w. v" address_ok
proof (standard, goal_cases)
  case (1 s w e v t)
  then show ?case
    using array_codec.safe [OF 1(1), of 16 "replicate 16 0"]
    by (auto simp: bind_address_def split: prod.splits option.splits)
next
  case (2 v s)
  then show ?case
    using array_codec.writes [of "address_wire_bytes v" 16 s] by (simp add: bind_address_def)
next
  case (3 v s rest w)
  have "bind_array 16 kDeserialize (replicate 16 0, s) = (None, address_wire_bytes v, advance 16 s)"
    using array_codec.reads [of "address_wire_bytes v" 16 s rest] 3 by simp
  then show ?case
    using 3(1) by (simp add: bind_address_def address_of_wire_ok)
next
  case (4 v s)
  then show ?case by (simp add: bind_address_def)
qed

lemma bswap_16_twice [simp]: "bswap_16 (bswap_16 w) = w"
  by (simp add: bswap_16_def)

lemma word_to_le_bswap_16: "word_to_le (bswap_16 w) = word_to_be w"
  by (simp add: bswap_16_def word_to_be_def)

interpretation port_codec: sized_codec bind_port word_to_be "\<lambda>v w. v" "\<lambda>_. True"
proof -
  have "sized_codec (\<lambda>a. on_field bswap_16 (\<lambda>v _. bswap_16 v) (bind_integral a)) (\<lambda>r. word_to_le (bswap_16 r))
      (\<lambda>r w. bswap_16 (bswap_16 r)) (\<lambda>_. True)"
    by (rule sized_codec_converted [OF integral_codec.sized_codec_axioms]) simp
  then show "sized_codec bind_port word_to_be (\<lambda>v w. v) (\<lambda>_. True)"
    by (simp add: bind_port_def [abs_def] word_to_le_bswap_16)
qed

interpretation seconds_codec: sized_codec bind_seconds "\<lambda>t. word_to_le (word_of_int t :: 32 word)" "\<lambda>v w. v" seconds_ok
proof -
  have "sized_codec bind_seconds (\<lambda>t. word_to_le (word_of_int t :: 32 word)) (\<lambda>v w. uint (word_of_int v :: 32 word)) seconds_ok"
    unfolding bind_seconds_def [abs_def]
    by (rule sized_codec_converted [OF integral_codec.sized_codec_axioms])
      (simp add: seconds_ok_def uint_word_of_int)
  then show "sized_codec bind_seconds (\<lambda>t. word_to_le (word_of_int t :: 32 word)) (\<lambda>v w. v) seconds_ok"
    by (rule sized_codec_upd) (simp add: seconds_ok_def uint_word_of_int)
qed

lemma endpoint_update_all: "w\<lparr>ep_address := ep_address v, ep_port := ep_port v\<rparr> = (v :: ip_endpoint)"
  by simp

lemma node_service_update_all:
  "w\<lparr>ns_time := ns_time v, ns_services := ns_services v, ns_endpoint := ns_endpoint v\<rparr> = (v :: node_service)"
  by simp

interpretation endpoint_codec: sized_codec endpoint_serialization endpoint_bytes "\<lambda>v w. v" "\<lambda>e. address_ok (ep_address e)"
proof -
  note a = sized_codec_on_field [OF address_codec.sized_codec_axioms, of "\<lambda>v. ep_address_update (\<lambda>_. v)" ep_address, simplified]
  note p = sized_codec_on_field [OF port_codec.sized_codec_axioms, of "\<lambda>v. ep_port_update (\<lambda>_. v)" "ep_port :: ip_endpoint \<Rightarrow> _", simplified]
  show "sized_codec endpoint_serialization endpoint_bytes (\<lambda>v w. v) (\<lambda>e. address_ok (ep_address e))"
    using sized_codec_and_then [OF a p]
    by (simp add: endpoint_serialization_def [abs_def] endpoint_bytes_def [abs_def] endpoint_update_all)
qed

lemmas seconds_member = sized_codec_on_field [OF seconds_codec.sized_codec_axioms]
lemmas integral_field = sized_codec_on_field [OF integral_codec.sized_codec_axioms]
lemmas endpoint_member = sized_codec_on_field [OF endpoint_codec.sized_codec_axioms]

interpretation node_service_codec: sized_codec node_service_serialization node_service_bytes "\<lambda>v w. v" node_service_ok
proof -
  note t = seconds_member [of "\<lambda>v. ns_time_update (\<lambda>_. v)" ns_time, simplified]
  note s = integral_field [of "\<lambda>v. ns_services_update (\<lambda>_. v)" ns_services, simplified]
  note e = endpoint_member [of "\<lambda>v. ns_endpoint_update (\<lambda>_. v)" "ns_endpoint :: node_service \<Rightarrow> _", simplified]
  show "sized_codec node_service_serialization node_service_bytes (\<lambda>v w. v) node_service_ok"
    using sized_codec_and_then [OF t sized_codec_and_then [OF s e]]
    by (simp add: node_service_serialization_def [abs_def] node_service_bytes_def [abs_def] node_service_ok_def [abs_def]
        node_service_update_all)
qed

definition version_node_service_bytes :: "node_service \<Rightarrow> bytes" where
  "version_node_service_bytes n = word_to_le (ns_services n) @ endpoint_bytes (ns_endpoint n)"

interpretation version_service_codec: sized_codec version_node_service_serialization version_node_service_bytes
    "\<lambda>v w. w\<lparr>ns_services := ns_services v, ns_endpoint := ns_endpoint v\<rparr>" "\<lambda>n. address_ok (ep_address (ns_endpoint n))"
proof -
  note s = integral_field [of "\<lambda>v. ns_services_update (\<lambda>_. v)" ns_services, simplified]
  note e = endpoint_member [of "\<lambda>v. ns_endpoint_update (\<lambda>_. v)" "ns_endpoint :: node_service \<Rightarrow> _", simplified]
  show "sized_codec version_node_service_serialization version_node_service_bytes
    (\<lambda>v w. w\<lparr>ns_services := ns_services v, ns_endpoint := ns_endpoint v\<rparr>) (\<lambda>n. address_ok (ep_address (ns_endpoint n)))"
    using sized_codec_and_then [OF s e]
    by (simp add: version_node_service_serialization_def [abs_def] version_node_service_bytes_def [abs_def])
qed

definition node_service_info_bytes :: "node_service_info \<Rightarrow> bytes" where
  "node_service_info_bytes i =
    node_service_bytes (nsi_service i) @ string_bytes (nsi_user_agent i) @ address_wire_bytes (nsi_origin i) @
    word_to_le (word_of_int (nsi_last_connection_attempt i) :: 32 word) @
    word_to_le (word_of_int (nsi_last_connection_success i) :: 32 word) @
    word_to_le (nsi_connection_attempts i) @ word_to_le (nsi_random_pos i)"

definition node_service_info_ok :: "node_service_info \<Rightarrow> bool" where
  "node_service_info_ok i \<longleftrightarrow> node_service_ok (nsi_service i) \<and>
    length (nsi_user_agent i) \<le> kMaxSerializedCompactSize \<and> address_ok (nsi_origin i) \<and>
    seconds_ok (nsi_last_connection_attempt i) \<and> seconds_ok (nsi_last_connection_success i)"

text \<open>The references to buckets are not on the wire.\<close>

definition node_service_info_upd :: "node_service_info \<Rightarrow> node_service_info \<Rightarrow> node_service_info" where
  "node_service_info_upd v w = v\<lparr>nsi_tried_ref := nsi_tried_ref w, nsi_new_refs := nsi_new_refs w\<rparr>"

lemma node_service_info_update_all:
  "w\<lparr>nsi_service := nsi_service v, nsi_user_agent := nsi_user_agent v, nsi_origin := nsi_origin v,
    nsi_last_connection_attempt := nsi_last_connection_attempt v,
    nsi_last_connection_success := nsi_last_connection_success v,
    nsi_connection_attempts := nsi_connection_attempts v, nsi_random_pos := nsi_random_pos v\<rparr> =
   node_service_info_upd v w"
  by (simp add: node_service_info_upd_def)

interpretation node_service_info_codec: sized_codec node_service_info_serialization node_service_info_bytes
    node_service_info_upd node_service_info_ok
proof -
  note s = sized_codec_on_field [OF node_service_codec.sized_codec_axioms, of "\<lambda>v. nsi_service_update (\<lambda>_. v)" nsi_service, simplified]
  note u = sized_codec_on_field [OF string_codec.sized_codec_axioms, of "\<lambda>v. nsi_user_agent_update (\<lambda>_. v)" nsi_user_agent, simplified]
  note o = sized_codec_on_field [OF address_codec.sized_codec_axioms, of "\<lambda>v. nsi_origin_update (\<lambda>_. v)" nsi_origin, simplified]
  note a = seconds_member [of "\<lambda>v. nsi_last_connection_attempt_update (\<lambda>_. v)" nsi_last_connection_attempt, simplified]
  note l = seconds_member [of "\<lambda>v. nsi_last_connection_success_update (\<lambda>_. v)" nsi_last_connection_success, simplified]
  note c = integral_field [of "\<lambda>v. nsi_connection_attempts_update (\<lambda>_. v)" nsi_connection_attempts, simplified]
  note r = integral_field [of "\<lambda>v. nsi_random_pos_update (\<lambda>_. v)" "nsi_random_pos :: node_service_info \<Rightarrow> _", simplified]
  note all = sized_codec_and_then [OF s sized_codec_and_then [OF u sized_codec_and_then [OF o
      sized_codec_and_then [OF a sized_codec_and_then [OF l sized_codec_and_then [OF c r]]]]]]
  show "sized_codec node_service_info_serialization node_service_info_bytes node_service_info_upd node_service_info_ok"
    using all
    by (simp add: node_service_info_serialization_def [abs_def] node_service_info_bytes_def [abs_def]
        node_service_info_ok_def [abs_def] node_service_info_update_all)
qed

section \<open>Subnets as prefixes\<close>

lemma nat_to_le_nth: "i < n \<Longrightarrow> nat_to_le n v ! i = of_nat (v div 256 ^ i)"
  by (induction n arbitrary: v i) (auto simp: less_Suc_eq_0_disj div_mult2_eq)

lemma bit_word_to_le:
  assumes "i < LENGTH('w) div 8" "j < 8"
  shows "bit (word_to_le (w :: 'w::len word) ! i) j = bit w (8 * i + j)"
proof -
  have "unat w div 256 ^ i = drop_bit (8 * i) (unat w)"
    by (simp add: drop_bit_eq_div power_mult)
  then show ?thesis
    using assms by (simp add: word_to_le_def nat_to_le_nth bit_of_nat_iff bit_drop_bit_eq bit_unsigned_iff)
qed

lemma bit_word_to_be:
  assumes "i < 16" "j < 8"
  shows "bit (word_to_be (w :: 128 word) ! i) j = bit w (127 - (8 * i + (7 - j)))"
proof -
  have "word_to_be w ! i = word_to_le w ! (15 - i)"
    using assms by (simp add: word_to_be_def rev_nth)
  moreover have "8 * (15 - i) + j = 127 - (8 * i + (7 - j))"
    using assms by arith
  ultimately show ?thesis
    using bit_word_to_le [of "15 - i" j w] assms by simp
qed

lemma bit_v6_mask:
  assumes "i < 16" "j < 8"
  shows "bit (v6_mask p ! i) j \<longleftrightarrow> 8 * i + (7 - j) < p"
proof -
  have ff: "bit (255 :: int) k \<longleftrightarrow> k < 8" for k
    using bit_mask_iff [where ?'a = int, of 8 k] by (simp add: mask_eq_exp_minus_1)
  obtain q r where p: "p = 8 * q + r" "r < 8" "p div 8 = q" "p mod 8 = r"
    by (metis mod_less_divisor mult_div_mod_eq zero_less_numeral)
  consider "i < q" | "i = q" | "q < i"
    by arith
  then show ?thesis
  proof cases
    case 1
    then have "8 * i + (7 - j) < p"
      using p assms by arith
    with 1 p assms show ?thesis
      by (simp add: v6_mask_def Let_def ff)
  next
    case 2
    have "8 * q + (7 - j) < 8 * q + r \<longleftrightarrow> 8 - r \<le> j" "j + r - 8 < 8"
      using p(2) assms by arith+
    with 2 p assms show ?thesis
      by (cases "r = 0") (simp_all add: v6_mask_def Let_def ff bit_and_iff bit_push_bit_iff)
  next
    case 3
    then have "\<not> 8 * i + (7 - j) < p"
      using p assms by arith
    with 3 p assms show ?thesis
      by (simp add: v6_mask_def Let_def)
  qed
qed

lemma length_v6_mask [simp]: "length (v6_mask p) = 16"
  by (simp add: v6_mask_def Let_def)

lemma bit_v4_mask:
  assumes "p \<le> 32"
  shows "bit (v4_mask p) k \<longleftrightarrow> 32 - p \<le> k \<and> k < 32"
proof -
  have m: "bit (0xFFFFFFFF :: int) k \<longleftrightarrow> k < 32" for k
    using bit_mask_iff [where ?'a = int, of 32 k] by (simp add: mask_eq_exp_minus_1)
  have "k - (32 - p) < 32" if "k < 32"
    using that by arith
  then show ?thesis
    by (auto simp: v4_mask_def bit_push_bit_iff m)
qed

text \<open>The bytes of a 128 bit word masked by \<open>v6_mask\<close>, as bits of the word.\<close>

lemma v6_masked_bytes:
  fixes a b :: "128 word"
  shows "list_all (\<lambda>i. word_to_be a ! i AND v6_mask p ! i = word_to_be b ! i) [0..<16] \<longleftrightarrow>
   (\<forall>k < 128. (bit a k \<and> 127 - k < p) = bit b k)"
proof -
  have "list_all (\<lambda>i. word_to_be a ! i AND v6_mask p ! i = word_to_be b ! i) [0..<16] \<longleftrightarrow>
    (\<forall>i < 16. \<forall>j < 8. bit (word_to_be a ! i AND v6_mask p ! i) j = bit (word_to_be b ! i) j)"
    by (auto simp: list_all_iff bit_eq_iff)
  also have "\<dots> \<longleftrightarrow> (\<forall>i < 16. \<forall>j < 8. (bit a (127 - (8 * i + (7 - j))) \<and> 8 * i + (7 - j) < p) = bit b (127 - (8 * i + (7 - j))))"
    by (intro all_cong1 imp_cong refl) (simp only: bit_and_iff bit_word_to_be bit_v6_mask)
  also have "\<dots> \<longleftrightarrow> (\<forall>k < 128. (bit a k \<and> 127 - k < p) = bit b k)"
  proof (rule iffI; intro allI impI)
    fix k :: nat
    assume *: "\<forall>i < 16. \<forall>j < 8. (bit a (127 - (8 * i + (7 - j))) \<and> 8 * i + (7 - j) < p) = bit b (127 - (8 * i + (7 - j)))"
      and k: "k < 128"
    define i j where "i = (127 - k) div 8" and "j = 7 - (127 - k) mod 8"
    have "(127 - k) mod 8 < 8"
      by simp
    then have "7 - j = (127 - k) mod 8"
      unfolding j_def by linarith
    then have ij: "i < 16" "j < 8" "8 * i + (7 - j) = 127 - k" "127 - (127 - k) = k"
      using k by (simp_all add: i_def j_def less_mult_imp_div_less)
    show "(bit a k \<and> 127 - k < p) = bit b k"
      using * [rule_format, OF ij(1,2)] unfolding ij(3,4) .
  next
    fix i j :: nat
    assume *: "\<forall>k < 128. (bit a k \<and> 127 - k < p) = bit b k" and "i < 16" "j < 8"
    then have "127 - (8 * i + (7 - j)) < 128" "127 - (127 - (8 * i + (7 - j))) = 8 * i + (7 - j)"
      by arith+
    with * show "(bit a (127 - (8 * i + (7 - j))) \<and> 8 * i + (7 - j) < p) = bit b (127 - (8 * i + (7 - j)))"
      by metis
  qed
  finally show ?thesis .
qed

text \<open>The first \<open>p\<close> bits of two addresses of the same family are the same.\<close>

fun same_prefix :: "nat \<Rightarrow> ip_address \<Rightarrow> ip_address \<Rightarrow> bool" where
  "same_prefix p (V4 a) (V4 b) = (drop_bit (32 - p) a = drop_bit (32 - p) b)"
| "same_prefix p (V6 a) (V6 b) = (drop_bit (128 - p) a = drop_bit (128 - p) b)"
| "same_prefix p _ _ = False"

lemma drop_bit_eq_bits:
  "drop_bit n (a :: 'w::len word) = drop_bit n b \<longleftrightarrow> (\<forall>k. n \<le> k \<and> k < LENGTH('w) \<longrightarrow> bit a k = bit b k)"
proof
  assume *: "drop_bit n a = drop_bit n b"
  have "bit a (n + i) = bit b (n + i)" for i
    using arg_cong [OF *, of "\<lambda>w. bit w i"] by (simp add: bit_drop_bit_eq)
  then show "\<forall>k. n \<le> k \<and> k < LENGTH('w) \<longrightarrow> bit a k = bit b k"
    by (metis le_iff_add)
next
  assume *: "\<forall>k. n \<le> k \<and> k < LENGTH('w) \<longrightarrow> bit a k = bit b k"
  have "bit a (n + i) = bit b (n + i)" for i
    using * bit_imp_le_length by (metis le_add1)
  then show "drop_bit n a = drop_bit n b"
    by (intro bit_eqI) (simp add: bit_drop_bit_eq)
qed

lemma v4_masked:
  assumes "p \<le> 32"
  shows "b AND v4_mask p = v4_mask p AND a \<longleftrightarrow> drop_bit (32 - p) a = drop_bit (32 - p) b"
proof -
  have "b AND v4_mask p = v4_mask p AND a \<longleftrightarrow> (\<forall>k < 32. bit (b AND v4_mask p) k = bit (v4_mask p AND a) k)"
    by (simp add: bit_eq_iff)
  also have "\<dots> \<longleftrightarrow> (\<forall>k. 32 - p \<le> k \<and> k < 32 \<longrightarrow> bit a k = bit b k)"
    using assms by (auto simp: bit_and_iff bit_v4_mask)
  finally show ?thesis
    by (simp add: drop_bit_eq_bits)
qed

lemma bit_v6_base:
  assumes "k < 128"
  shows "bit (be_to_word (map2 (AND) (word_to_be a) (v6_mask p)) :: 128 word) k \<longleftrightarrow> bit (a :: 128 word) k \<and> 127 - k < p"
proof -
  let ?b = "be_to_word (map2 (AND) (word_to_be a) (v6_mask p)) :: 128 word"
  have "word_to_be ?b = map2 (AND) (word_to_be a) (v6_mask p)"
    by simp
  then have "list_all (\<lambda>i. word_to_be a ! i AND v6_mask p ! i = word_to_be ?b ! i) [0..<16]"
    by (simp add: list_all_iff)
  then show ?thesis
    using assms unfolding v6_masked_bytes by blast
qed

text \<open>C36. A subnet whose base address is computed by \<open>calculate_subnet_base_address\<close> from an
  address and a prefix length contains exactly the addresses that are neither unspecified nor a
  loopback and share that many leading bits with the address, for IPv4 and for IPv6.\<close>

theorem subnet_contains_prefix:
  assumes "calculate_subnet_base_address a p = Some (Success base)"
    and "subnet_is_valid asio \<lparr>sn_base_address = base, sn_prefix_length = p\<rparr>"
    and "ip_is_valid asio b"
  shows "subnet_contains asio \<lparr>sn_base_address = base, sn_prefix_length = p\<rparr> b \<longleftrightarrow>
    \<not> asio_is_unspecified asio b \<and> \<not> asio_is_loopback asio b \<and> same_prefix p a b"
proof (cases a)
  case (V4 v)
  with assms(1) have p: "p \<le> 32" "base = V4 (v4_mask p AND v)"
    by (auto simp: calculate_subnet_base_address_def split: if_splits)
  then show ?thesis
    using assms(2,3) V4
    by (cases b) (simp_all add: subnet_contains_def subnet_contains_address_def v4_masked)
next
  case (V6 v)
  let ?b = "be_to_word (map2 (AND) (word_to_be v) (v6_mask p)) :: 128 word"
  from V6 assms(1) have "p \<le> 128" "base = V6 ?b"
    by (auto simp: calculate_subnet_base_address_def split: if_splits)
  then obtain w where p: "p \<le> 128" "base = V6 w" and w: "\<And>k. k < 128 \<Longrightarrow> bit w k \<longleftrightarrow> bit v k \<and> 127 - k < p"
    using bit_v6_base by blast
  have "(\<forall>k < 128. (bit x k \<and> 127 - k < p) = bit w k) \<longleftrightarrow> drop_bit (128 - p) v = drop_bit (128 - p) x" for x :: "128 word"
  proof -
    have "(\<forall>k < 128. (bit x k \<and> 127 - k < p) = bit w k) \<longleftrightarrow> (\<forall>k. 128 - p \<le> k \<and> k < 128 \<longrightarrow> bit v k = bit x k)"
      using p(1) by (auto simp: w)
    then show ?thesis
      by (simp add: drop_bit_eq_bits)
  qed
  then show ?thesis
    using assms(2,3) V6 p
    by (cases b) (simp_all add: subnet_contains_def subnet_contains_address_def v6_masked_bytes)
qed

text \<open>The classification that boost::asio documents, for concrete inputs.\<close>

definition documented_asio :: asio where
  "documented_asio =
    \<lparr>asio_is_loopback = (\<lambda>a. case a of V4 w \<Rightarrow> drop_bit 24 w = 127 | V6 w \<Rightarrow> w = 1),
     asio_is_multicast = (\<lambda>a. case a of V4 w \<Rightarrow> drop_bit 28 w = 14 | V6 w \<Rightarrow> drop_bit 120 w = 255),
     asio_is_unspecified = ip_is_any\<rparr>"

theorem subnet_contains_prefix_witness:
  "subnet_contains documented_asio \<lparr>sn_base_address = V4 0x0A010000, sn_prefix_length = 16\<rparr> (V4 0x0A01FF07)"
proof -
  have "calculate_subnet_base_address (V4 0x0A010203) 16 = Some (Success (V4 0x0A010000))"
    "subnet_is_valid documented_asio \<lparr>sn_base_address = V4 0x0A010000, sn_prefix_length = 16\<rparr>"
    "ip_is_valid documented_asio (V4 0x0A01FF07)"
    "\<not> asio_is_unspecified documented_asio (V4 0x0A01FF07)" "\<not> asio_is_loopback documented_asio (V4 0x0A01FF07)"
    "same_prefix 16 (V4 0x0A010203) (V4 0x0A01FF07)"
    by code_simp+
  then show ?thesis
    using subnet_contains_prefix [of "V4 0x0A010203" 16 "V4 0x0A010000" documented_asio "V4 0x0A01FF07"] by blast
qed

text \<open>A subnet whose base address has a bit set beyond the prefix, which
  \<open>IPSubNet::from_string\<close> builds from such a text since it does not mask the address,
  contains no address at all.\<close>

theorem subnet_host_bits_empty:
  assumes "p \<le> 32" "k < 32 - p" "bit base k"
  shows "\<not> subnet_contains asio \<lparr>sn_base_address = V4 base, sn_prefix_length = p\<rparr> address"
proof -
  have "a AND v4_mask p \<noteq> base" for a
    using assms(2,3) bit_v4_mask [OF assms(1), of k] by (auto simp: bit_and_iff)
  then show ?thesis
    by (cases address) (simp_all add: subnet_contains_def subnet_contains_address_def)
qed

theorem subnet_host_bits_empty_witness:
  "subnet_from_string (\<lambda>_. Success (V4 0x0A010203)) ''10.1.2.3/16'' =
     Success \<lparr>sn_base_address = V4 0x0A010203, sn_prefix_length = 16\<rparr> \<and>
   \<not> subnet_contains documented_asio \<lparr>sn_base_address = V4 0x0A010203, sn_prefix_length = 16\<rparr> (V4 0x0A010203)"
proof
  show "subnet_from_string (\<lambda>_. Success (V4 0x0A010203)) ''10.1.2.3/16'' =
     Success \<lparr>sn_base_address = V4 0x0A010203, sn_prefix_length = 16\<rparr>"
    by code_simp
  show "\<not> subnet_contains documented_asio \<lparr>sn_base_address = V4 0x0A010203, sn_prefix_length = 16\<rparr> (V4 0x0A010203)"
    by (rule subnet_host_bits_empty [where k = 0]) simp_all
qed

section \<open>Prefix lengths\<close>

lemma popcount_le: "octet < 256 \<Longrightarrow> popcount octet \<le> 8"
proof -
  assume "octet < 256"
  then have "\<not> bit octet k" if "8 \<le> k" for k
    using that power_increasing [OF that, of "2 :: nat"] by (simp add: bit_iff_odd)
  then have "filter (bit octet) [0..<16] = filter (bit octet) [0..<8]"
    by (simp add: upt_rec [of _ 16] numeral_eq_Suc)
  then show ?thesis
    using length_filter_le [of "bit octet" "[0..<8]"] by (simp add: popcount_def)
qed

lemma mask_octets_le: "mask_octets os z ret = Success p \<Longrightarrow> p \<le> ret + 8 * length os"
proof (induction os arbitrary: z ret)
  case (Cons octet os)
  show ?case
  proof (cases "octet = 0")
    case True
    with Cons show ?thesis by fastforce
  next
    case False
    with Cons.prems have o: "octet \<in> {128, 192, 224, 240, 248, 252, 254, 255}"
      and r: "mask_octets os z (ret + popcount octet) = Success p"
      by (simp_all split: if_splits)
    from o have "octet < 256"
      by auto
    with Cons.IH [OF r] popcount_le show ?thesis
      by fastforce
  qed
qed simp

lemma match_dotted_length: "match_dotted s = Some groups \<Longrightarrow> length groups = 4"
  by (auto simp: match_dotted_def split_dotted_def Let_def split: option.splits prod.splits if_splits)

definition mask_octet :: "nat \<Rightarrow> nat \<Rightarrow> nat" where
  "mask_octet p i = 256 - 2 ^ (8 - min 8 (p - 8 * i))"

lemma popcount_octets:
  "popcount 128 = 1" "popcount 192 = 2" "popcount 224 = 3" "popcount 240 = 4" "popcount 248 = 5" "popcount 252 = 6"
  "popcount 254 = 7" "popcount 255 = 8"
  by (simp_all add: popcount_def upt_rec bit_0)

text \<open>A prefix length that parses is at most 128.\<close>

theorem parse_prefix_length_bound:
  assumes "parse_prefix_length input = Success p"
  shows "p \<le> 128"
proof (cases "match_dotted input")
  case None
  with assms show ?thesis
    by (auto simp: parse_prefix_length_def Let_def split: if_splits)
next
  case (Some groups)
  with assms have "mask_octets (map decimal_to_nat groups) False 0 = Success p"
    by (simp add: parse_prefix_length_def split: if_splits)
  from mask_octets_le [OF this] match_dotted_length [OF Some] show ?thesis
    by simp
qed

theorem parse_prefix_length_bound_witness: "parse_prefix_length ''64'' = Success 64 \<and> (64 :: nat) \<le> 128"
proof -
  have *: "parse_prefix_length ''64'' = Success 64"
    by code_simp
  from * parse_prefix_length_bound [OF *] show ?thesis ..
qed

text \<open>The four octets of the mask of every prefix length from 0 to 32 count back to that prefix
  length; octets whose ones are not contiguous are accepted too.\<close>

theorem mask_octets_prefix:
  "list_all (\<lambda>p. mask_octets (map (mask_octet p) [0..<4]) False 0 = Success p) [0..<33] \<and>
   mask_octets [255, 128, 128, 0] False 0 = Success 10"
proof
  have "[0..<4 :: nat] = [0, 1, 2, 3]"
    by (simp add: upt_rec)
  then show "list_all (\<lambda>p. mask_octets (map (mask_octet p) [0..<4]) False 0 = Success p) [0..<33]"
    by (simp add: upt_rec mask_octet_def popcount_octets)
qed (simp add: popcount_octets)

section \<open>Selection of a service\<close>

text \<open>The chance of a service to be selected lies between 0 and 1 and is 0 exactly when the
  service is bad.\<close>

theorem get_chance_range: "0 \<le> get_chance now i \<and> get_chance now i \<le> 1 \<and> (get_chance now i = 0 \<longleftrightarrow> is_bad now i)"
proof -
  have "(66 / 100 :: rat) ^ n \<le> 1" for n
    by (rule power_le_one) simp_all
  moreover have "(66 / 100 :: rat) ^ n * (1 / 100) \<le> 1" for n
    using power_le_one [of "66 / 100 :: rat" n] by simp
  ultimately show ?thesis
    by (simp add: get_chance_def Let_def)
qed

section \<open>Wire formats\<close>

text \<open>What the address book saves of a service is read back from any stream it is written to,
  the references to buckets apart, and leaves the stream at its end.\<close>

theorem node_service_info_round_trip:
  assumes "node_service_info_ok v" "stream_inv s" "unread s = []"
    and "length (ds_buffer s) + length (node_service_info_bytes v) \<le> kMaxStreamSize"
  shows "\<exists>t u. node_service_info_serialization kSerialize (v, s) = (None, v, t) \<and>
    node_service_info_serialization kDeserialize (w, t) =
      (None, v\<lparr>nsi_tried_ref := nsi_tried_ref w, nsi_new_refs := nsi_new_refs w\<rparr>, u) \<and> unread u = []"
  using node_service_info_codec.round_trip [OF assms] by (simp add: node_service_info_upd_def)

text \<open>An IPv6 address whose first eight bytes are zero, the loopback \<open>::1\<close> among
  them, is serialized as it is and deserialized as the IPv4 address of its last four bytes; every
  other address is read back as it was.\<close>

theorem low_v6_read_as_v4:
  "address_of_wire (address_wire_bytes a) = (case a of V4 w \<Rightarrow> V4 w | V6 w \<Rightarrow> if w < 2 ^ 64 then V4 (ucast w) else V6 w)"
  by (rule address_of_wire_bytes)

theorem node_service_info_round_trip_witness:
  "\<exists>t u. node_service_info_serialization kSerialize (node_service_info_new node_service_new (V4 0x0A000001), sdata_stream_of [] kStorage 0) =
      (None, node_service_info_new node_service_new (V4 0x0A000001), t) \<and>
    node_service_info_serialization kDeserialize (node_service_info_new node_service_new (V4 0), t) =
      (None, node_service_info_new node_service_new (V4 0x0A000001), u) \<and> unread u = []"
proof -
  let ?v = "node_service_info_new node_service_new (V4 0x0A000001)"
  have "length (node_service_info_bytes ?v) = 63"
    by (simp add: node_service_info_bytes_def node_service_info_new_def node_service_bytes_def endpoint_bytes_def
        string_bytes_def length_compact_bytes ser_compact_sizeof_def)
  moreover have "node_service_info_ok ?v"
    by (simp add: node_service_info_ok_def node_service_info_new_def node_service_ok_def node_service_new_def
        seconds_ok_def kTimeInit_def address_ok_def ip_endpoint_new_def)
  ultimately show ?thesis
    using node_service_info_round_trip [of ?v "sdata_stream_of [] kStorage 0" "node_service_info_new node_service_new (V4 0)"]
    by (simp add: kMaxStreamSize_eq sdata_stream_of_def stream_inv_def unread_def node_service_info_new_def)
qed

end
