(* ===== verification/Misc.thy ===== *)
theory Misc
  imports Amounts Data_Stream
begin

text \<open>
  core/common/misc.cpp: abridging of texts, parsing of human readable sizes, and the count of duplicate
  chunks that the validation of network payloads uses. The product of a size and its unit is computed on
  64 bits and wraps around. \<open>boost::iequals\<close> and \<open>boost::trim_right\<close> are parameters. \<open>to_human_bytes\<close> (floating
  point formatting) and the random strings are not modelled.
\<close>

section \<open>Texts\<close>

text \<open>\<open>boost::algorithm::trim_right\<close> is a parameter.\<close>

definition abridge :: "(string \<Rightarrow> string) \<Rightarrow> string \<Rightarrow> nat \<Rightarrow> string" where
  "abridge trim_right input n = (if length input \<le> n then input else trim_right (take n input) @ ''...'')"

section \<open>Sizes\<close>

definition to_lower :: "char \<Rightarrow> char" where
  "to_lower c = (let n = of_char c :: nat in if 65 \<le> n \<and> n \<le> 90 then char_of (n + 32) else c)"

definition size_suffixes :: "(string \<times> nat) list" where
  "size_suffixes =
    [(''KB'', kKB), (''MB'', kMB), (''GB'', kGB), (''TB'', kTB),
     (''KiB'', kKiB), (''MiB'', kMiB), (''GiB'', kGiB), (''TiB'', kTiB)]"

text \<open>The groups of \<open>^(\d{0,10})(\.\d{1,3})?\ *?(B|KB|MB|GB|TB|KiB|MiB|GiB|TiB)?$\<close>, whatever the case
  of the letters. The groups are determined: digits, a point, spaces and letters do not overlap.\<close>

definition known_suffix :: "string \<Rightarrow> bool" where
  "known_suffix s = (s = [] \<or> map to_lower s \<in> set (map (map to_lower) (''B'' # map fst size_suffixes)))"

definition match_human :: "string \<Rightarrow> (string \<times> string \<times> string) option" where
  "match_human input =
    (let whole = takeWhile is_digit input; rest = dropWhile is_digit input;
         fract = (if rest \<noteq> [] \<and> hd rest = CHR ''.'' then CHR ''.'' # takeWhile is_digit (tl rest) else []);
         rest = drop (length fract) rest;
         suffix = dropWhile (\<lambda>c. c = CHR '' '') rest
     in if length whole \<le> 10 \<and> (fract = [] \<or> (2 \<le> length fract \<and> length fract \<le> 4)) \<and> known_suffix suffix
        then Some (whole, fract, suffix) else None)"

definition suffix_multiplier :: "(string \<Rightarrow> string \<Rightarrow> bool) \<Rightarrow> string \<Rightarrow> nat" where
  "suffix_multiplier iequals suffix =
    (case find (\<lambda>p. iequals suffix (fst p)) size_suffixes of None \<Rightarrow> 1 | Some p \<Rightarrow> snd p)"

definition parse_human_bytes :: "(string \<Rightarrow> string \<Rightarrow> bool) \<Rightarrow> string \<Rightarrow> (error_code, 64 word) outcome" where
  "parse_human_bytes iequals input =
    (if input = [] then Success 0
     else
      (case match_human input of
        None \<Rightarrow> Failure (Errc invalid_argument)
      | Some (whole_part, fract_part, suffix) \<Rightarrow>
          (let fract_part = (if fract_part \<noteq> [] then tl fract_part else fract_part);
               multiplier = of_nat (suffix_multiplier iequals suffix) :: 64 word;
               value = of_nat (digits_to_nat whole_part) * multiplier
           in if multiplier > 1 \<and> fract_part \<noteq> [] then
                (let base = 10 ^ length fract_part; fract = of_nat (digits_to_nat fract_part)
                 in Success (value + multiplier * fract div base))
              else Success value)))"

section \<open>Duplicate chunks\<close>

text \<open>The loop over the chunks: the set of the chunks seen and the count of duplicates.\<close>

fun duplicate_loop :: "bytes list \<Rightarrow> bytes set \<Rightarrow> nat \<Rightarrow> nat \<Rightarrow> nat" where
  "duplicate_loop [] unique_chunks count max_count = count"
| "duplicate_loop (chunk # chunks) unique_chunks count max_count =
    (if chunk \<in> unique_chunks then
       (if max_count \<noteq> 0 \<and> count + 1 = max_count then count + 1
        else duplicate_loop chunks unique_chunks (count + 1) max_count)
     else duplicate_loop chunks (insert chunk unique_chunks) count max_count)"

definition data_chunks :: "bytes \<Rightarrow> nat \<Rightarrow> bytes list" where
  "data_chunks data chunk_size = map (\<lambda>i. take chunk_size (drop (i * chunk_size) data)) [0..<length data div chunk_size]"

definition count_duplicate_data_chunks :: "bytes \<Rightarrow> nat \<Rightarrow> nat \<Rightarrow> nat" where
  "count_duplicate_data_chunks data chunk_size max_count =
    (if chunk_size = 0 \<or> length data < chunk_size then 0
     else duplicate_loop (data_chunks data chunk_size) {} 0 max_count)"

section \<open>Lemmas\<close>

lemma duplicate_loop_ge: "count \<le> duplicate_loop cs seen count m"
  by (induction cs arbitrary: seen count) (auto intro: Suc_leD order_trans)

lemma duplicate_loop_zero:
  "duplicate_loop cs seen 0 m = 0 \<longleftrightarrow> distinct cs \<and> set cs \<inter> seen = {}"
proof (induction cs arbitrary: seen)
  case (Cons c cs)
  have "Suc 0 \<le> duplicate_loop cs seen (Suc 0) m"
    by (rule duplicate_loop_ge)
  then show ?case
    using Cons [of "insert c seen"] by auto
qed simp

lemma duplicate_loop_unbounded:
  "finite seen \<Longrightarrow> duplicate_loop cs seen count 0 + card (set cs \<union> seen) = count + length cs + card seen"
proof (induction cs arbitrary: seen count)
  case (Cons c cs)
  show ?case
  proof (cases "c \<in> seen")
    case True
    then have "set (c # cs) \<union> seen = set cs \<union> seen"
      by auto
    with True Cons show ?thesis
      by simp
  next
    case False
    have "set (c # cs) \<union> seen = set cs \<union> insert c seen"
      by auto
    with False Cons.IH [of "insert c seen" count] Cons.prems show ?thesis
      by simp
  qed
qed simp

lemma count_no_duplicates:
  assumes "0 < chunk_size"
  shows "count_duplicate_data_chunks data chunk_size m = 0 \<longleftrightarrow> distinct (data_chunks data chunk_size)"
  using assms by (auto simp: count_duplicate_data_chunks_def duplicate_loop_zero data_chunks_def)

section \<open>Properties\<close>

text \<open>The duplicate check of payloads is exact: no duplicate is counted, whatever the limit, exactly when
  the chunks are distinct, and without a limit the count is the number of chunks minus the number of
  different ones.\<close>

theorem count_duplicates_exact:
  assumes "0 < chunk_size"
  shows "(count_duplicate_data_chunks data chunk_size m = 0 \<longleftrightarrow> distinct (data_chunks data chunk_size)) \<and>
    count_duplicate_data_chunks data chunk_size 0 + card (set (data_chunks data chunk_size)) = length data div chunk_size"
proof -
  have "count_duplicate_data_chunks data chunk_size 0 = duplicate_loop (data_chunks data chunk_size) {} 0 0"
    by (auto simp: count_duplicate_data_chunks_def data_chunks_def)
  then show ?thesis
    using count_no_duplicates [OF assms] duplicate_loop_unbounded [of "{}" "data_chunks data chunk_size" 0]
    by (simp add: data_chunks_def)
qed

theorem count_duplicates_exact_witness:
  "count_duplicate_data_chunks [1, 2, 1, 2, 3] 2 0 + card (set (data_chunks [1, 2, 1, 2, 3] 2)) = 5 div 2"
  using count_duplicates_exact [of 2 "[1, 2, 1, 2, 3]"] by simp

lemma suffix_check:
  "list_all (\<lambda>p. fst p \<noteq> [] \<and> \<not> is_digit (hd (fst p)) \<and> hd (fst p) \<noteq> CHR ''.'' \<and> hd (fst p) \<noteq> CHR '' '' \<and>
    known_suffix (fst p) \<and> find (\<lambda>q. map to_lower (fst p) = map to_lower (fst q)) size_suffixes = Some p) size_suffixes"
  by (simp add: size_suffixes_def is_digit_def to_lower_def known_suffix_def Let_def)

lemma match_human_digits:
  assumes "list_all is_digit w" "w \<noteq> []" "length w \<le> 10" "p \<in> set size_suffixes"
  shows "match_human (w @ fst p) = Some (w, [], fst p)"
proof -
  obtain c cs where p: "fst p = c # cs" "\<not> is_digit c" "c \<noteq> CHR ''.''" "c \<noteq> CHR '' ''" "known_suffix (fst p)"
    using suffix_check assms(4) by (cases "fst p") (auto simp: list_all_iff)
  have "takeWhile is_digit (w @ c # cs) = w" "dropWhile is_digit (w @ c # cs) = c # cs"
    using assms(1) p(2) by (simp_all add: takeWhile_append dropWhile_append list_all_iff)
  then show ?thesis
    using p assms(3) by (simp add: match_human_def)
qed

text \<open>A decimal number of at most ten digits followed by a unit parses to the product of the number and the
  unit on 64 bits: the value modulo 2^64, which for the largest units is less than what the text says.\<close>

theorem human_bytes_value:
  assumes "n < 10 ^ 10" "p \<in> set size_suffixes" "\<And>a b. iequals a b \<longleftrightarrow> map to_lower a = map to_lower b"
  shows "\<exists>v. parse_human_bytes iequals (show_nat n @ fst p) = Success v \<and> unat v = n * snd p mod 2 ^ 64"
proof -
  have m: "suffix_multiplier iequals (fst p) = snd p"
    using suffix_check assms(2) by (auto simp: suffix_multiplier_def assms(3) list_all_iff)
  have w: "list_all is_digit (show_nat n)" "length (show_nat n) \<le> 10" "show_nat n \<noteq> []"
    using show_nat_digits length_show_nat [of 10 n] assms(1) by (simp, simp, subst show_nat.simps, simp)
  have "parse_human_bytes iequals (show_nat n @ fst p) = Success (of_nat n * of_nat (snd p))"
    using match_human_digits [OF w(1,3,2) assms(2)] w(3)
    by (simp add: parse_human_bytes_def m digits_to_nat_show_nat)
  moreover have "unat (of_nat n * of_nat (snd p) :: 64 word) = n * snd p mod 2 ^ 64"
    by (simp add: unat_word_ariths unat_of_nat mod_mult_eq)
  ultimately show ?thesis
    by blast
qed

theorem human_bytes_value_witness:
  "\<exists>v. parse_human_bytes (\<lambda>a b. map to_lower a = map to_lower b) (show_nat 9999999999 @ ''TB'') = Success v \<and>
    unat v = 9999999999 * kTB mod 2 ^ 64 \<and> unat v < 9999999999 * kTB"
proof -
  have "(''TB'', kTB) \<in> set size_suffixes"
    by (simp add: size_suffixes_def)
  from human_bytes_value [OF _ this, of 9999999999 "\<lambda>a b. map to_lower a = map to_lower b"] show ?thesis
    by (auto simp: kTB_def kGB_def kMB_def kKB_def)
qed

end
