(* ===== verification/Protocol.thy ===== *)
theory Protocol
  imports Misc Serialize
begin

text \<open>
  infra/network/protocol.hpp, protocol.cpp and messages.hpp: the limits of the protocol, the types of
  messages, their commands and the table of message definitions that the validation of messages reads.
\<close>

section \<open>Constants\<close>

definition kDefaultProtocolVersion :: int where "kDefaultProtocolVersion = 170002"
definition kMinSupportedProtocolVersion :: int where "kMinSupportedProtocolVersion = kDefaultProtocolVersion"
definition kMaxSupportedProtocolVersion :: int where "kMaxSupportedProtocolVersion = kDefaultProtocolVersion"
definition kMaxProtocolMessageLength :: nat where "kMaxProtocolMessageLength = 4 * kMiB"
definition kMessageHeaderMagicLength :: nat where "kMessageHeaderMagicLength = 4"
definition kMessageHeaderCommandLength :: nat where "kMessageHeaderCommandLength = 12"
definition kMessageHeaderChecksumLength :: nat where "kMessageHeaderChecksumLength = 4"
definition kMessageHeaderLength :: nat where
  "kMessageHeaderLength = kMessageHeaderMagicLength + kMessageHeaderCommandLength + 4 + kMessageHeaderChecksumLength"
definition kMaxInvItems :: nat where "kMaxInvItems = 50000"
definition kInvItemSize :: nat where "kInvItemSize = 36"
definition kMaxAddrItems :: nat where "kMaxAddrItems = 1000"
definition kAddrItemSize :: nat where "kAddrItemSize = 30"
definition kMaxGetHeadersItems :: nat where "kMaxGetHeadersItems = 2000"
definition kMaxHeadersItems :: nat where "kMaxHeadersItems = 160"

section \<open>Message types and commands\<close>

datatype message_type =
    kVersion | kVerAck | kInv | kAddr | kPing | kPong | kGetHeaders | kHeaders | kGetAddr | kMemPool | kReject
  | kGetData | kNotFound | kMissingOrUnknown

definition message_types :: "message_type list" where
  "message_types =
    [kVersion, kVerAck, kInv, kAddr, kPing, kPong, kGetHeaders, kHeaders, kGetAddr, kMemPool, kReject, kGetData,
     kNotFound, kMissingOrUnknown]"

fun message_type_name :: "message_type \<Rightarrow> string" where
  "message_type_name kVersion = ''kVersion''"
| "message_type_name kVerAck = ''kVerAck''"
| "message_type_name kInv = ''kInv''"
| "message_type_name kAddr = ''kAddr''"
| "message_type_name kPing = ''kPing''"
| "message_type_name kPong = ''kPong''"
| "message_type_name kGetHeaders = ''kGetHeaders''"
| "message_type_name kHeaders = ''kHeaders''"
| "message_type_name kGetAddr = ''kGetAddr''"
| "message_type_name kMemPool = ''kMemPool''"
| "message_type_name kReject = ''kReject''"
| "message_type_name kGetData = ''kGetData''"
| "message_type_name kNotFound = ''kNotFound''"
| "message_type_name kMissingOrUnknown = ''kMissingOrUnknown''"

text \<open>The value of an enumerator, its position.\<close>

fun message_type_index :: "message_type \<Rightarrow> nat" where
  "message_type_index kVersion = 0"
| "message_type_index kVerAck = 1"
| "message_type_index kInv = 2"
| "message_type_index kAddr = 3"
| "message_type_index kPing = 4"
| "message_type_index kPong = 5"
| "message_type_index kGetHeaders = 6"
| "message_type_index kHeaders = 7"
| "message_type_index kGetAddr = 8"
| "message_type_index kMemPool = 9"
| "message_type_index kReject = 10"
| "message_type_index kGetData = 11"
| "message_type_index kNotFound = 12"
| "message_type_index kMissingOrUnknown = 13"

datatype rejection_code =
    kOk | kMalformed | kInvalid | kObsolete | kDuplicate | kNonstandard | kDust | kInsufficientFee | kCheckpoint
  | kCheckBlockAtHeightNotFound | kSideChainIdNotFound | kInsufficientSideChainFunds | kAbsurdlyHighFee
  | kHasConflicts | kNoCoinsForInput | kInvalidProof | kSideChainCumulativeCommTree | kActiveCertDataHash
  | kTooManyCswInputsForSideChain

definition rejection_codes :: "(rejection_code \<times> byte) list" where
  "rejection_codes =
    [(kOk, 0x00), (kMalformed, 0x01), (kInvalid, 0x10), (kObsolete, 0x11), (kDuplicate, 0x12), (kNonstandard, 0x40),
     (kDust, 0x41), (kInsufficientFee, 0x42), (kCheckpoint, 0x43), (kCheckBlockAtHeightNotFound, 0x44),
     (kSideChainIdNotFound, 0x45), (kInsufficientSideChainFunds, 0x46), (kAbsurdlyHighFee, 0x47),
     (kHasConflicts, 0x48), (kNoCoinsForInput, 0x49), (kInvalidProof, 0x4a), (kSideChainCumulativeCommTree, 0x4b),
     (kActiveCertDataHash, 0x4c), (kTooManyCswInputsForSideChain, 0x4d)]"

definition rejection_code_value :: "rejection_code \<Rightarrow> byte" where
  "rejection_code_value c = the (map_of rejection_codes c)"

definition rejection_code_cast :: "byte \<Rightarrow> rejection_code option" where
  "rejection_code_cast b = map_option fst (find (\<lambda>p. snd p = b) rejection_codes)"

definition char_byte :: "char \<Rightarrow> byte" where
  "char_byte c = of_nat (of_char c)"

text \<open>\<open>None\<close> is the failed assertion on the length of the label.\<close>

definition get_command_from_message_type :: "message_type \<Rightarrow> bool \<Rightarrow> bytes option" where
  "get_command_from_message_type message_type check_length =
    (let label = drop 1 (message_type_name message_type)
     in if check_length \<and> length label > kMessageHeaderCommandLength then None
        else Some (resize_list 0 kMessageHeaderCommandLength (map (char_byte \<circ> to_lower) label)))"

definition get_commands :: "(bytes \<times> message_type) list" where
  "get_commands =
    map (\<lambda>t. (the (get_command_from_message_type t True), t)) (filter (\<lambda>t. t \<noteq> kMissingOrUnknown) message_types)"

definition message_type_from_command :: "bytes \<Rightarrow> message_type" where
  "message_type_from_command command =
    (case find (\<lambda>p. fst p = command) get_commands of None \<Rightarrow> kMissingOrUnknown | Some p \<Rightarrow> snd p)"

definition is_known_command :: "bytes \<Rightarrow> bool" where
  "is_known_command command =
    (if command = [] \<or> length command > kMessageHeaderCommandLength then False
     else message_type_from_command (command @ replicate (kMessageHeaderCommandLength - length command) 0) \<noteq> kMissingOrUnknown)"

section \<open>Message definitions\<close>

record message_definition =
  mdef_command :: "string option"
  mdef_message_type :: message_type
  mdef_is_vectorized :: bool
  mdef_max_vector_items :: "nat option"
  mdef_vector_item_size :: "nat option"
  mdef_min_payload_length :: "nat option"
  mdef_max_payload_length :: "nat option"
  mdef_min_protocol_version :: "int option"
  mdef_max_protocol_version :: "int option"

definition plain_message :: "string \<Rightarrow> message_type \<Rightarrow> nat \<Rightarrow> nat \<Rightarrow> message_definition" where
  "plain_message command t lo hi =
    \<lparr>mdef_command = Some command, mdef_message_type = t, mdef_is_vectorized = False, mdef_max_vector_items = None,
     mdef_vector_item_size = None, mdef_min_payload_length = Some lo, mdef_max_payload_length = Some hi,
     mdef_min_protocol_version = None, mdef_max_protocol_version = None\<rparr>"

definition vector_message :: "string \<Rightarrow> message_type \<Rightarrow> nat \<Rightarrow> nat option \<Rightarrow> nat \<Rightarrow> nat option \<Rightarrow> message_definition" where
  "vector_message command t items item_size lo hi =
    \<lparr>mdef_command = Some command, mdef_message_type = t, mdef_is_vectorized = True, mdef_max_vector_items = Some items,
     mdef_vector_item_size = item_size, mdef_min_payload_length = Some lo, mdef_max_payload_length = hi,
     mdef_min_protocol_version = None, mdef_max_protocol_version = None\<rparr>"

definition compact_sizeof_nat :: "nat \<Rightarrow> nat" where
  "compact_sizeof_nat n = ser_compact_sizeof (of_nat n)"

definition kMessageVersion :: message_definition where
  "kMessageVersion = plain_message ''version'' kVersion 46 kKiB"
definition kMessageVerAck :: message_definition where
  "kMessageVerAck = plain_message ''verack'' kVerAck 0 0"
definition kMessageInv :: message_definition where
  "kMessageInv = vector_message ''inv'' kInv kMaxInvItems (Some kInvItemSize) (1 + kInvItemSize)
    (Some (compact_sizeof_nat kMaxInvItems + kMaxInvItems * kInvItemSize))"
definition kMessageGetData :: message_definition where
  "kMessageGetData = vector_message ''getdata'' kGetData kMaxInvItems (Some kInvItemSize) (1 + kInvItemSize)
    (Some (compact_sizeof_nat kMaxInvItems + kMaxInvItems * kInvItemSize))"
definition kMessageAddr :: message_definition where
  "kMessageAddr = vector_message ''addr'' kAddr kMaxAddrItems (Some kAddrItemSize) (1 + kAddrItemSize)
    (Some (compact_sizeof_nat kMaxAddrItems + kMaxAddrItems * kAddrItemSize))"
definition kMessagePing :: message_definition where
  "kMessagePing = plain_message ''ping'' kPing 8 8"
definition kMessagePong :: message_definition where
  "kMessagePong = plain_message ''pong'' kPong 8 8"
definition kMessageGetheaders :: message_definition where
  "kMessageGetheaders = vector_message ''getheaders'' kGetHeaders kMaxGetHeadersItems (Some 32) (4 + 1 + 32 * 2)
    (Some (4 + compact_sizeof_nat kMaxGetHeadersItems + 32 * (kMaxGetHeadersItems + 1)))"
definition kMessageHeaders :: message_definition where
  "kMessageHeaders = vector_message ''headers'' kHeaders kMaxHeadersItems None (1 + 140) None"
definition kMessageGetAddr :: message_definition where
  "kMessageGetAddr = plain_message ''getaddr'' kGetAddr 0 0"
definition kMessageMempool :: message_definition where
  "kMessageMempool = plain_message ''mempool'' kMemPool 0 0"
definition kMessageReject :: message_definition where
  "kMessageReject = plain_message ''reject'' kReject 3 (12 + 1 + 256 + 32)"
definition kMessageNotFound :: message_definition where
  "kMessageNotFound = vector_message ''notfound'' kNotFound kMaxInvItems (Some kInvItemSize) (1 + kInvItemSize)
    (Some (compact_sizeof_nat kMaxInvItems + kMaxInvItems * kInvItemSize))"
definition kMessageMissingOrUnknown :: message_definition where
  "kMessageMissingOrUnknown =
    \<lparr>mdef_command = None, mdef_message_type = kMissingOrUnknown, mdef_is_vectorized = False, mdef_max_vector_items = None,
     mdef_vector_item_size = None, mdef_min_payload_length = None, mdef_max_payload_length = None,
     mdef_min_protocol_version = None, mdef_max_protocol_version = None\<rparr>"

definition kMessageDefinitions :: "message_definition list" where
  "kMessageDefinitions =
    [kMessageVersion, kMessageVerAck, kMessageInv, kMessageAddr, kMessagePing, kMessagePong, kMessageGetheaders,
     kMessageHeaders, kMessageGetAddr, kMessageMempool, kMessageReject, kMessageGetData, kMessageNotFound,
     kMessageMissingOrUnknown]"

definition definition_of :: "message_type \<Rightarrow> message_definition" where
  "definition_of t = kMessageDefinitions ! message_type_index t"

section \<open>Lemmas\<close>

lemmas message_definition_defs = kMessageVersion_def kMessageVerAck_def kMessageInv_def kMessageGetData_def
  kMessageAddr_def kMessagePing_def kMessagePong_def kMessageGetheaders_def kMessageHeaders_def kMessageGetAddr_def
  kMessageMempool_def kMessageReject_def kMessageNotFound_def kMessageMissingOrUnknown_def plain_message_def
  vector_message_def

lemma kMessageHeaderLength_eq [simp]: "kMessageHeaderLength = 24"
  by (simp add: kMessageHeaderLength_def kMessageHeaderMagicLength_def kMessageHeaderCommandLength_def
      kMessageHeaderChecksumLength_def)

lemma definition_of_simps [simp]:
  "definition_of kVersion = kMessageVersion" "definition_of kVerAck = kMessageVerAck"
  "definition_of kInv = kMessageInv" "definition_of kAddr = kMessageAddr" "definition_of kPing = kMessagePing"
  "definition_of kPong = kMessagePong" "definition_of kGetHeaders = kMessageGetheaders"
  "definition_of kHeaders = kMessageHeaders" "definition_of kGetAddr = kMessageGetAddr"
  "definition_of kMemPool = kMessageMempool" "definition_of kReject = kMessageReject"
  "definition_of kGetData = kMessageGetData" "definition_of kNotFound = kMessageNotFound"
  "definition_of kMissingOrUnknown = kMessageMissingOrUnknown"
  by (simp_all add: definition_of_def kMessageDefinitions_def)

text \<open>The table of definitions is in the order of the enumeration, which its users index it by.\<close>

lemma definition_of_type: "mdef_message_type (definition_of t) = t"
  by (cases t) (simp_all add: message_definition_defs)

lemma set_message_types: "set message_types = UNIV"
  using message_type.exhaust by (auto simp: message_types_def)

lemma commands_eq:
  "get_commands =
    [(map char_byte ''version'' @ replicate 5 0, kVersion), (map char_byte ''verack'' @ replicate 6 0, kVerAck),
     (map char_byte ''inv'' @ replicate 9 0, kInv), (map char_byte ''addr'' @ replicate 8 0, kAddr),
     (map char_byte ''ping'' @ replicate 8 0, kPing), (map char_byte ''pong'' @ replicate 8 0, kPong),
     (map char_byte ''getheaders'' @ replicate 2 0, kGetHeaders), (map char_byte ''headers'' @ replicate 5 0, kHeaders),
     (map char_byte ''getaddr'' @ replicate 5 0, kGetAddr), (map char_byte ''mempool'' @ replicate 5 0, kMemPool),
     (map char_byte ''reject'' @ replicate 6 0, kReject), (map char_byte ''getdata'' @ replicate 5 0, kGetData),
     (map char_byte ''notfound'' @ replicate 4 0, kNotFound)]"
  by (simp add: get_commands_def message_types_def get_command_from_message_type_def kMessageHeaderCommandLength_def
      resize_list_def to_lower_def char_byte_def Let_def)

lemma from_command_simps:
  "message_type_from_command (map char_byte ''version'' @ replicate 5 0) = kVersion"
  "message_type_from_command (map char_byte ''verack'' @ replicate 6 0) = kVerAck"
  "message_type_from_command (map char_byte ''inv'' @ replicate 9 0) = kInv"
  "message_type_from_command (map char_byte ''addr'' @ replicate 8 0) = kAddr"
  "message_type_from_command (map char_byte ''ping'' @ replicate 8 0) = kPing"
  "message_type_from_command (map char_byte ''pong'' @ replicate 8 0) = kPong"
  "message_type_from_command (map char_byte ''getheaders'' @ replicate 2 0) = kGetHeaders"
  "message_type_from_command (map char_byte ''headers'' @ replicate 5 0) = kHeaders"
  "message_type_from_command (map char_byte ''getaddr'' @ replicate 5 0) = kGetAddr"
  "message_type_from_command (map char_byte ''mempool'' @ replicate 5 0) = kMemPool"
  "message_type_from_command (map char_byte ''reject'' @ replicate 6 0) = kReject"
  "message_type_from_command (map char_byte ''getdata'' @ replicate 5 0) = kGetData"
  "message_type_from_command (map char_byte ''notfound'' @ replicate 4 0) = kNotFound"
  by (simp_all add: message_type_from_command_def commands_eq char_byte_def)

definition padded_command :: "message_definition \<Rightarrow> bytes" where
  "padded_command d =
    (let command = map char_byte (case mdef_command d of None \<Rightarrow> [] | Some c \<Rightarrow> c)
     in command @ replicate (kMessageHeaderCommandLength - length command) 0)"

lemma from_padded_command: "t \<noteq> kMissingOrUnknown \<Longrightarrow> message_type_from_command (padded_command (definition_of t)) = t"
  using from_command_simps
  by (cases t) (simp_all add: padded_command_def message_definition_defs kMessageHeaderCommandLength_def)

lemma length_padded_command: "length (padded_command (definition_of t)) = 12"
  by (cases t) (simp_all add: padded_command_def message_definition_defs kMessageHeaderCommandLength_def)

section \<open>Properties\<close>

text \<open>The commands, the enumeration and the table of definitions are consistent: the definition at the
  position of a type is the definition of that type, and the command in that definition, padded with zeroes to
  12 bytes as a header carries it, is mapped back to the type.\<close>

theorem commands_consistent:
  "mdef_message_type (definition_of t) = t \<and> length (padded_command (definition_of t)) = kMessageHeaderCommandLength \<and>
   (t = kMissingOrUnknown \<or> message_type_from_command (padded_command (definition_of t)) = t)"
  using definition_of_type from_padded_command length_padded_command by (metis kMessageHeaderCommandLength_def)

end
