(* ===== verification/Payloads.thy ===== *)
theory Payloads
  imports Protocol Block Addresses
begin

text \<open>
  infra/network/payloads.hpp and payloads.cpp: the payloads of the network messages and their serialization. The
  classes derived from \<open>MessagePayload\<close> are the constructors of one type. The JSON forms and the
  shuffling of addresses are not modelled.
\<close>

section \<open>Payloads\<close>

record version_payload =
  vp_protocol_version :: "32 word"
  vp_services :: "64 word"
  vp_timestamp :: "64 word"
  vp_recipient_service :: node_service
  vp_sender_service :: node_service
  vp_nonce :: "64 word"
  vp_user_agent :: bytes
  vp_last_block_height :: "32 word"
  vp_relay :: bool

record get_headers_payload =
  gh_protocol_version :: "32 word"
  gh_block_locator_hashes :: "bytes list"
  gh_hash_stop :: bytes

record reject_payload =
  rp_rejected_command :: bytes
  rp_rejection_code :: rejection_code
  rp_reason :: bytes
  rp_extra_data :: "bytes option"

datatype message_payload =
    NullPayload message_type
  | VersionPayload version_payload
  | PingPongPayload message_type "64 word"
  | GetHeadersPayload get_headers_payload
  | AddrPayload "node_service list"
  | InventoryPayload message_type "inventory_item list"
  | RejectPayload reject_payload

definition version_payload_new :: version_payload where
  "version_payload_new =
    \<lparr>vp_protocol_version = 0, vp_services = 0, vp_timestamp = 0, vp_recipient_service = node_service_new,
     vp_sender_service = node_service_new, vp_nonce = 0, vp_user_agent = [], vp_last_block_height = 0, vp_relay = False\<rparr>"

definition get_headers_payload_new :: get_headers_payload where
  "get_headers_payload_new = \<lparr>gh_protocol_version = 0, gh_block_locator_hashes = [], gh_hash_stop = hash_zero 32\<rparr>"

definition reject_payload_new :: reject_payload where
  "reject_payload_new = \<lparr>rp_rejected_command = [], rp_rejection_code = kOk, rp_reason = [], rp_extra_data = None\<rparr>"

fun payload_type :: "message_payload \<Rightarrow> message_type" where
  "payload_type (NullPayload t) = t"
| "payload_type (VersionPayload v) = kVersion"
| "payload_type (PingPongPayload t n) = t"
| "payload_type (GetHeadersPayload g) = kGetHeaders"
| "payload_type (AddrPayload a) = kAddr"
| "payload_type (InventoryPayload t i) = t"
| "payload_type (RejectPayload r) = kReject"

text \<open>The constructors with an assertion on the type; \<open>None\<close> is its failure.\<close>

definition null_payload :: "message_type \<Rightarrow> message_payload option" where
  "null_payload t = (if t = kVerAck \<or> t = kMemPool \<or> t = kGetAddr then Some (NullPayload t) else None)"

definition ping_pong_payload :: "message_type \<Rightarrow> 64 word \<Rightarrow> message_payload option" where
  "ping_pong_payload t nonce = (if t = kPing \<or> t = kPong then Some (PingPongPayload t nonce) else None)"

definition inventory_payload :: "message_type \<Rightarrow> message_payload option" where
  "inventory_payload t = (if t = kInv \<or> t = kGetData \<or> t = kNotFound then Some (InventoryPayload t []) else None)"

text \<open>\<open>MessagePayload::from_type\<close>: \<open>None\<close> is a failed assertion, \<open>Some None\<close> the null
  pointer.\<close>

fun payload_from_type :: "message_type \<Rightarrow> message_payload option option" where
  "payload_from_type kVersion = Some (Some (VersionPayload version_payload_new))"
| "payload_from_type kPing = map_option Some (ping_pong_payload kPing 0)"
| "payload_from_type kPong = map_option Some (ping_pong_payload kPong 0)"
| "payload_from_type kGetHeaders = Some (Some (GetHeadersPayload get_headers_payload_new))"
| "payload_from_type kAddr = Some (Some (AddrPayload []))"
| "payload_from_type kInv = map_option Some (inventory_payload kInv)"
| "payload_from_type kGetData = map_option Some (inventory_payload kGetData)"
| "payload_from_type kNotFound = map_option Some (inventory_payload kNotFound)"
| "payload_from_type kReject = Some (Some (RejectPayload reject_payload_new))"
| "payload_from_type kVerAck = map_option Some (null_payload kVerAck)"
| "payload_from_type kMemPool = map_option Some (null_payload kMemPool)"
| "payload_from_type kGetAddr = map_option Some (null_payload kGetAddr)"
| "payload_from_type kMissingOrUnknown = map_option Some (null_payload kMissingOrUnknown)"
| "payload_from_type kHeaders = Some None"

section \<open>Serialization\<close>

definition version_payload_members :: "action \<Rightarrow> version_payload bind_fun" where
  "version_payload_members action =
    and_then (on_field vp_protocol_version (\<lambda>v. vp_protocol_version_update (\<lambda>_. v)) (bind_integral action))
    (and_then (on_field vp_services (\<lambda>v. vp_services_update (\<lambda>_. v)) (bind_integral action))
    (and_then (on_field vp_timestamp (\<lambda>v. vp_timestamp_update (\<lambda>_. v)) (bind_integral action))
    (and_then (on_field vp_recipient_service (\<lambda>v. vp_recipient_service_update (\<lambda>_. v)) (version_node_service_serialization action))
    (and_then (on_field vp_sender_service (\<lambda>v. vp_sender_service_update (\<lambda>_. v)) (version_node_service_serialization action))
    (and_then (on_field vp_nonce (\<lambda>v. vp_nonce_update (\<lambda>_. v)) (bind_integral action))
    (and_then (on_field vp_user_agent (\<lambda>v. vp_user_agent_update (\<lambda>_. v)) (bind_string action))
    (and_then (on_field vp_last_block_height (\<lambda>v. vp_last_block_height_update (\<lambda>_. v)) (bind_integral action))
    (on_field vp_relay (\<lambda>v. vp_relay_update (\<lambda>_. v)) (bind_bool action)))))))))"

definition version_payload_serialization :: "action \<Rightarrow> version_payload bind_fun" where
  "version_payload_serialization action x =
    (case version_payload_members action x of (result, v, s) \<Rightarrow>
      if action = kDeserialize \<and> sint (vp_timestamp v) < 0 then (Some (NetError kMessagePayloadInvalidTimestamp), v, s)
      else if action = kDeserialize \<and> sint (vp_last_block_height v) < 0
      then (Some (NetError kMessagePayloadInvalidLastBlockHeight), v, s)
      else (result, v, s))"

text \<open>The loop of a vector of items, as \<open>MsgAddrPayload\<close> and \<open>MsgInventoryPayload\<close> have it: every
  action but \<open>kSerialize\<close> reads.\<close>

definition bind_items :: "nat \<Rightarrow> 'v \<Rightarrow> (action \<Rightarrow> 'v bind_fun) \<Rightarrow> action \<Rightarrow> 'v list bind_fun" where
  "bind_items max_items item f action x =
    (case x of (items, s) \<Rightarrow>
      if action = kSerialize then
        (let vector_size = length items
         in if vector_size = 0 then (Some (NetError kMessagePayloadEmptyVector), items, s)
            else if vector_size > max_items then (Some (NetError kMessagePayloadOversizedVector), items, s)
            else
              (case write_compact (of_nat vector_size) s of
                (Some e, t) \<Rightarrow> (Some e, items, t)
              | (None, t) \<Rightarrow> bind_each f kSerialize (items, t)))
      else
        (case read_compact True s of
          (Failure e, t) \<Rightarrow> (Some e, items, t)
        | (Success expected_vector_size, t) \<Rightarrow>
            if expected_vector_size = 0 then (Some (NetError kMessagePayloadEmptyVector), items, t)
            else if unat expected_vector_size > max_items then (Some (NetError kMessagePayloadOversizedVector), items, t)
            else bind_each f kDeserialize (resize_list item (unat expected_vector_size) items, t)))"

definition addr_payload_serialization :: "action \<Rightarrow> node_service list bind_fun" where
  "addr_payload_serialization = bind_items kMaxAddrItems node_service_new node_service_serialization"

definition inventory_payload_serialization :: "action \<Rightarrow> inventory_item list bind_fun" where
  "inventory_payload_serialization = bind_items kMaxInvItems inventory_item_new inventory_item_serialization"

definition gh_put_hashes :: "get_headers_payload \<Rightarrow> bytes list \<Rightarrow> get_headers_payload" where
  "gh_put_hashes g hs = g\<lparr>gh_block_locator_hashes := hs\<rparr>"

text \<open>The hashes and the stop hash, after the count.\<close>

definition get_headers_hashes :: "action \<Rightarrow> get_headers_payload bind_fun" where
  "get_headers_hashes action =
    and_then
      (on_field gh_block_locator_hashes (\<lambda>v. gh_block_locator_hashes_update (\<lambda>_. v)) (bind_each (bind_hash 32) action))
      (on_field gh_hash_stop (\<lambda>v. gh_hash_stop_update (\<lambda>_. v)) (bind_hash 32 action))"

definition get_headers_serialization :: "action \<Rightarrow> get_headers_payload bind_fun" where
  "get_headers_serialization action x =
    (case x of (g, s) \<Rightarrow>
      case bind_integral action (if action = kSerialize then word_of_int (ds_version s) else 0 :: 32 word, s) of
        (Some e, v, t) \<Rightarrow> (Some e, g\<lparr>gh_protocol_version := v\<rparr>, t)
      | (None, v, t) \<Rightarrow>
          (let g = g\<lparr>gh_protocol_version := v\<rparr>
           in if action = kSerialize then
                (let vector_size = length (gh_block_locator_hashes g)
                 in if vector_size = 0 then (Some (NetError kMessagePayloadEmptyVector), g, t)
                    else if vector_size > kMaxGetHeadersItems then (Some (NetError kMessagePayloadOversizedVector), g, t)
                    else
                      (case write_compact (of_nat vector_size) t of
                        (Some e, u) \<Rightarrow> (Some e, g, u)
                      | (None, u) \<Rightarrow> get_headers_hashes kSerialize (g, u)))
              else
                (case read_compact True t of
                  (Failure e, u) \<Rightarrow> (Some e, g, u)
                | (Success n, u) \<Rightarrow>
                    if n = 0 then (Some (NetError kMessagePayloadEmptyVector), g, u)
                    else if unat n > kMaxHeadersItems then (Some (NetError kMessagePayloadOversizedVector), g, u)
                    else get_headers_hashes kDeserialize
                      (gh_put_hashes g (resize_list (hash_zero 32) (unat n) (gh_block_locator_hashes g)), u))))"

definition reject_serialize :: "reject_payload bind_fun" where
  "reject_serialize x =
    (case x of (r, s) \<Rightarrow>
      if \<not> is_known_command (rp_rejected_command r) then (Some (NetError kUnknownRejectedCommand), r, s)
      else if length (rp_reason r) > 256 then (Some (SerError kStringTooBig), r, s)
      else
        and_then (on_field rp_rejected_command (\<lambda>v. rp_rejected_command_update (\<lambda>_. v)) (bind_string kSerialize))
        (and_then (on_field (\<lambda>r. rejection_code_value (rp_rejection_code r)) (\<lambda>_ r. r) (bind_integral kSerialize))
        (and_then (on_field rp_reason (\<lambda>v. rp_reason_update (\<lambda>_. v)) (bind_string kSerialize))
        (\<lambda>(r, s). case rp_extra_data r of
            None \<Rightarrow> (None, r, s)
          | Some d \<Rightarrow> on_field (\<lambda>_. d) (\<lambda>v. rp_extra_data_update (\<lambda>_. Some v)) (bind_hash 32 kSerialize) (r, s)))) (r, s))"

definition reject_extra_data :: "action \<Rightarrow> reject_payload bind_fun" where
  "reject_extra_data action x =
    (case x of (r, s) \<Rightarrow>
      if length (rp_reason r) > 256 then (Some (SerError kStringTooBig), r, s)
      else if stream_avail s \<ge> 32 then
        (case bind_hash 32 action (hash_zero 32, s) of
          (Some e, d, t) \<Rightarrow> (Some e, r, t)
        | (None, d, t) \<Rightarrow> (None, r\<lparr>rp_extra_data := Some d\<rparr>, t))
      else (None, r, s))"

text \<open>The branch of every other action. The code that was read is checked and not stored.\<close>

definition reject_read :: "action \<Rightarrow> reject_payload bind_fun" where
  "reject_read action =
    and_then (on_field rp_rejected_command (\<lambda>v. rp_rejected_command_update (\<lambda>_. v)) (bind_string action))
    (and_then (\<lambda>(r, s). if \<not> is_known_command (rp_rejected_command r) then (Some (NetError kUnknownRejectedCommand), r, s)
        else (None, r, s))
    (and_then (\<lambda>(r, s). case bind_integral action (0 :: byte, s) of
          (Some e, code, t) \<Rightarrow> (Some e, r, t)
        | (None, code, t) \<Rightarrow>
            if rejection_code_cast code = None then (Some (SerError kInvalidRejectionCode), r, t) else (None, r, t))
    (and_then (on_field rp_reason (\<lambda>v. rp_reason_update (\<lambda>_. v)) (bind_string action))
    (reject_extra_data action))))"

definition reject_serialization :: "action \<Rightarrow> reject_payload bind_fun" where
  "reject_serialization action = (if action = kSerialize then reject_serialize else reject_read action)"

definition lift_payload :: "('v \<Rightarrow> message_payload) \<Rightarrow> error_code status \<times> 'v \<times> sdata_stream \<Rightarrow>
  error_code status \<times> message_payload \<times> sdata_stream" where
  "lift_payload c r = (case r of (e, v, t) \<Rightarrow> (e, c v, t))"

text \<open>The dispatch on the class of the payload.\<close>

definition payload_serialization :: "action \<Rightarrow> message_payload bind_fun" where
  "payload_serialization action x =
    (case x of (p, s) \<Rightarrow>
      (case p of
        NullPayload t \<Rightarrow> (None, p, s)
      | VersionPayload v \<Rightarrow> lift_payload VersionPayload (version_payload_serialization action (v, s))
      | PingPongPayload t n \<Rightarrow> lift_payload (PingPongPayload t) (bind_integral action (n, s))
      | GetHeadersPayload g \<Rightarrow> lift_payload GetHeadersPayload (get_headers_serialization action (g, s))
      | AddrPayload a \<Rightarrow> lift_payload AddrPayload (addr_payload_serialization action (a, s))
      | InventoryPayload t i \<Rightarrow> lift_payload (InventoryPayload t) (inventory_payload_serialization action (i, s))
      | RejectPayload r \<Rightarrow> lift_payload RejectPayload (reject_serialization action (r, s))))"

section \<open>Vectors of items\<close>

definition items_bytes :: "('v \<Rightarrow> bytes) \<Rightarrow> 'v list \<Rightarrow> bytes" where
  "items_bytes e xs = compact_bytes (of_nat (length xs)) @ concat (map e xs)"

lemma of_nat_length_zero: "length xs \<le> kMaxSerializedCompactSize \<Longrightarrow> (of_nat (length xs) :: 64 word) = 0 \<longleftrightarrow> xs = []"
  using unat_of_nat_compact [of "length xs"] unat_eq_0 [of "of_nat (length xs) :: 64 word"] by simp

lemma read_count_prefix:
  assumes "stream_inv s" "unread s = compact_bytes (of_nat n) @ rest" "n \<le> kMaxSerializedCompactSize"
  shows "read_compact True s = (Success (of_nat n), advance (ser_compact_sizeof (of_nat n)) s)"
    "stream_inv (advance (ser_compact_sizeof (of_nat n)) s)" "unread (advance (ser_compact_sizeof (of_nat n)) s) = rest"
  using read_compact_prefix [OF assms(1,2)] advance_prefix [OF assms(1,2)] assms(3)
  by (simp_all add: unat_of_nat_compact length_compact_bytes)

lemma bind_items_codec:
  assumes F: "codec F e (\<lambda>v w. v) p" and n: "n \<le> kMaxSerializedCompactSize"
  shows "codec (bind_items n d F) (items_bytes e) (\<lambda>v w. v) (\<lambda>xs. xs \<noteq> [] \<and> length xs \<le> n \<and> (\<forall>x \<in> set xs. p x))"
proof (intro codec.intro reader.intro codec_axioms.intro, goal_cases)
  case (1 s w r v t)
  have F': "reader F"
    using F by (simp add: codec_def)
  obtain c u where c: "read_compact True s = (c, u)"
    by (cases "read_compact True s")
  note u = read_compact_safe [OF 1(1) c]
  show ?case
  proof (cases c)
    case (Failure e1)
    with 1(2) c u show ?thesis by (simp add: bind_items_def)
  next
    case (Success k)
    then show ?thesis
      using 1(2) c u bind_each_safe [OF F' stays_inv [OF u], of "resize_list d (unat k) w" r v t]
      by (auto simp: bind_items_def split: if_splits intro: stays_trans)
  qed
next
  case (2 v s)
  then show ?case
    using bind_each_writes [OF F, of v "append_bytes (compact_bytes (of_nat (length v))) s"]
    by (simp add: bind_items_def items_bytes_def length_compact_bytes write_compact_append)
next
  case (3 v s rest w)
  let ?n = "of_nat (length v) :: 64 word"
  have v: "length v \<le> kMaxSerializedCompactSize" "unat ?n = length v" "?n \<noteq> 0"
    using 3(1) n unat_of_nat_compact [of "length v"] of_nat_length_zero [of v] by simp_all
  note c = read_count_prefix [OF 3(2) _ v(1), of "concat (map e v) @ rest"]
  have "bind_each F kDeserialize (resize_list d (length v) w, advance (ser_compact_sizeof ?n) s) =
      (None, v, advance (length (concat (map e v))) (advance (ser_compact_sizeof ?n) s))"
    using bind_each_reads [OF F, of v "resize_list d (length v) w"] 3 c(2,3) by (simp add: items_bytes_def)
  then show ?case
    using 3 v c(1) by (simp add: bind_items_def items_bytes_def length_compact_bytes)
qed

lemma max_items_le: "kMaxAddrItems \<le> kMaxSerializedCompactSize" "kMaxInvItems \<le> kMaxSerializedCompactSize"
    "kMaxGetHeadersItems \<le> kMaxSerializedCompactSize" "kMaxHeadersItems \<le> kMaxGetHeadersItems"
  by (simp_all add: kMaxAddrItems_def kMaxInvItems_def kMaxGetHeadersItems_def kMaxHeadersItems_def kMaxSerializedCompactSize_def)

interpretation addr_codec: codec addr_payload_serialization "items_bytes node_service_bytes" "\<lambda>v w. v"
    "\<lambda>xs. xs \<noteq> [] \<and> length xs \<le> kMaxAddrItems \<and> (\<forall>x \<in> set xs. node_service_ok x)"
  unfolding addr_payload_serialization_def
  by (rule bind_items_codec [OF node_service_codec.codec_axioms max_items_le(1)])

interpretation inventory_items_codec: codec inventory_payload_serialization "items_bytes inventory_item_bytes" "\<lambda>v w. v"
    "\<lambda>xs. xs \<noteq> [] \<and> length xs \<le> kMaxInvItems \<and> (\<forall>x \<in> set xs. length (inv_identifier x) = 32)"
  unfolding inventory_payload_serialization_def
  by (rule bind_items_codec [OF inventory_codec.codec_axioms max_items_le(2)])

section \<open>Version payloads\<close>

definition version_payload_bytes :: "version_payload \<Rightarrow> bytes" where
  "version_payload_bytes v =
    word_to_le (vp_protocol_version v) @ word_to_le (vp_services v) @ word_to_le (vp_timestamp v) @
    version_node_service_bytes (vp_recipient_service v) @ version_node_service_bytes (vp_sender_service v) @
    word_to_le (vp_nonce v) @ string_bytes (vp_user_agent v) @ word_to_le (vp_last_block_height v) @
    [if vp_relay v then 1 else 0]"

definition version_members_ok :: "version_payload \<Rightarrow> bool" where
  "version_members_ok v \<longleftrightarrow> address_ok (ep_address (ns_endpoint (vp_recipient_service v))) \<and>
    address_ok (ep_address (ns_endpoint (vp_sender_service v))) \<and> length (vp_user_agent v) \<le> kMaxSerializedCompactSize"

definition version_payload_ok :: "version_payload \<Rightarrow> bool" where
  "version_payload_ok v \<longleftrightarrow> version_members_ok v \<and> 0 \<le> sint (vp_timestamp v) \<and> 0 \<le> sint (vp_last_block_height v)"

text \<open>The times of the two services are not on the wire.\<close>

definition keep_time :: "node_service \<Rightarrow> node_service \<Rightarrow> node_service" where
  "keep_time n m = n\<lparr>ns_time := ns_time m\<rparr>"

definition version_payload_upd :: "version_payload \<Rightarrow> version_payload \<Rightarrow> version_payload" where
  "version_payload_upd v w =
    v\<lparr>vp_recipient_service := keep_time (vp_recipient_service v) (vp_recipient_service w),
      vp_sender_service := keep_time (vp_sender_service v) (vp_sender_service w)\<rparr>"

lemma version_payload_update_all:
  "w\<lparr>vp_protocol_version := vp_protocol_version v, vp_services := vp_services v, vp_timestamp := vp_timestamp v,
    vp_recipient_service := (vp_recipient_service w)\<lparr>ns_services := ns_services (vp_recipient_service v), ns_endpoint := ns_endpoint (vp_recipient_service v)\<rparr>,
    vp_sender_service := (vp_sender_service w)\<lparr>ns_services := ns_services (vp_sender_service v), ns_endpoint := ns_endpoint (vp_sender_service v)\<rparr>,
    vp_nonce := vp_nonce v, vp_user_agent := vp_user_agent v, vp_last_block_height := vp_last_block_height v,
    vp_relay := vp_relay v\<rparr> = version_payload_upd v w"
  by (simp add: version_payload_upd_def keep_time_def)

lemma version_members_sized_codec:
  "sized_codec version_payload_members version_payload_bytes version_payload_upd version_members_ok"
proof -
  note p = integral_field [of "\<lambda>v. vp_protocol_version_update (\<lambda>_. v)" vp_protocol_version, simplified]
  note s = integral_field [of "\<lambda>v. vp_services_update (\<lambda>_. v)" vp_services, simplified]
  note t = integral_field [of "\<lambda>v. vp_timestamp_update (\<lambda>_. v)" vp_timestamp, simplified]
  note r = sized_codec_on_field [OF version_service_codec.sized_codec_axioms, of "\<lambda>v. vp_recipient_service_update (\<lambda>_. v)" vp_recipient_service, simplified]
  note d = sized_codec_on_field [OF version_service_codec.sized_codec_axioms, of "\<lambda>v. vp_sender_service_update (\<lambda>_. v)" vp_sender_service, simplified]
  note n = integral_field [of "\<lambda>v. vp_nonce_update (\<lambda>_. v)" vp_nonce, simplified]
  note u = sized_codec_on_field [OF string_codec.sized_codec_axioms, of "\<lambda>v. vp_user_agent_update (\<lambda>_. v)" vp_user_agent, simplified]
  note h = integral_field [of "\<lambda>v. vp_last_block_height_update (\<lambda>_. v)" vp_last_block_height, simplified]
  note b = sized_codec_on_field [OF bool_codec.sized_codec_axioms, of "\<lambda>v. vp_relay_update (\<lambda>_. v)" "vp_relay :: version_payload \<Rightarrow> _", simplified]
  note all = sized_codec_and_then [OF p sized_codec_and_then [OF s sized_codec_and_then [OF t
      sized_codec_and_then [OF r sized_codec_and_then [OF d sized_codec_and_then [OF n
      sized_codec_and_then [OF u sized_codec_and_then [OF h b]]]]]]]]
  show ?thesis
    using all
    by (simp add: version_payload_members_def [abs_def] version_payload_bytes_def [abs_def]
        version_members_ok_def [abs_def] version_payload_update_all)
qed

interpretation version_payload_codec: codec version_payload_serialization version_payload_bytes version_payload_upd version_payload_ok
proof -
  note m = version_members_sized_codec [THEN sized_codec.axioms(1)]
  show "codec version_payload_serialization version_payload_bytes version_payload_upd version_payload_ok"
  proof (intro codec.intro reader.intro codec_axioms.intro, goal_cases)
    case (1 s w r v t)
    then show ?case
      using reader.safe [OF codec.axioms(1) [OF m] 1(1)]
      by (auto simp: version_payload_serialization_def split: prod.splits if_splits)
  next
    case (2 v s)
    then show ?case
      using codec.writes [OF m, of v s] by (simp add: version_payload_serialization_def version_payload_ok_def)
  next
    case (3 v s rest w)
    then show ?case
      using codec.reads [OF m, of v s rest w]
      by (simp add: version_payload_serialization_def version_payload_ok_def version_payload_upd_def)
  qed
qed

section \<open>Requests of headers\<close>

definition get_headers_bytes :: "int \<Rightarrow> get_headers_payload \<Rightarrow> bytes" where
  "get_headers_bytes version g =
    word_to_le (word_of_int version :: 32 word) @ items_bytes (\<lambda>h. h) (gh_block_locator_hashes g) @ gh_hash_stop g"

definition get_headers_ok :: "nat \<Rightarrow> get_headers_payload \<Rightarrow> bool" where
  "get_headers_ok n g \<longleftrightarrow> gh_block_locator_hashes g \<noteq> [] \<and> length (gh_block_locator_hashes g) \<le> n \<and>
    (\<forall>h \<in> set (gh_block_locator_hashes g). length h = 32) \<and> length (gh_hash_stop g) = 32"

lemma get_headers_hashes_writes:
  assumes "get_headers_ok n g" "length (ds_buffer s) + length (concat (gh_block_locator_hashes g)) + 32 \<le> kMaxStreamSize"
  shows "get_headers_hashes kSerialize (g, s) = (None, g, append_bytes (concat (gh_block_locator_hashes g) @ gh_hash_stop g) s)"
proof -
  have "bind_each (bind_hash 32) kSerialize (gh_block_locator_hashes g, s) =
      (None, gh_block_locator_hashes g, append_bytes (concat (gh_block_locator_hashes g)) s)"
    using bind_each_writes [OF hash_codec.codec_axioms [of 32], of "gh_block_locator_hashes g" s] assms
    by (simp add: get_headers_ok_def)
  moreover have "bind_hash 32 kSerialize (gh_hash_stop g, append_bytes (concat (gh_block_locator_hashes g)) s) =
      (None, gh_hash_stop g, append_bytes (gh_hash_stop g) (append_bytes (concat (gh_block_locator_hashes g)) s))"
    using assms by (intro hash_codec.writes) (simp_all add: get_headers_ok_def)
  ultimately show ?thesis
    by (simp add: get_headers_hashes_def on_field_def)
qed

lemma get_headers_hashes_reads:
  assumes "get_headers_ok n g" "stream_inv s" "unread s = concat (gh_block_locator_hashes g) @ gh_hash_stop g @ rest"
    and "length ws = length (gh_block_locator_hashes g)"
  shows "get_headers_hashes kDeserialize (gh_put_hashes w ws, s) =
    (None, g\<lparr>gh_protocol_version := gh_protocol_version w\<rparr>, advance (length (concat (gh_block_locator_hashes g)) + 32) s)"
proof -
  let ?t = "advance (length (concat (gh_block_locator_hashes g))) s"
  have "bind_each (bind_hash 32) kDeserialize (ws, s) = (None, gh_block_locator_hashes g, ?t)"
    using bind_each_reads [OF hash_codec.codec_axioms [of 32], of "gh_block_locator_hashes g" ws s "gh_hash_stop g @ rest"] assms
    by (simp add: get_headers_ok_def)
  moreover have "bind_hash 32 kDeserialize (gh_hash_stop w, ?t) = (None, gh_hash_stop g, advance 32 ?t)"
    using hash_codec.reads [of "gh_hash_stop g" 32 ?t rest] advance_prefix [OF assms(2,3)] assms(1)
    by (simp add: get_headers_ok_def)
  ultimately show ?thesis
    by (simp add: get_headers_hashes_def on_field_def gh_put_hashes_def)
qed

lemma get_headers_writes:
  assumes "get_headers_ok kMaxGetHeadersItems g" "length (ds_buffer s) + length (get_headers_bytes (ds_version s) g) \<le> kMaxStreamSize"
  shows "get_headers_serialization kSerialize (g, s) =
    (None, g\<lparr>gh_protocol_version := word_of_int (ds_version s)\<rparr>, append_bytes (get_headers_bytes (ds_version s) g) s)"
proof -
  let ?v = "word_of_int (ds_version s) :: 32 word" and ?n = "of_nat (length (gh_block_locator_hashes g)) :: 64 word"
  let ?t = "append_bytes (word_to_le ?v) s" and ?g = "g\<lparr>gh_protocol_version := word_of_int (ds_version s)\<rparr>"
  have len: "length (get_headers_bytes (ds_version s) g) =
      4 + ser_compact_sizeof ?n + length (concat (gh_block_locator_hashes g)) + 32"
    using assms(1) by (simp add: get_headers_bytes_def items_bytes_def length_compact_bytes get_headers_ok_def)
  have "bind_integral kSerialize (?v, s) = (None, ?v, ?t)"
    using integral_codec.writes [where v = ?v and s = s] assms(2) len by simp
  moreover have "write_compact ?n ?t = (None, append_bytes (compact_bytes ?n) ?t)"
    using assms(2) len by (simp add: write_compact_append)
  moreover have "get_headers_hashes kSerialize (?g, append_bytes (compact_bytes ?n) ?t) =
      (None, ?g, append_bytes (concat (gh_block_locator_hashes g) @ gh_hash_stop g) (append_bytes (compact_bytes ?n) ?t))"
    using get_headers_hashes_writes [of kMaxGetHeadersItems ?g "append_bytes (compact_bytes ?n) ?t"] assms len
    by (simp add: get_headers_ok_def length_compact_bytes)
  ultimately show ?thesis
    using assms(1) by (simp add: get_headers_serialization_def get_headers_ok_def get_headers_bytes_def items_bytes_def)
qed

lemma get_headers_reads_count:
  assumes "get_headers_ok kMaxGetHeadersItems g" "stream_inv s" "unread s = get_headers_bytes v g @ rest"
  shows "bind_integral kDeserialize (0 :: 32 word, s) = (None, word_of_int v, advance 4 s)"
    "read_compact True (advance 4 s) = (Success (of_nat (length (gh_block_locator_hashes g))),
      advance (4 + ser_compact_sizeof (of_nat (length (gh_block_locator_hashes g)))) s)"
    "unat (of_nat (length (gh_block_locator_hashes g)) :: 64 word) = length (gh_block_locator_hashes g)"
    "stream_inv (advance (4 + ser_compact_sizeof (of_nat (length (gh_block_locator_hashes g)))) s)"
    "unread (advance (4 + ser_compact_sizeof (of_nat (length (gh_block_locator_hashes g)))) s) =
      concat (gh_block_locator_hashes g) @ gh_hash_stop g @ rest"
proof -
  let ?n = "length (gh_block_locator_hashes g)"
  have n: "?n \<le> kMaxSerializedCompactSize"
    using assms(1) max_items_le(3) by (simp add: get_headers_ok_def)
  then show "unat (of_nat ?n :: 64 word) = ?n"
    by (rule unat_of_nat_compact)
  have u: "unread s = word_to_le (word_of_int v :: 32 word) @ compact_bytes (of_nat ?n) @ concat (gh_block_locator_hashes g) @ gh_hash_stop g @ rest"
    using assms(3) by (simp add: get_headers_bytes_def items_bytes_def)
  show "bind_integral kDeserialize (0 :: 32 word, s) = (None, word_of_int v, advance 4 s)"
    using integral_codec.reads [OF _ assms(2) u] by simp
  have "stream_inv (advance 4 s)" "unread (advance 4 s) = compact_bytes (of_nat ?n) @ concat (gh_block_locator_hashes g) @ gh_hash_stop g @ rest"
    using advance_prefix [OF assms(2) u] by simp_all
  from read_count_prefix [OF this n]
  show "read_compact True (advance 4 s) = (Success (of_nat ?n), advance (4 + ser_compact_sizeof (of_nat ?n)) s)"
    "stream_inv (advance (4 + ser_compact_sizeof (of_nat ?n)) s)"
    "unread (advance (4 + ser_compact_sizeof (of_nat ?n)) s) = concat (gh_block_locator_hashes g) @ gh_hash_stop g @ rest"
    by simp_all
qed

lemma get_headers_reads:
  assumes "get_headers_ok kMaxHeadersItems g" "stream_inv s" "unread s = get_headers_bytes v g @ rest"
  shows "get_headers_serialization kDeserialize (w, s) =
    (None, g\<lparr>gh_protocol_version := word_of_int v\<rparr>, advance (length (get_headers_bytes v g)) s)"
proof -
  let ?n = "length (gh_block_locator_hashes g)"
  have g: "get_headers_ok kMaxGetHeadersItems g"
    using assms(1) max_items_le(4) by (simp add: get_headers_ok_def)
  note c = get_headers_reads_count [OF g assms(2,3)]
  have n: "?n \<noteq> 0" "?n \<le> kMaxHeadersItems" "(of_nat ?n :: 64 word) \<noteq> 0"
    using assms(1) c(3) by (auto simp: get_headers_ok_def)
  have "length (get_headers_bytes v g) = 4 + ser_compact_sizeof (of_nat ?n) + (length (concat (gh_block_locator_hashes g)) + 32)"
    using g by (simp add: get_headers_bytes_def items_bytes_def length_compact_bytes get_headers_ok_def)
  then show ?thesis
    using get_headers_hashes_reads [OF g c(4,5), of "resize_list (hash_zero 32) ?n (gh_block_locator_hashes w)"] c n
    by (simp add: get_headers_serialization_def)
qed

text \<open>A list that is too long for the reader and not for the writer.\<close>

lemma get_headers_oversized:
  assumes "get_headers_ok kMaxGetHeadersItems g" "kMaxHeadersItems < length (gh_block_locator_hashes g)"
    and "stream_inv s" "unread s = get_headers_bytes v g"
  shows "fst (get_headers_serialization kDeserialize (w, s)) = Some (NetError kMessagePayloadOversizedVector)"
proof -
  have "unread s = get_headers_bytes v g @ []"
    using assms(4) by simp
  note c = get_headers_reads_count [OF assms(1,3) this]
  have "(of_nat (length (gh_block_locator_hashes g)) :: 64 word) \<noteq> 0"
    using assms(2) c(3) by (auto simp: kMaxHeadersItems_def)
  then show ?thesis
    using c(1-3) assms(2) by (simp add: get_headers_serialization_def)
qed

section \<open>Rejections\<close>

definition reject_bytes :: "reject_payload \<Rightarrow> bytes" where
  "reject_bytes r =
    string_bytes (rp_rejected_command r) @ word_to_le (rejection_code_value (rp_rejection_code r)) @
    string_bytes (rp_reason r) @ (case rp_extra_data r of None \<Rightarrow> [] | Some d \<Rightarrow> d)"

definition reject_ok :: "reject_payload \<Rightarrow> bool" where
  "reject_ok r \<longleftrightarrow> is_known_command (rp_rejected_command r) \<and> length (rp_reason r) \<le> 256 \<and>
    (case rp_extra_data r of None \<Rightarrow> True | Some d \<Rightarrow> length d = 32)"

lemma rejection_code_cast_value: "rejection_code_cast (rejection_code_value c) = Some c"
  by (cases c) (simp_all add: rejection_code_value_def rejection_code_cast_def rejection_codes_def)

lemma reject_ok_lengths:
  assumes "reject_ok r"
  shows "length (rp_rejected_command r) \<le> kMaxSerializedCompactSize" "length (rp_reason r) \<le> kMaxSerializedCompactSize"
  using assms by (auto simp: reject_ok_def is_known_command_def kMessageHeaderCommandLength_def kMaxSerializedCompactSize_def
      split: if_splits)

lemma reject_writes:
  assumes "reject_ok r" "length (ds_buffer s) + length (reject_bytes r) \<le> kMaxStreamSize"
  shows "reject_serialize (r, s) = (None, r, append_bytes (reject_bytes r) s)"
proof -
  let ?c = "rejection_code_value (rp_rejection_code r)"
  let ?s1 = "append_bytes (string_bytes (rp_rejected_command r)) s"
  let ?s2 = "append_bytes (word_to_le ?c) ?s1"
  let ?s3 = "append_bytes (string_bytes (rp_reason r)) ?s2"
  note l = reject_ok_lengths [OF assms(1)]
  have "bind_string kSerialize (rp_rejected_command r, s) = (None, rp_rejected_command r, ?s1)"
    using string_codec.writes [OF l(1), of s] assms(2) by (simp add: reject_bytes_def)
  moreover have "bind_integral kSerialize (?c, ?s1) = (None, ?c, ?s2)"
    using integral_codec.writes [where v = ?c and s = ?s1] assms(2) by (simp add: reject_bytes_def)
  moreover have "bind_string kSerialize (rp_reason r, ?s2) = (None, rp_reason r, ?s3)"
    using string_codec.writes [OF l(2), of ?s2] assms(2) by (simp add: reject_bytes_def)
  moreover have "bind_hash 32 kSerialize (d, ?s3) = (None, d, append_bytes d ?s3)" if "rp_extra_data r = Some d" for d
    using hash_codec.writes [of d 32 ?s3] assms that by (simp add: reject_bytes_def reject_ok_def)
  ultimately show ?thesis
    using assms(1) by (cases "rp_extra_data r") (simp_all add: reject_serialize_def reject_ok_def reject_bytes_def on_field_def append_bytes_def)
qed

lemma reject_reads:
  assumes "reject_ok r" "stream_inv s" "unread s = reject_bytes r" "rp_extra_data w = None"
  shows "reject_read kDeserialize (w, s) =
    (None, r\<lparr>rp_rejection_code := rp_rejection_code w\<rparr>, advance (length (reject_bytes r)) s)"
proof -
  let ?c = "rejection_code_value (rp_rejection_code r)" and ?x = "case rp_extra_data r of None \<Rightarrow> [] | Some d \<Rightarrow> d"
  let ?a = "string_bytes (rp_rejected_command r)" and ?b = "string_bytes (rp_reason r)"
  let ?s1 = "advance (length ?a) s" and ?s2 = "advance (length ?a + 1) s" and ?s3 = "advance (length ?a + 1 + length ?b) s"
  note l = reject_ok_lengths [OF assms(1)]
  have u: "unread s = ?a @ word_to_le ?c @ ?b @ ?x"
    using assms(3) by (simp add: reject_bytes_def)
  have s1: "stream_inv ?s1" "unread ?s1 = word_to_le ?c @ ?b @ ?x"
    using advance_prefix [OF assms(2) u] by simp_all
  have s2: "stream_inv ?s2" "unread ?s2 = ?b @ ?x"
    using advance_prefix [OF s1] by simp_all
  have s3: "stream_inv ?s3" "unread ?s3 = ?x"
    using advance_prefix [OF s2] by simp_all
  have r1: "bind_string kDeserialize (rp_rejected_command w, s) = (None, rp_rejected_command r, ?s1)"
    by (rule string_codec.reads [OF l(1) assms(2) u])
  have r2: "bind_integral kDeserialize (0, ?s1) = (None, ?c, ?s2)"
    using integral_codec.reads [OF _ s1] by simp
  have r3: "bind_string kDeserialize (rp_reason w, ?s2) = (None, rp_reason r, ?s3)"
    using string_codec.reads [OF l(2) s2] by simp
  let ?r = "w\<lparr>rp_rejected_command := rp_rejected_command r, rp_reason := rp_reason r\<rparr>"
  have "reject_read kDeserialize (w, s) = reject_extra_data kDeserialize (?r, ?s3)"
    using assms(1) r1 r2 r3 by (simp add: reject_read_def on_field_def rejection_code_cast_value reject_ok_def)
  also have "\<dots> = (None, r\<lparr>rp_rejection_code := rp_rejection_code w\<rparr>, advance (length (reject_bytes r)) s)"
  proof (cases "rp_extra_data r")
    case None
    with s3 assms(1,4) show ?thesis
      by (simp add: reject_extra_data_def reject_ok_def reject_bytes_def)
  next
    case (Some d)
    then have "bind_hash 32 kDeserialize (hash_zero 32, ?s3) = (None, d, advance 32 ?s3)"
      using hash_codec.reads [of d 32 ?s3 "[]"] s3 assms(1) by (simp add: reject_ok_def)
    with Some s3 assms(1) show ?thesis
      by (simp add: reject_extra_data_def reject_ok_def reject_bytes_def)
  qed
  finally show ?thesis .
qed

section \<open>All payloads\<close>

definition payload_bytes :: "int \<Rightarrow> message_payload \<Rightarrow> bytes" where
  "payload_bytes version p =
    (case p of
      NullPayload t \<Rightarrow> []
    | VersionPayload v \<Rightarrow> version_payload_bytes v
    | PingPongPayload t n \<Rightarrow> word_to_le n
    | GetHeadersPayload g \<Rightarrow> get_headers_bytes version g
    | AddrPayload a \<Rightarrow> items_bytes node_service_bytes a
    | InventoryPayload t i \<Rightarrow> items_bytes inventory_item_bytes i
    | RejectPayload r \<Rightarrow> reject_bytes r)"

definition payload_ok :: "message_payload \<Rightarrow> bool" where
  "payload_ok p \<longleftrightarrow>
    (case p of
      NullPayload t \<Rightarrow> null_payload t \<noteq> None
    | VersionPayload v \<Rightarrow> version_payload_ok v
    | PingPongPayload t n \<Rightarrow> ping_pong_payload t n \<noteq> None
    | GetHeadersPayload g \<Rightarrow> get_headers_ok kMaxHeadersItems g
    | AddrPayload a \<Rightarrow> a \<noteq> [] \<and> length a \<le> kMaxAddrItems \<and> (\<forall>x \<in> set a. node_service_ok x)
    | InventoryPayload t i \<Rightarrow> inventory_payload t \<noteq> None \<and> i \<noteq> [] \<and> length i \<le> kMaxInvItems \<and>
        (\<forall>x \<in> set i. length (inv_identifier x) = 32)
    | RejectPayload r \<Rightarrow> reject_ok r)"

text \<open>What the sender keeps: a request of headers takes the version of the stream.\<close>

definition payload_sent :: "int \<Rightarrow> message_payload \<Rightarrow> message_payload" where
  "payload_sent version p =
    (case p of GetHeadersPayload g \<Rightarrow> GetHeadersPayload (g\<lparr>gh_protocol_version := word_of_int version\<rparr>) | _ \<Rightarrow> p)"

text \<open>What the receiver gets: the services of a version message carry no time, a request of headers the version of
  the stream it was written to, and a rejection loses its code.\<close>

definition payload_received :: "int \<Rightarrow> message_payload \<Rightarrow> message_payload" where
  "payload_received version p =
    (case p of
      VersionPayload v \<Rightarrow> VersionPayload (version_payload_upd v version_payload_new)
    | GetHeadersPayload g \<Rightarrow> GetHeadersPayload (g\<lparr>gh_protocol_version := word_of_int version\<rparr>)
    | RejectPayload r \<Rightarrow> RejectPayload (r\<lparr>rp_rejection_code := kOk\<rparr>)
    | _ \<Rightarrow> p)"

lemma payload_writes:
  assumes "payload_ok p" "length (ds_buffer s) + length (payload_bytes (ds_version s) p) \<le> kMaxStreamSize"
  shows "payload_serialization kSerialize (p, s) =
    (None, payload_sent (ds_version s) p, append_bytes (payload_bytes (ds_version s) p) s)"
proof (cases p)
  case (NullPayload t)
  then show ?thesis
    by (simp add: payload_serialization_def payload_sent_def payload_bytes_def append_bytes_def)
next
  case (VersionPayload v)
  then show ?thesis
    using assms version_payload_codec.writes [of v s]
    by (simp add: payload_serialization_def lift_payload_def payload_sent_def payload_bytes_def payload_ok_def)
next
  case (PingPongPayload t n)
  then show ?thesis
    using assms integral_codec.writes [where v = n and s = s]
    by (simp add: payload_serialization_def lift_payload_def payload_sent_def payload_bytes_def)
next
  case (GetHeadersPayload g)
  then have "get_headers_ok kMaxGetHeadersItems g"
    using assms(1) max_items_le(4) by (simp add: payload_ok_def get_headers_ok_def)
  with GetHeadersPayload show ?thesis
    using assms get_headers_writes [of g s]
    by (simp add: payload_serialization_def lift_payload_def payload_sent_def payload_bytes_def)
next
  case (AddrPayload a)
  then show ?thesis
    using assms addr_codec.writes [of a s]
    by (simp add: payload_serialization_def lift_payload_def payload_sent_def payload_bytes_def payload_ok_def)
next
  case (InventoryPayload t i)
  then show ?thesis
    using assms inventory_items_codec.writes [of i s]
    by (simp add: payload_serialization_def lift_payload_def payload_sent_def payload_bytes_def payload_ok_def)
next
  case (RejectPayload r)
  then show ?thesis
    using assms reject_writes [of r s]
    by (simp add: payload_serialization_def lift_payload_def payload_sent_def payload_bytes_def payload_ok_def
        reject_serialization_def)
qed

lemma payload_reads:
  assumes "payload_ok p" "stream_inv s" "unread s = payload_bytes version p"
  shows "\<exists>w. payload_from_type (payload_type p) = Some (Some w) \<and>
    payload_serialization kDeserialize (w, s) =
      (None, payload_received version p, advance (length (payload_bytes version p)) s)"
proof (cases p)
  case (NullPayload t)
  then have "t = kVerAck \<or> t = kMemPool \<or> t = kGetAddr"
    using assms(1) by (simp add: payload_ok_def null_payload_def split: if_splits)
  with NullPayload show ?thesis
    by (auto simp: payload_serialization_def payload_received_def payload_bytes_def null_payload_def)
next
  case (VersionPayload v)
  then show ?thesis
    using assms version_payload_codec.reads [of v s "[]"]
    by (simp add: payload_serialization_def lift_payload_def payload_received_def payload_bytes_def payload_ok_def)
next
  case (PingPongPayload t n)
  then have t: "t = kPing \<or> t = kPong"
    using assms(1) by (simp add: payload_ok_def ping_pong_payload_def split: if_splits)
  have "bind_integral kDeserialize (0, s) = (None, n, advance 8 s)"
    using integral_codec.reads [OF _ assms(2), of n "[]" 0] assms(3) PingPongPayload by (simp add: payload_bytes_def)
  with t PingPongPayload show ?thesis
    by (auto simp: payload_serialization_def lift_payload_def payload_received_def payload_bytes_def ping_pong_payload_def)
next
  case (GetHeadersPayload g)
  then show ?thesis
    using assms get_headers_reads [of g s version "[]"]
    by (simp add: payload_serialization_def lift_payload_def payload_received_def payload_bytes_def payload_ok_def)
next
  case (AddrPayload a)
  then show ?thesis
    using assms addr_codec.reads [of a s "[]"]
    by (simp add: payload_serialization_def lift_payload_def payload_received_def payload_bytes_def payload_ok_def)
next
  case (InventoryPayload t i)
  then have t: "t = kInv \<or> t = kGetData \<or> t = kNotFound"
    using assms(1) by (simp add: payload_ok_def inventory_payload_def split: if_splits)
  have "inventory_payload_serialization kDeserialize ([], s) = (None, i, advance (length (items_bytes inventory_item_bytes i)) s)"
    using inventory_items_codec.reads [of i s "[]"] assms InventoryPayload by (simp add: payload_bytes_def payload_ok_def)
  with t InventoryPayload show ?thesis
    by (auto simp: payload_serialization_def lift_payload_def payload_received_def payload_bytes_def inventory_payload_def)
next
  case (RejectPayload r)
  then show ?thesis
    using assms reject_reads [of r s reject_payload_new]
    by (simp add: payload_serialization_def lift_payload_def payload_received_def payload_bytes_def payload_ok_def
        reject_serialization_def reject_payload_new_def)
qed

section \<open>Safety\<close>

lemma hashes_reader: "reader get_headers_hashes"
proof -
  have "reader (bind_each (bind_hash 32))"
    using bind_each_safe [OF hash_codec.reader_axioms] by unfold_locales
  then show ?thesis
    unfolding get_headers_hashes_def [abs_def]
    by (intro reader_and_then reader_on_field hash_codec.reader_axioms)
qed

lemma get_headers_safe:
  assumes "stream_inv s" "get_headers_serialization kDeserialize (g, s) = (e, h, t)"
  shows "stays s t"
proof -
  obtain e1 v s1 where r1: "bind_integral kDeserialize (0 :: 32 word, s) = (e1, v, s1)"
    by (cases "bind_integral kDeserialize (0 :: 32 word, s)")
  note s1 = integral_codec.safe [OF assms(1) r1]
  obtain c s2 where r2: "read_compact True s1 = (c, s2)"
    by (cases "read_compact True s1")
  note s2 = stays_trans [OF s1 read_compact_safe [OF stays_inv [OF s1] r2]]
  consider "t = s1" | "t = s2" | ws where "get_headers_hashes kDeserialize (ws, s2) = (e, h, t)"
    using assms(2) r1 r2
    by (auto simp: get_headers_serialization_def Let_def split: option.splits outcome.splits if_splits)
  then show ?thesis
    using s1 s2 reader.safe [OF hashes_reader stays_inv [OF s2]] by cases (auto intro: stays_trans)
qed

lemma reject_reader: "reader reject_read"
proof -
  have "reader (\<lambda>a (r, s). if \<not> is_known_command (rp_rejected_command r) then (Some (NetError kUnknownRejectedCommand), r, s)
      else (None, r, s))"
    by unfold_locales (auto split: if_splits)
  moreover have "reader (\<lambda>a (r, s). case bind_integral a (0 :: byte, s) of
          (Some e, code, t) \<Rightarrow> (Some e, r, t)
        | (None, code, t) \<Rightarrow>
            if rejection_code_cast code = None then (Some (SerError kInvalidRejectionCode), r, t) else (None, r, t))"
    using integral_codec.safe [where w = "0 :: byte"] by unfold_locales (auto split: prod.splits option.splits if_splits)
  moreover have "reader reject_extra_data"
    using hash_codec.safe [where n = 32]
    by unfold_locales (auto simp: reject_extra_data_def split: prod.splits option.splits if_splits)
  ultimately show ?thesis
    unfolding reject_read_def [abs_def]
    by (intro reader_and_then reader_on_field string_codec.reader_axioms)
qed

lemma payload_safe:
  assumes "stream_inv s" "payload_serialization kDeserialize (p, s) = (e, q, t)"
  shows "stays s t"
proof (cases p)
  case (NullPayload t)
  with assms show ?thesis by (simp add: payload_serialization_def)
next
  case (VersionPayload v)
  with assms show ?thesis
    using version_payload_codec.safe [OF assms(1)]
    by (auto simp: payload_serialization_def lift_payload_def split: prod.splits)
next
  case (PingPongPayload t n)
  with assms show ?thesis
    using integral_codec.safe [OF assms(1)]
    by (auto simp: payload_serialization_def lift_payload_def split: prod.splits)
next
  case (GetHeadersPayload g)
  with assms show ?thesis
    using get_headers_safe [OF assms(1)]
    by (auto simp: payload_serialization_def lift_payload_def split: prod.splits)
next
  case (AddrPayload a)
  with assms show ?thesis
    using addr_codec.safe [OF assms(1)]
    by (auto simp: payload_serialization_def lift_payload_def split: prod.splits)
next
  case (InventoryPayload t i)
  with assms show ?thesis
    using inventory_items_codec.safe [OF assms(1)]
    by (auto simp: payload_serialization_def lift_payload_def split: prod.splits)
next
  case (RejectPayload r)
  with assms show ?thesis
    using reader.safe [OF reject_reader assms(1)]
    by (auto simp: payload_serialization_def lift_payload_def reject_serialization_def split: prod.splits)
qed

section \<open>Properties\<close>



text \<open>C7. Deserializing any payload from any bytes keeps the stream inside its buffer and does not change the
  buffer, on success and on failure.\<close>

theorem payload_reads_are_safe:
  assumes "stream_inv s" "payload_serialization kDeserialize (p, s) = (e, q, t)"
  shows "stream_inv t \<and> ds_buffer t = ds_buffer s \<and> ds_read_position s \<le> ds_read_position t"
  using payload_safe [OF assms] by (simp add: stays_def)

theorem payload_reads_are_safe_witness:
  "stream_inv (snd (snd (payload_serialization kDeserialize (RejectPayload reject_payload_new, sdata_stream_of [3, 1, 2] kNetwork 0))))"
proof -
  obtain e q t where r: "payload_serialization kDeserialize (RejectPayload reject_payload_new, sdata_stream_of [3, 1, 2] kNetwork 0) = (e, q, t)"
    by (cases "payload_serialization kDeserialize (RejectPayload reject_payload_new, sdata_stream_of [3, 1, 2] kNetwork 0)")
  from payload_reads_are_safe [OF _ r] r show ?thesis
    by simp
qed

text \<open>A request of headers with more than 160 and at most 2000 hashes is serialized and its own deserialization
  rejects it.\<close>

theorem get_headers_limits_differ:
  assumes "get_headers_ok kMaxGetHeadersItems g" "kMaxHeadersItems < length (gh_block_locator_hashes g)"
    and "stream_inv s" "unread s = []" "length (ds_buffer s) + length (get_headers_bytes (ds_version s) g) \<le> kMaxStreamSize"
  shows "\<exists>h t. get_headers_serialization kSerialize (g, s) = (None, h, t) \<and>
    fst (get_headers_serialization kDeserialize (w, t)) = Some (NetError kMessagePayloadOversizedVector)"
proof -
  let ?t = "append_bytes (get_headers_bytes (ds_version s) g) s"
  have "stream_inv ?t" "unread ?t = get_headers_bytes (ds_version s) g"
    using assms(3,4) by simp_all
  with get_headers_oversized [OF assms(1,2) this] get_headers_writes [OF assms(1,5)] show ?thesis
    by blast
qed

theorem get_headers_limits_differ_witness:
  "\<exists>h t. get_headers_serialization kSerialize
      (\<lparr>gh_protocol_version = 0, gh_block_locator_hashes = replicate 161 (hash_zero 32), gh_hash_stop = hash_zero 32\<rparr>,
       sdata_stream_of [] kNetwork 170002) = (None, h, t) \<and>
    fst (get_headers_serialization kDeserialize (get_headers_payload_new, t)) = Some (NetError kMessagePayloadOversizedVector)"
proof -
  let ?g = "\<lparr>gh_protocol_version = 0, gh_block_locator_hashes = replicate 161 (hash_zero 32), gh_hash_stop = hash_zero 32\<rparr>"
  have "length (get_headers_bytes 170002 ?g) \<le> 6000"
    by (simp add: get_headers_bytes_def items_bytes_def length_compact_bytes ser_compact_sizeof_def length_concat
        sum_list_replicate hash_zero_def)
  then show ?thesis
    by (intro get_headers_limits_differ)
      (simp_all add: get_headers_ok_def hash_zero_def kMaxGetHeadersItems_def kMaxHeadersItems_def sdata_stream_of_def
        stream_inv_def unread_def kMaxStreamSize_eq)
qed

end
