(* ===== verification/Message.thy ===== *)
theory Message
  imports Payloads Crypto
begin

text \<open>
  infra/network/message.hpp and message.cpp: the header of a message, its validation against the table of definitions,
  and the two ways a message is filled: \<open>push\<close> serializes a payload, and \<open>write\<close> consumes the bytes of
  a peer in whatever pieces they arrive until the message is complete. The digest is the parameter \<open>sha256\<close>.
  A result \<open>None\<close> is a failed assertion; the loop of \<open>write\<close> is a partial function, whose outer
  \<open>None\<close> is a loop that does not end.
\<close>

section \<open>Message header\<close>

record message_header =
  mh_network_magic :: bytes
  mh_command :: bytes
  mh_payload_length :: "32 word"
  mh_payload_checksum :: bytes
  mh_message_type :: message_type

definition message_header_new :: message_header where
  "message_header_new =
    \<lparr>mh_network_magic = replicate kMessageHeaderMagicLength 0, mh_command = replicate kMessageHeaderCommandLength 0,
     mh_payload_length = 0, mh_payload_checksum = replicate kMessageHeaderChecksumLength 0,
     mh_message_type = kMissingOrUnknown\<rparr>"

definition message_header_reset :: "message_header \<Rightarrow> message_header" where
  "message_header_reset h =
    h\<lparr>mh_network_magic := replicate kMessageHeaderMagicLength 0, mh_command := replicate kMessageHeaderCommandLength 0,
      mh_payload_length := 0, mh_payload_checksum := replicate kMessageHeaderChecksumLength 0,
      mh_message_type := kMissingOrUnknown\<rparr>"

definition message_header_pristine :: "message_header \<Rightarrow> bool" where
  "message_header_pristine h \<longleftrightarrow>
    list_all (\<lambda>b. b = 0) (mh_network_magic h) \<and> list_all (\<lambda>b. b = 0) (mh_command h) \<and>
    list_all (\<lambda>b. b = 0) (mh_payload_checksum h) \<and> mh_message_type h = kMissingOrUnknown \<and> mh_payload_length h = 0"

definition message_header_set_type :: "message_type \<Rightarrow> message_header \<Rightarrow> message_header" where
  "message_header_set_type t h =
    (if \<not> message_header_pristine h then h
     else
      let c = map char_byte (case mdef_command (definition_of t) of None \<Rightarrow> [] | Some c \<Rightarrow> c);
          command_bytes = min (length c) (length (mh_command h))
      in h\<lparr>mh_command := take command_bytes c @ drop command_bytes (mh_command h), mh_message_type := t\<rparr>)"

definition message_header_serialization :: "action \<Rightarrow> message_header bind_fun" where
  "message_header_serialization action =
    and_then (on_field mh_network_magic (\<lambda>v. mh_network_magic_update (\<lambda>_. v)) (bind_array 4 action))
    (and_then (on_field mh_command (\<lambda>v. mh_command_update (\<lambda>_. v)) (bind_array 12 action))
    (and_then (on_field mh_payload_length (\<lambda>v. mh_payload_length_update (\<lambda>_. v)) (bind_integral action))
    (on_field mh_payload_checksum (\<lambda>v. mh_payload_checksum_update (\<lambda>_. v)) (bind_array 4 action))))"

definition value_or :: "'a option \<Rightarrow> 'a \<Rightarrow> 'a" where
  "value_or x d = (case x of None \<Rightarrow> d | Some v \<Rightarrow> v)"

text \<open>The checks that follow the lookup of the command. A length is its own clamp exactly when it is inside the bounds.\<close>

definition message_header_checks :: "int \<Rightarrow> message_header \<Rightarrow> error_code status" where
  "message_header_checks protocol_version h =
    (let d = definition_of (mh_message_type h); n = unat (mh_payload_length h)
     in if mh_message_type h = kMissingOrUnknown then Some (NetError kMessageHeaderIllegalCommand)
        else if n > kMaxProtocolMessageLength then Some (NetError kMessageHeaderIllegalPayloadLength)
        else if mdef_min_protocol_version d \<noteq> None \<and> protocol_version < the (mdef_min_protocol_version d)
        then Some (NetError kUnsupportedMessageTypeForProtocolVersion)
        else if mdef_max_protocol_version d \<noteq> None \<and> protocol_version > the (mdef_max_protocol_version d)
        then Some (NetError kDeprecatedMessageTypeForProtocolVersion)
        else if n < value_or (mdef_min_payload_length d) 0 \<or> n > value_or (mdef_max_payload_length d) kMaxProtocolMessageLength
        then Some (NetError kMessageHeaderIllegalPayloadLength)
        else if n = 0 \<and> mh_payload_checksum h \<noteq> take 4 kEmptyHash256 then Some (NetError kMessageHeaderInvalidChecksum)
        else None)"

definition message_header_validate :: "int \<Rightarrow> bytes \<Rightarrow> message_header \<Rightarrow> error_code status \<times> message_header" where
  "message_header_validate protocol_version magic h =
    (if length magic \<noteq> length (mh_network_magic h) \<or> mh_network_magic h \<noteq> magic
     then (Some (NetError kMessageHeaderInvalidMagic), h)
     else
      let h = h\<lparr>mh_message_type := message_type_from_command (mh_command h)\<rparr>
      in (message_header_checks protocol_version h, h))"

section \<open>Message\<close>

record message =
  msg_header :: message_header
  msg_stream :: sdata_stream
  msg_network_magic :: bytes
  msg_header_validated :: bool
  msg_payload_validated :: bool

definition message_new :: "int \<Rightarrow> bytes \<Rightarrow> message" where
  "message_new version magic =
    \<lparr>msg_header = message_header_new, msg_stream = sdata_stream_of [] kNetwork version, msg_network_magic = magic,
     msg_header_validated = False, msg_payload_validated = False\<rparr>"

definition message_is_complete :: "message \<Rightarrow> bool" where
  "message_is_complete m = (msg_header_validated m \<and> msg_payload_validated m)"

definition message_get_type :: "message \<Rightarrow> message_type" where
  "message_get_type m = mdef_message_type (definition_of (mh_message_type (msg_header m)))"

definition message_reset :: "message \<Rightarrow> message" where
  "message_reset m =
    m\<lparr>msg_header := message_header_reset (msg_header m), msg_stream := sstream_clear (msg_stream m),
      msg_header_validated := False, msg_payload_validated := False\<rparr>"

definition validate_header :: "message \<Rightarrow> error_code status \<times> message" where
  "validate_header m =
    (if msg_header_validated m then (None, m)
     else if stream_size (msg_stream m) < kMessageHeaderLength then (Some (NetError kMessageHeaderIncomplete), m)
     else
      (case message_header_serialization kDeserialize (msg_header m, msg_stream m) of
        (Some e, h, s) \<Rightarrow> (Some e, m\<lparr>msg_header := h, msg_stream := s\<rparr>)
      | (None, h, s) \<Rightarrow>
          (case message_header_validate (ds_version s) (msg_network_magic m) h of
            (Some e, h) \<Rightarrow> (Some e, m\<lparr>msg_header := h, msg_stream := s\<rparr>)
          | (None, h) \<Rightarrow>
              (None, m\<lparr>msg_header := h, msg_stream := s, msg_header_validated := True,
                       msg_payload_validated := (mh_payload_length h = 0)\<rparr>))))"

text \<open>The checks on the number of items, once it has been read.\<close>

definition vector_checks :: "message_definition \<Rightarrow> nat \<Rightarrow> 64 word \<Rightarrow> error_code status" where
  "vector_checks d payload_length num_elements =
    (let n = unat num_elements; offset = (if mdef_message_type d = kGetHeaders then 4 else 0)
     in if n = 0 then Some (NetError kMessagePayloadEmptyVector)
        else if n > value_or (mdef_max_vector_items d) kMaxSerializedCompactSize
        then Some (NetError kMessagePayloadOversizedVector)
        else
          (case mdef_vector_item_size d of
            None \<Rightarrow> None
          | Some item_size \<Rightarrow>
              let expected = n * item_size + (if mdef_message_type d = kGetHeaders then item_size else 0) +
                ser_compact_sizeof num_elements
              in if payload_length \<noteq> expected + offset
                 then Some (NetError kMessagePayloadLengthMismatchesVectorSize) else None))"

definition validate_payload_vector :: "message_definition \<Rightarrow> nat \<Rightarrow> sdata_stream \<Rightarrow> error_code status \<times> sdata_stream" where
  "validate_payload_vector d payload_length s =
    (let offset = (if mdef_message_type d = kGetHeaders then 4 else 0);
         pos = kMessageHeaderLength + offset;
         (p, s) = stream_seekg pos s
     in if p \<noteq> pos \<or> stream_avail s < 1 then (Some (NetError kMessageBodyIncomplete), s)
        else
          (case read_compact True s of
            (Failure e, t) \<Rightarrow>
              (if e = SerError kReadOverflow then Some (NetError kMessageBodyIncomplete) else Some e, t)
          | (Success num_elements, t) \<Rightarrow> (vector_checks d payload_length num_elements, t)))"

definition payload_digest :: "(bytes \<Rightarrow> bytes option) \<Rightarrow> bytes \<Rightarrow> bytes" where
  "payload_digest sha256 d = take 4 (fst (hash256_finalize sha256 (hash256_new d)))"

text \<open>\<open>validate_payload_checksum\<close> and the end of \<open>validate_payload\<close>.\<close>

definition validate_payload_checksum ::
  "(bytes \<Rightarrow> bytes option) \<Rightarrow> message_header \<Rightarrow> sdata_stream \<Rightarrow> (error_code status \<times> sdata_stream) option" where
  "validate_payload_checksum sha256 h s =
    (case stream_read None s of
      (Failure e, t) \<Rightarrow> Some (Some e, t)
    | (Success payload_view, t) \<Rightarrow>
        if length payload_view \<noteq> unat (mh_payload_length h) then None
        else if payload_digest sha256 payload_view \<noteq> mh_payload_checksum h
        then Some (Some (NetError kMessageHeaderInvalidChecksum), t)
        else Some (None, t))"

text \<open>The vector part of \<open>validate_payload\<close>.\<close>

definition validate_vector_items ::
  "message_definition \<Rightarrow> nat \<Rightarrow> bool \<Rightarrow> sdata_stream \<Rightarrow> (error_code status \<times> sdata_stream) option" where
  "validate_vector_items d payload_length payload_incomplete s =
    (if mdef_is_vectorized d then
       (case validate_payload_vector d payload_length s of
         (Some e, t) \<Rightarrow> Some (Some e, t)
       | (None, t) \<Rightarrow>
           (case mdef_vector_item_size d of
             None \<Rightarrow> Some (None, t)
           | Some item_size \<Rightarrow>
               if payload_incomplete then Some (None, t)
               else
                 (case stream_read None t of
                   (Failure e, u) \<Rightarrow> None
                 | (Success payload_view, u) \<Rightarrow>
                     if count_duplicate_data_chunks payload_view item_size 1 > 0
                     then Some (Some (NetError kMessagePayloadDuplicateVectorItems), u)
                     else Some (None, u))))
     else Some (None, s))"

text \<open>\<open>gsl::finally\<close>: on every path the read position goes back to the start of the payload.\<close>

definition at_payload :: "sdata_stream \<Rightarrow> sdata_stream" where
  "at_payload s = snd (stream_seekg kMessageHeaderLength s)"

definition validate_payload :: "(bytes \<Rightarrow> bytes option) \<Rightarrow> message \<Rightarrow> (error_code status \<times> message) option" where
  "validate_payload sha256 m =
    (if msg_payload_validated m then Some (None, m)
     else if \<not> msg_header_validated m then Some (Some (NetError kMessageHeaderIncomplete), m)
     else
      let s = msg_stream m; n = unat (mh_payload_length (msg_header m));
          payload_incomplete = (stream_avail s \<noteq> n)
      in case validate_vector_items (definition_of (mh_message_type (msg_header m))) n payload_incomplete s of
           None \<Rightarrow> None
         | Some (Some e, t) \<Rightarrow> Some (Some e, m\<lparr>msg_stream := at_payload t\<rparr>)
         | Some (None, t) \<Rightarrow>
             if payload_incomplete then Some (Some (NetError kMessageBodyIncomplete), m\<lparr>msg_stream := at_payload t\<rparr>)
             else if fst (stream_seekg kMessageHeaderLength t) \<noteq> kMessageHeaderLength then None
             else
               (case validate_payload_checksum sha256 (msg_header m) (at_payload t) of
                 None \<Rightarrow> None
               | Some (Some e, u) \<Rightarrow> Some (Some e, m\<lparr>msg_stream := at_payload u\<rparr>)
               | Some (None, u) \<Rightarrow> Some (None, m\<lparr>msg_stream := at_payload u, msg_payload_validated := True\<rparr>)))"

definition message_validate :: "(bytes \<Rightarrow> bytes option) \<Rightarrow> message \<Rightarrow> (error_code status \<times> message) option" where
  "message_validate sha256 m =
    (if stream_size (msg_stream m) > kMaxProtocolMessageLength then Some (Some (NetError kMessageSizeOverflow), m)
     else if message_is_complete m then Some (None, m)
     else
      (case validate_header m of
        (Some e, m) \<Rightarrow> Some (Some e, m)
      | (None, m) \<Rightarrow>
          (case validate_payload sha256 m of
            None \<Rightarrow> None
          | Some (result, m) \<Rightarrow>
              if fst (stream_seekg kMessageHeaderLength (msg_stream m)) \<noteq> kMessageHeaderLength then None
              else Some (result, m\<lparr>msg_stream := at_payload (msg_stream m)\<rparr>))))"

section \<open>Pushing a payload\<close>

text \<open>The length and the checksum are copied over the header that was serialized before they were known.\<close>

definition patch_header :: "message_header \<Rightarrow> bytes \<Rightarrow> bytes" where
  "patch_header h buffer = take 16 buffer @ word_to_le (mh_payload_length h) @ mh_payload_checksum h @ drop 24 buffer"

definition message_push ::
  "(bytes \<Rightarrow> bytes option) \<Rightarrow> message_payload \<Rightarrow> message \<Rightarrow> (error_code status \<times> message_payload \<times> message) option" where
  "message_push sha256 payload m =
    (if \<not> message_header_pristine (msg_header m) then Some (Some (NetError kMessagePushNotPermitted), payload, m)
     else if payload_type payload = kMissingOrUnknown then Some (Some (NetError kMessageUnknownCommand), payload, m)
     else
      let h = (message_header_set_type (payload_type payload) (msg_header m))\<lparr>mh_network_magic := msg_network_magic m\<rparr>
      in case message_header_serialization kSerialize (h, sstream_clear (msg_stream m)) of
        (Some e, h, s) \<Rightarrow> Some (Some e, payload, m\<lparr>msg_header := h, msg_stream := s\<rparr>)
      | (None, h, s) \<Rightarrow>
          if stream_size s \<noteq> kMessageHeaderLength then None
          else
           (case payload_serialization kSerialize (payload, s) of
             (Some e, payload, s) \<Rightarrow> Some (Some e, payload, m\<lparr>msg_header := h, msg_stream := s\<rparr>)
           | (None, payload, s) \<Rightarrow>
               let h = h\<lparr>mh_payload_length := of_nat (stream_size s - kMessageHeaderLength)\<rparr>
               in if fst (stream_seekg kMessageHeaderLength s) \<noteq> kMessageHeaderLength then None
                  else
                   (case stream_read None (at_payload s) of
                     (Failure e, s) \<Rightarrow> Some (Some e, payload, m\<lparr>msg_header := h, msg_stream := s\<rparr>)
                   | (Success payload_view, s) \<Rightarrow>
                       let h = h\<lparr>mh_payload_checksum := payload_digest sha256 payload_view\<rparr>;
                           s = s\<lparr>ds_buffer := patch_header h (ds_buffer s)\<rparr>;
                           (p, s) = stream_seekg 0 s
                       in if p \<noteq> 0 then None
                          else
                           (case message_validate sha256 (m\<lparr>msg_header := h, msg_stream := s\<rparr>) of
                             None \<Rightarrow> None
                           | Some (result, m) \<Rightarrow> Some (result, payload, m)))))"

section \<open>Writing the bytes of a peer\<close>

definition is_incomplete :: "error_code status \<Rightarrow> bool" where
  "is_incomplete r \<longleftrightarrow> r = Some (NetError kMessageHeaderIncomplete) \<or> r = Some (NetError kMessageBodyIncomplete)"

text \<open>Subtraction of 64 bit sizes.\<close>

definition size_minus :: "nat \<Rightarrow> nat \<Rightarrow> nat" where
  "size_minus a b = (if b \<le> a then a - b else 2 ^ 64 - (b - a))"

definition write_demand :: "message \<Rightarrow> nat" where
  "write_demand m =
    (let s = msg_stream m; header_mode = (stream_tellg s < kMessageHeaderLength)
     in if header_mode then size_minus kMessageHeaderLength (stream_avail s)
        else size_minus (unat (mh_payload_length (msg_header m))) (stream_avail s))"

text \<open>The body of the loop of \<open>Message::write\<close>.\<close>

definition write_step ::
  "(bytes \<Rightarrow> bytes option) \<Rightarrow> bytes \<Rightarrow> message \<Rightarrow> (error_code status \<times> bytes \<times> message) option" where
  "write_step sha256 input m =
    (let bytes_to_read = min (write_demand m) (length input)
     in case stream_write (take bytes_to_read input) (msg_stream m) of
       (Some e, s) \<Rightarrow> Some (Some e, input, m\<lparr>msg_stream := s\<rparr>)
     | (None, s) \<Rightarrow>
         (case message_validate sha256 (m\<lparr>msg_stream := s\<rparr>) of
           None \<Rightarrow> None
         | Some (result, m) \<Rightarrow> Some (result, drop bytes_to_read input, m)))"

partial_function (option) write_loop ::
  "(bytes \<Rightarrow> bytes option) \<Rightarrow> bytes \<Rightarrow> message \<Rightarrow> (error_code status \<times> bytes \<times> message) option option" where
  "write_loop sha256 input m =
    (case write_step sha256 input m of
      None \<Rightarrow> Some None
    | Some (result, input, m) \<Rightarrow>
        if is_incomplete result \<and> input \<noteq> [] then write_loop sha256 input m
        else Some (Some (result, input, m)))"

definition message_write ::
  "(bytes \<Rightarrow> bytes option) \<Rightarrow> bytes \<Rightarrow> message \<Rightarrow> (error_code status \<times> bytes \<times> message) option option" where
  "message_write sha256 input m =
    (if input = [] then
       Some (Some (if \<not> msg_header_validated m then Some (NetError kMessageHeaderIncomplete)
             else if \<not> msg_payload_validated m then Some (NetError kMessageBodyIncomplete) else None, input, m))
     else if message_is_complete m then Some (Some (Some (NetError kMessageWriteNotPermitted), input, m))
     else write_loop sha256 input m)"

section \<open>Streams over received bytes\<close>

definition stream_at :: "int \<Rightarrow> bytes \<Rightarrow> nat \<Rightarrow> sdata_stream" where
  "stream_at v p k = \<lparr>ds_buffer = p, ds_read_position = k, ds_scope = kNetwork, ds_version = v, ds_computed_size = 0\<rparr>"

named_theorems stream_at_simps

lemma stream_at_fields [simp]:
  "ds_buffer (stream_at v p k) = p" "ds_read_position (stream_at v p k) = k" "ds_version (stream_at v p k) = v"
  "stream_inv (stream_at v p k) \<longleftrightarrow> k \<le> length p" "unread (stream_at v p k) = drop k p"
  "stream_at v p k = stream_at v' p' k' \<longleftrightarrow> p = p' \<and> k = k' \<and> v = v'"
  by (simp_all add: stream_at_def stream_inv_def unread_def)

lemma stream_at_ops [stream_at_simps]:
  "stream_size (stream_at v p k) = length p" "stream_tellg (stream_at v p k) = k"
  "advance n (stream_at v p k) = stream_at v p (k + n)" "append_bytes d (stream_at v p k) = stream_at v (p @ d) k"
  "stream_seekg j (stream_at v p k) = (min j (length p), stream_at v p (min j (length p)))"
  "sdata_stream_of d kNetwork v = stream_at v d 0" "sstream_clear (stream_at v p k) = stream_at v [] 0"
  "(stream_at v p k)\<lparr>ds_buffer := q\<rparr> = stream_at v q k" "(stream_at v p k)\<lparr>ds_read_position := j\<rparr> = stream_at v p j"
  by (simp_all add: stream_at_def stream_size_def stream_tellg_def advance_def append_bytes_def stream_seekg_def
    sdata_stream_of_def sstream_clear_def stream_clear_def Let_def)

lemma stream_at_avail [stream_at_simps]: "k \<le> length p \<Longrightarrow> stream_avail (stream_at v p k) = length p - k"
  by simp

lemma stream_at_read [stream_at_simps]:
  "k \<le> length p \<Longrightarrow> stream_read None (stream_at v p k) = (Success (drop k p), stream_at v p (length p))"
  using read_None [of "stream_at v p k"] by (simp add: stream_at_simps)

lemma stream_at_payload [stream_at_simps]: "24 \<le> length p \<Longrightarrow> at_payload (stream_at v p k) = stream_at v p 24"
  by (simp add: at_payload_def stream_at_simps kMessageHeaderLength_eq)

lemma read_as_stable:
  assumes "stream_inv s" "read_as s = (r :: (error_code, 'w::len word) outcome, t)"
  shows "(r = Failure (SerError kReadOverflow) \<and> length (unread s) < LENGTH('w) div 8) \<or>
    (read_as (append_bytes d s) = (r, append_bytes d t) \<and> (\<exists>w. r = Success w))"
    and "\<exists>m. t = advance m s \<and> m \<le> length (unread s)"
proof -
  show "(r = Failure (SerError kReadOverflow) \<and> length (unread s) < LENGTH('w) div 8) \<or>
    (read_as (append_bytes d s) = (r, append_bytes d t) \<and> (\<exists>w. r = Success w))"
    using assms by (auto simp: read_as_eq advance_def append_bytes_def split: if_splits)
  show "\<exists>m. t = advance m s \<and> m \<le> length (unread s)"
    using assms by (auto simp: read_as_eq split: if_splits intro: exI [of _ 0])
qed

lemma compact_range_not_overflow: "compact_range_check rc v \<noteq> Failure (SerError kReadOverflow)"
  by (simp add: compact_range_check_def)

lemma read_compact_cases:
  assumes "stream_inv s" "read_compact rc s = (r, t)"
  shows "(r = Failure (SerError kReadOverflow) \<and> length (unread s) < 9) \<or>
    (r \<noteq> Failure (SerError kReadOverflow) \<and> read_compact rc (append_bytes d s) = (r, append_bytes d t))"
proof -
  obtain r1 s1 where 1: "read_as s = (r1 :: (error_code, 8 word) outcome, s1)"
    by (cases "read_as s :: (error_code, 8 word) outcome \<times> sdata_stream")
  note st = read_as_stable [OF assms(1) 1]
  from st(2) assms(1) obtain m where m: "s1 = advance m s" "m \<le> length (unread s)" "stream_inv s1" by auto
  show ?thesis
  proof (cases r1)
    case (Failure e)
    with st(1) [of d] 1 assms(2) show ?thesis by (auto simp: read_compact_def)
  next
    case (Success pre)
    with st(1) [of d] have a: "read_as (append_bytes d s) = (Success pre, append_bytes d s1)" by simp
    have s1: "length (unread s) = Suc (length (unread s1))"
      using read_as_SuccessD(2) [OF assms(1), of pre s1] 1 Success by simp
    obtain r2 s2 where 2: "read_as s1 = (r2 :: (error_code, 16 word) outcome, s2)"
      by (cases "read_as s1 :: (error_code, 16 word) outcome \<times> sdata_stream")
    obtain r4 s4 where 4: "read_as s1 = (r4 :: (error_code, 32 word) outcome, s4)"
      by (cases "read_as s1 :: (error_code, 32 word) outcome \<times> sdata_stream")
    obtain r8 s8 where 8: "read_as s1 = (r8 :: (error_code, 64 word) outcome, s8)"
      by (cases "read_as s1 :: (error_code, 64 word) outcome \<times> sdata_stream")
    consider "pre < 253" | "\<not> pre < 253" "pre = 253" | "\<not> pre < 253" "pre \<noteq> 253" "pre = 254"
      | "\<not> pre < 253" "pre \<noteq> 253" "pre \<noteq> 254" by blast
    then show ?thesis
    proof cases
      case 1
      with \<open>read_as s = (r1, s1)\<close> Success a assms(2) show ?thesis
        by (auto simp: read_compact_def compact_range_not_overflow split: if_splits)
    next
      case 2
      with \<open>read_as s = (r1, s1)\<close> Success a assms(2) s1 \<open>read_as s1 = (r2, s2)\<close>
        read_as_stable(1) [OF m(3) \<open>read_as s1 = (r2, s2)\<close>, of d] show ?thesis
        by (auto simp: read_compact_def compact_range_not_overflow split: if_splits)
    next
      case 3
      with \<open>read_as s = (r1, s1)\<close> Success a assms(2) s1 \<open>read_as s1 = (r4, s4)\<close>
        read_as_stable(1) [OF m(3) \<open>read_as s1 = (r4, s4)\<close>, of d] show ?thesis
        by (auto simp: read_compact_def compact_range_not_overflow split: if_splits)
    next
      case 4
      with \<open>read_as s = (r1, s1)\<close> Success a assms(2) s1 \<open>read_as s1 = (r8, s8)\<close>
        read_as_stable(1) [OF m(3) \<open>read_as s1 = (r8, s8)\<close>, of d] show ?thesis
        by (auto simp: read_compact_def compact_range_not_overflow split: if_splits)
    qed
  qed
qed

lemma read_compact_moves:
  assumes "stream_inv (s :: sdata_stream)" "read_compact rc s = (r, t)"
  shows "t = advance (ds_read_position t - ds_read_position s) s"
    and "r = Failure e \<Longrightarrow> e \<in> {SerError kReadOverflow, SerError kNonCanonicalCompactSize, SerError kCompactSizeTooBig}"
proof -
  obtain r1 s1 where 1: "read_as s = (r1 :: (error_code, 8 word) outcome, s1)"
    by (cases "read_as s :: (error_code, 8 word) outcome \<times> sdata_stream")
  from read_as_stable(2) [OF assms(1) 1] assms(1) obtain m where m: "s1 = advance m s" "stream_inv s1"
    by auto
  obtain r2 s2 where 2: "read_as s1 = (r2 :: (error_code, 16 word) outcome, s2)"
    by (cases "read_as s1 :: (error_code, 16 word) outcome \<times> sdata_stream")
  obtain r4 s4 where 4: "read_as s1 = (r4 :: (error_code, 32 word) outcome, s4)"
    by (cases "read_as s1 :: (error_code, 32 word) outcome \<times> sdata_stream")
  obtain r8 s8 where 8: "read_as s1 = (r8 :: (error_code, 64 word) outcome, s8)"
    by (cases "read_as s1 :: (error_code, 64 word) outcome \<times> sdata_stream")
  note st = read_as_stable(2) [OF m(2) 2] read_as_stable(2) [OF m(2) 4] read_as_stable(2) [OF m(2) 8]
    read_as_stable(1) [OF assms(1) 1, of "[]"] read_as_stable(1) [OF m(2) 2, of "[]"]
    read_as_stable(1) [OF m(2) 4, of "[]"] read_as_stable(1) [OF m(2) 8, of "[]"]
  have "t \<in> {s1, s2, s4, s8}"
    using assms(2) by (cases r1; cases r2; cases r4; cases r8) (simp_all add: read_compact_def 1 2 4 8 split: if_splits)
  then show "t = advance (ds_read_position t - ds_read_position s) s"
    using st(1-3) m(1) by auto
  show "e \<in> {SerError kReadOverflow, SerError kNonCanonicalCompactSize, SerError kCompactSizeTooBig}" if "r = Failure e"
    using assms(2) that st(4-7) by (cases r1; cases r2; cases r4; cases r8)
      (simp_all add: read_compact_def compact_range_check_def 1 2 4 8 split: if_splits)
qed

section \<open>The header of received bytes\<close>

definition header_bytes :: "message_header \<Rightarrow> bytes" where
  "header_bytes h = mh_network_magic h @ mh_command h @ word_to_le (mh_payload_length h) @ mh_payload_checksum h"

definition header_ok :: "message_header \<Rightarrow> bool" where
  "header_ok h \<longleftrightarrow> length (mh_network_magic h) = 4 \<and> length (mh_command h) = 12 \<and> length (mh_payload_checksum h) = 4"

definition header_upd :: "message_header \<Rightarrow> message_header \<Rightarrow> message_header" where
  "header_upd v w = v\<lparr>mh_message_type := mh_message_type w\<rparr>"

lemma header_update_all:
  "w\<lparr>mh_network_magic := mh_network_magic v, mh_command := mh_command v, mh_payload_length := mh_payload_length v,
     mh_payload_checksum := mh_payload_checksum v\<rparr> = header_upd v w"
  by (simp add: header_upd_def)

interpretation header_codec: sized_codec message_header_serialization header_bytes header_upd header_ok
proof -
  note f1 = sized_codec_on_field [OF array_codec.sized_codec_axioms, of "\<lambda>v. mh_network_magic_update (\<lambda>_. v)" mh_network_magic 4, simplified]
  note f2 = sized_codec_on_field [OF array_codec.sized_codec_axioms, of "\<lambda>v. mh_command_update (\<lambda>_. v)" mh_command 12, simplified]
  note f3 = sized_codec_on_field [OF integral_codec.sized_codec_axioms, of "\<lambda>v. mh_payload_length_update (\<lambda>_. v)" mh_payload_length, simplified]
  note f4 = sized_codec_on_field [OF array_codec.sized_codec_axioms, of "\<lambda>v. mh_payload_checksum_update (\<lambda>_. v)" "mh_payload_checksum :: message_header \<Rightarrow> _" 4, simplified]
  note all = sized_codec_and_then [OF f1 sized_codec_and_then [OF f2 sized_codec_and_then [OF f3 f4]]]
  show "sized_codec message_header_serialization header_bytes header_upd header_ok"
    using all by (simp add: message_header_serialization_def [abs_def] header_bytes_def [abs_def] header_ok_def [abs_def] header_update_all)
qed

definition header_of :: "bytes \<Rightarrow> message_header" where
  "header_of p =
    \<lparr>mh_network_magic = take 4 p, mh_command = take 12 (drop 4 p), mh_payload_length = le_to_word (take 4 (drop 16 p)),
     mh_payload_checksum = take 4 (drop 20 p), mh_message_type = message_type_from_command (take 12 (drop 4 p))\<rparr>"

lemma header_of_ok: "24 \<le> length p \<Longrightarrow> header_ok (header_of p)"
  by (simp add: header_ok_def header_of_def)

lemma header_bytes_of: "24 \<le> length p \<Longrightarrow> header_bytes (header_of p) @ drop 24 p = p"
proof -
  assume "24 \<le> length p"
  then have "word_to_le (le_to_word (take 4 (drop 16 p)) :: 32 word) = take 4 (drop 16 p)"
    by simp
  moreover have "take 4 p @ take 12 (drop 4 p) @ take 4 (drop 16 p) @ take 4 (drop 20 p) @ drop 24 p = p"
    using append_take_drop_id [of 4 "drop 20 p"] append_take_drop_id [of 4 "drop 16 p"]
      append_take_drop_id [of 12 "drop 4 p"] append_take_drop_id [of 4 p] by simp
  ultimately show ?thesis
    by (simp add: header_bytes_def header_of_def)
qed

lemma length_header_bytes: "header_ok h \<Longrightarrow> length (header_bytes h) = 24"
  by (simp add: header_ok_def header_bytes_def)

lemma header_of_bytes:
  assumes "header_ok h"
  shows "header_of (header_bytes h @ rest) = h\<lparr>mh_message_type := message_type_from_command (mh_command h)\<rparr>"
  using assms by (simp add: header_of_def header_ok_def header_bytes_def)

lemma header_reads:
  assumes "24 \<le> length p"
  shows "message_header_serialization kDeserialize (h, stream_at v p 0) =
    (None, (header_of p)\<lparr>mh_message_type := mh_message_type h\<rparr>, stream_at v p 24)"
  using header_codec.reads [OF header_of_ok [OF assms], of "stream_at v p 0" "drop 24 p" h] header_bytes_of [OF assms]
    length_header_bytes [OF header_of_ok [OF assms]]
  by (simp add: stream_at_simps header_upd_def)

section \<open>What a well-formed message is\<close>

text \<open>The specification of a message on the wire: a header of 24 bytes whose fields are inside the bounds of the
  definition of its command, and a payload of the declared length with the declared checksum. The payload of a
  vector starts with a canonical count that agrees with its length, and its items are distinct.\<close>

definition vector_offset :: "message_definition \<Rightarrow> nat" where
  "vector_offset d = (if mdef_message_type d = kGetHeaders then 4 else 0)"

definition vector_count_ok :: "message_definition \<Rightarrow> nat \<Rightarrow> 64 word \<Rightarrow> bool" where
  "vector_count_ok d payload_length c \<longleftrightarrow>
    c \<noteq> 0 \<and> unat c \<le> value_or (mdef_max_vector_items d) kMaxSerializedCompactSize \<and>
    (\<forall>k. mdef_vector_item_size d = Some k \<longrightarrow>
      payload_length = vector_offset d + ser_compact_sizeof c + k * (unat c + (if mdef_message_type d = kGetHeaders then 1 else 0)))"

definition vector_ok :: "message_definition \<Rightarrow> bytes \<Rightarrow> bool" where
  "vector_ok d payload \<longleftrightarrow>
    (\<exists>first c items. payload = first @ compact_bytes c @ items \<and> length first = vector_offset d \<and>
      unat c \<le> kMaxSerializedCompactSize \<and> vector_count_ok d (length payload) c \<and>
      (\<forall>k. mdef_vector_item_size d = Some k \<longrightarrow> distinct (data_chunks items k)))"

definition header_accepted :: "int \<Rightarrow> bytes \<Rightarrow> message_header \<Rightarrow> bool" where
  "header_accepted v magic h \<longleftrightarrow>
    (let d = definition_of (mh_message_type h); n = unat (mh_payload_length h)
     in mh_network_magic h = magic \<and> mh_message_type h \<noteq> kMissingOrUnknown \<and> n \<le> kMaxProtocolMessageLength \<and>
       (\<forall>lo. mdef_min_protocol_version d = Some lo \<longrightarrow> lo \<le> v) \<and> (\<forall>hi. mdef_max_protocol_version d = Some hi \<longrightarrow> v \<le> hi) \<and>
       (\<forall>lo. mdef_min_payload_length d = Some lo \<longrightarrow> lo \<le> n) \<and> (\<forall>hi. mdef_max_payload_length d = Some hi \<longrightarrow> n \<le> hi) \<and>
       (n = 0 \<longrightarrow> mh_payload_checksum h = take 4 kEmptyHash256))"

definition well_formed :: "(bytes \<Rightarrow> bytes option) \<Rightarrow> int \<Rightarrow> bytes \<Rightarrow> bytes \<Rightarrow> bool" where
  "well_formed sha256 v magic bs \<longleftrightarrow>
    (let h = header_of bs; payload = drop 24 bs; d = definition_of (mh_message_type h)
     in 24 \<le> length bs \<and> length bs \<le> kMaxProtocolMessageLength \<and> header_accepted v magic h \<and>
       length payload = unat (mh_payload_length h) \<and>
       (payload \<noteq> [] \<longrightarrow> payload_digest sha256 payload = mh_payload_checksum h \<and>
         (mdef_is_vectorized d \<longrightarrow> vector_ok d payload)))"

lemma header_checks_accepted:
  "message_header_checks v h = None \<and> mh_network_magic h = magic \<longleftrightarrow> header_accepted v magic h"
  by (auto simp: message_header_checks_def header_accepted_def Let_def value_or_def split: option.splits if_splits)

lemma header_validate_ok:
  assumes "24 \<le> length p"
  shows "header_accepted v magic (header_of p) \<Longrightarrow>
      message_header_validate v magic ((header_of p)\<lparr>mh_message_type := t\<rparr>) = (None, header_of p)"
    and "\<not> header_accepted v magic (header_of p) \<Longrightarrow>
      \<exists>e h. message_header_validate v magic ((header_of p)\<lparr>mh_message_type := t\<rparr>) = (Some e, h) \<and> \<not> is_incomplete (Some e)"
proof -
  have t: "(header_of p)\<lparr>mh_message_type := t, mh_message_type := message_type_from_command (take 12 (drop 4 p))\<rparr> = header_of p"
    by (simp add: header_of_def)
  have eq: "message_header_validate v magic ((header_of p)\<lparr>mh_message_type := t\<rparr>) =
      (if mh_network_magic (header_of p) \<noteq> magic then (Some (NetError kMessageHeaderInvalidMagic), (header_of p)\<lparr>mh_message_type := t\<rparr>)
       else (message_header_checks v (header_of p), header_of p))"
    using assms t by (auto simp: message_header_validate_def header_of_def Let_def)
  show "header_accepted v magic (header_of p) \<Longrightarrow>
      message_header_validate v magic ((header_of p)\<lparr>mh_message_type := t\<rparr>) = (None, header_of p)"
    using header_checks_accepted [of v "header_of p" magic] by (simp add: eq)
  assume "\<not> header_accepted v magic (header_of p)"
  then consider "mh_network_magic (header_of p) \<noteq> magic"
    | e where "mh_network_magic (header_of p) = magic" "message_header_checks v (header_of p) = Some e"
    using header_checks_accepted [of v "header_of p" magic] by auto
  then show "\<exists>e h. message_header_validate v magic ((header_of p)\<lparr>mh_message_type := t\<rparr>) = (Some e, h) \<and> \<not> is_incomplete (Some e)"
    by cases (auto simp: eq is_incomplete_def message_header_checks_def Let_def split: if_splits)
qed

lemma vector_checks_ok: "vector_checks d n c = None \<longleftrightarrow> vector_count_ok d n c"
  by (auto simp: vector_checks_def vector_count_ok_def vector_offset_def Let_def unat_eq_0 algebra_simps
      split: option.splits if_splits)

lemma vector_checks_not_incomplete: "\<not> is_incomplete (vector_checks d n c)"
  by (auto simp: vector_checks_def is_incomplete_def Let_def split: option.splits)

section \<open>Validation of the payload\<close>

lemma compact_bytes_not_Nil [simp]: "compact_bytes c \<noteq> []"
  using length_compact_bytes [of c] by (cases c rule: compact_sizeof_cases) auto

lemma validate_payload_vector_eq:
  assumes "24 \<le> length p"
  shows "validate_payload_vector d n (stream_at v p 24) =
    (if length p \<le> 24 + vector_offset d then (Some (NetError kMessageBodyIncomplete), stream_at v p (min (24 + vector_offset d) (length p)))
     else case read_compact True (stream_at v p (24 + vector_offset d)) of
        (Failure e, t) \<Rightarrow> (if e = SerError kReadOverflow then Some (NetError kMessageBodyIncomplete) else Some e, t)
      | (Success c, t) \<Rightarrow> (vector_checks d n c, t))"
  using assms by (simp add: validate_payload_vector_def stream_at_simps vector_offset_def Let_def)

lemma vector_incomplete_short:
  assumes "24 \<le> length p" "validate_payload_vector d n (stream_at v p 24) = (r, t)" "is_incomplete r"
  shows "r = Some (NetError kMessageBodyIncomplete) \<and> length p < 24 + vector_offset d + 9"
proof (cases "length p \<le> 24 + vector_offset d")
  case True
  with assms show ?thesis by (simp add: validate_payload_vector_eq)
next
  case False
  let ?s = "stream_at v p (24 + vector_offset d)"
  obtain c u where c: "read_compact True ?s = (c, u)"
    by (cases "read_compact True ?s")
  have i: "stream_inv ?s" using False by simp
  show ?thesis
  proof (cases c)
    case (Failure e)
    with read_compact_cases [OF i c, of "[]"] read_compact_moves(2) [OF i c Failure] assms False c show ?thesis
      by (auto simp: validate_payload_vector_eq is_incomplete_def)
  next
    case (Success x)
    with assms False c vector_checks_not_incomplete [of d n x] show ?thesis
      by (simp add: validate_payload_vector_eq)
  qed
qed

lemma vector_stays:
  assumes "24 \<le> length p" "validate_payload_vector d n (stream_at v p 24) = (r, t)"
  obtains k where "t = stream_at v p k" "k \<le> length p"
proof (cases "length p \<le> 24 + vector_offset d")
  case True
  with assms that show ?thesis by (auto simp: validate_payload_vector_eq)
next
  case False
  let ?s = "stream_at v p (24 + vector_offset d)"
  obtain c where c: "read_compact True ?s = (c, t)"
    using assms False by (auto simp: validate_payload_vector_eq split: prod.splits outcome.splits)
  have i: "stream_inv ?s" using False by simp
  have "t = stream_at v p (ds_read_position t)"
    using read_compact_moves(1) [OF i c] read_compact_safe [OF i c] by (simp add: stream_at_simps stays_def)
  moreover have "ds_read_position t \<le> length p"
    using read_compact_safe [OF i c] by (auto simp: stays_def stream_inv_def)
  ultimately show ?thesis by (rule that)
qed

lemma vector_success:
  assumes "24 \<le> length p" "validate_payload_vector d n (stream_at v p 24) = (None, stream_at v p k)"
  obtains c where "drop (24 + vector_offset d) p = compact_bytes c @ drop k p" "unat c \<le> kMaxSerializedCompactSize"
    "vector_count_ok d n c" "24 + vector_offset d \<le> length p"
proof -
  let ?s = "stream_at v p (24 + vector_offset d)"
  have l: "24 + vector_offset d < length p"
    using assms by (simp add: validate_payload_vector_eq split: if_splits)
  then obtain c where c: "read_compact True ?s = (Success c, stream_at v p k)" "vector_checks d n c = None"
    using assms by (auto simp: validate_payload_vector_eq split: prod.splits outcome.splits if_splits)
  have i: "stream_inv ?s" using l by simp
  show ?thesis
    using that [of c] read_compact_SuccessD [OF i c(1)] c(2) l by (simp add: vector_checks_ok)
qed

lemma vector_prefix:
  assumes "24 \<le> length p" "drop (24 + vector_offset d) (p @ q) = compact_bytes c @ items"
    "unat c \<le> kMaxSerializedCompactSize" "vector_count_ok d n c"
    "validate_payload_vector d n (stream_at v p 24) = (r, stream_at v p k)"
  shows "r = None \<or> (r = Some (NetError kMessageBodyIncomplete) \<and> q \<noteq> [])"
    and "r = None \<Longrightarrow> k = 24 + vector_offset d + ser_compact_sizeof c"
proof -
  let ?s = "stream_at v p (24 + vector_offset d)" and ?s' = "stream_at v (p @ q) (24 + vector_offset d)"
  have l': "24 + vector_offset d < length (p @ q)"
    using assms(2) by (metis append_is_Nil_conv compact_bytes_not_Nil drop_all not_le)
  have full: "read_compact True ?s' = (Success c, stream_at v (p @ q) (24 + vector_offset d + ser_compact_sizeof c))"
    using read_compact_prefix [of ?s' c items True] assms(2,3) l' by (simp add: stream_at_simps)
  have "(r = None \<and> k = 24 + vector_offset d + ser_compact_sizeof c) \<or> (r = Some (NetError kMessageBodyIncomplete) \<and> q \<noteq> [])"
  proof (cases "length p \<le> 24 + vector_offset d")
    case True
    with assms l' show ?thesis by (auto simp: validate_payload_vector_eq)
  next
    case False
    obtain x u where x: "read_compact True ?s = (x, u)"
      by (cases "read_compact True ?s")
    have i: "stream_inv ?s" using False by simp
    obtain j where j: "u = stream_at v p j"
      using read_compact_moves(1) [OF i x] by (simp add: stream_at_simps)
    show ?thesis
    proof (cases "x = Failure (SerError kReadOverflow)")
      case True
      moreover have "q \<noteq> []"
        using True x full by auto
      ultimately show ?thesis
        using assms False x by (simp add: validate_payload_vector_eq)
    next
      case False
      then have "read_compact True ?s' = (x, append_bytes q u)"
        using read_compact_cases [OF i x, of q] by (simp add: stream_at_simps)
      then have "x = Success c" "j = 24 + vector_offset d + ser_compact_sizeof c"
        using full j by (simp_all add: stream_at_simps)
      then show ?thesis
        using assms \<open>\<not> length p \<le> _\<close> x j by (auto simp: validate_payload_vector_eq vector_checks_ok [THEN iffD2])
    qed
  qed
  then show "r = None \<or> (r = Some (NetError kMessageBodyIncomplete) \<and> q \<noteq> [])"
    "r = None \<Longrightarrow> k = 24 + vector_offset d + ser_compact_sizeof c"
    by auto
qed

lemma item_size_pos: "mdef_vector_item_size (definition_of t) = Some k \<Longrightarrow> 0 < k"
  by (cases t) (auto simp: message_definition_defs kInvItemSize_def kAddrItemSize_def)

text \<open>No vector fits in a payload that may not hold its count: the loop of \<open>write\<close> does not starve.\<close>

lemma vector_min_length:
  assumes "mdef_is_vectorized (definition_of t)" "t \<noteq> kMissingOrUnknown"
  shows "\<exists>lo. mdef_min_payload_length (definition_of t) = Some lo \<and> vector_offset (definition_of t) + 9 \<le> lo"
  using assms by (cases t) (simp_all add: message_definition_defs vector_offset_def kInvItemSize_def kAddrItemSize_def)

lemma vector_ok_drop:
  assumes "24 \<le> length p"
  shows "vector_ok d (drop 24 p) \<longleftrightarrow>
    (\<exists>c items. drop (24 + vector_offset d) p = compact_bytes c @ items \<and>
      unat c \<le> kMaxSerializedCompactSize \<and> vector_count_ok d (length p - 24) c \<and>
      (\<forall>k. mdef_vector_item_size d = Some k \<longrightarrow> distinct (data_chunks items k)))" (is "_ = (\<exists>c items. ?P c items)")
proof
  assume "vector_ok d (drop 24 p)"
  then obtain first c items where f: "drop 24 p = first @ compact_bytes c @ items" "length first = vector_offset d"
      "unat c \<le> kMaxSerializedCompactSize" "vector_count_ok d (length p - 24) c"
      "\<forall>k. mdef_vector_item_size d = Some k \<longrightarrow> distinct (data_chunks items k)"
    by (auto simp: vector_ok_def)
  have "drop (24 + vector_offset d) p = drop (vector_offset d) (drop 24 p)"
    by (simp add: add.commute)
  with f show "\<exists>c items. ?P c items" by auto
next
  assume "\<exists>c items. ?P c items"
  then obtain c items where P: "?P c items" by auto
  then have l: "24 + vector_offset d < length p"
    by (metis append_is_Nil_conv compact_bytes_not_Nil drop_all not_le)
  have "drop 24 p = take (vector_offset d) (drop 24 p) @ drop (vector_offset d) (drop 24 p)"
    by (simp only: append_take_drop_id)
  then have "drop 24 p = take (vector_offset d) (drop 24 p) @ compact_bytes c @ items"
    using P by (simp add: add.commute)
  moreover have "length (take (vector_offset d) (drop 24 p)) = vector_offset d" "length (drop 24 p) = length p - 24"
    using l by simp_all
  ultimately show "vector_ok d (drop 24 p)"
    unfolding vector_ok_def using P by metis
qed

definition has_duplicates :: "message_definition \<Rightarrow> bytes \<Rightarrow> bool" where
  "has_duplicates d items \<longleftrightarrow> (\<exists>k. mdef_vector_item_size d = Some k \<and> \<not> distinct (data_chunks items k))"

lemma vector_items_eq:
  assumes "24 \<le> length p" "validate_payload_vector d n (stream_at v p 24) = (r, stream_at v p k)" "k \<le> length p"
    "mdef_is_vectorized d" "d = definition_of t"
  shows "\<exists>j \<le> length p. validate_vector_items d n inc (stream_at v p 24) =
    Some (if r = None \<and> \<not> inc \<and> has_duplicates d (drop k p) then Some (NetError kMessagePayloadDuplicateVectorItems) else r,
      stream_at v p j)"
proof (cases "r = None \<and> \<not> inc \<and> mdef_vector_item_size d \<noteq> None")
  case True
  then obtain m where m: "mdef_vector_item_size d = Some m" by auto
  then have "0 < m" using item_size_pos assms(5) by blast
  then have "has_duplicates d (drop k p) \<longleftrightarrow> count_duplicate_data_chunks (drop k p) m 1 > 0"
    using count_no_duplicates [of m "drop k p" 1] m by (auto simp: has_duplicates_def)
  with True m assms show ?thesis
    by (intro exI [of _ "length p"]) (simp add: validate_vector_items_def stream_at_simps)
next
  case False
  with assms show ?thesis
    by (intro exI [of _ k]) (auto simp: validate_vector_items_def has_duplicates_def split: option.splits)
qed

lemma vector_items_run:
  assumes p: "24 \<le> length p" and d: "d = definition_of t"
  obtains r k where "validate_vector_items d n inc (stream_at v p 24) = Some (r, stream_at v p k)" "k \<le> length p"
    "is_incomplete r \<Longrightarrow> mdef_is_vectorized d \<and> length p < 24 + vector_offset d + 9"
    "r = None \<Longrightarrow> \<not> inc \<Longrightarrow> length p = 24 + n \<Longrightarrow> mdef_is_vectorized d \<Longrightarrow> vector_ok d (drop 24 p)"
    "\<And>q. (mdef_is_vectorized d \<Longrightarrow> vector_ok d (drop 24 (p @ q))) \<Longrightarrow> length (p @ q) = 24 + n \<Longrightarrow> inc \<longleftrightarrow> q \<noteq> [] \<Longrightarrow>
      r = None \<or> (r = Some (NetError kMessageBodyIncomplete) \<and> q \<noteq> [])"
proof (cases "mdef_is_vectorized d")
  case False
  show ?thesis
    by (rule that [of None 24]) (simp_all add: validate_vector_items_def False p is_incomplete_def)
next
  case True
  obtain r1 t1 where r1: "validate_payload_vector d n (stream_at v p 24) = (r1, t1)"
    by (cases "validate_payload_vector d n (stream_at v p 24)")
  then obtain k1 where k1: "t1 = stream_at v p k1" "k1 \<le> length p"
    using vector_stays [OF p] by blast
  note r1 = r1 [unfolded k1(1)]
  let ?r = "if r1 = None \<and> \<not> inc \<and> has_duplicates d (drop k1 p) then Some (NetError kMessagePayloadDuplicateVectorItems) else r1"
  obtain j where j: "j \<le> length p" "validate_vector_items d n inc (stream_at v p 24) = Some (?r, stream_at v p j)"
    using vector_items_eq [OF p r1 k1(2) True d] by blast
  show ?thesis
  proof (rule that [OF j(2,1)])
    show "is_incomplete ?r \<Longrightarrow> mdef_is_vectorized d \<and> length p < 24 + vector_offset d + 9"
      using vector_incomplete_short [OF p r1] True by (simp add: is_incomplete_def split: if_splits)
  next
    assume a: "?r = None" "\<not> inc" "length p = 24 + n"
    then have "r1 = None" "\<not> has_duplicates d (drop k1 p)"
      by (auto split: if_splits)
    with r1 obtain c where "drop (24 + vector_offset d) p = compact_bytes c @ drop k1 p"
        "unat c \<le> kMaxSerializedCompactSize" "vector_count_ok d n c"
      using vector_success [OF p] by blast
    with a(3) \<open>\<not> has_duplicates d (drop k1 p)\<close> show "vector_ok d (drop 24 p)"
      by (auto simp: vector_ok_drop [OF p] has_duplicates_def)
  next
    fix q
    assume q: "mdef_is_vectorized d \<Longrightarrow> vector_ok d (drop 24 (p @ q))" "length (p @ q) = 24 + n" "inc \<longleftrightarrow> q \<noteq> []"
    then obtain c items where f: "drop (24 + vector_offset d) (p @ q) = compact_bytes c @ items"
        "unat c \<le> kMaxSerializedCompactSize" "vector_count_ok d n c" "\<not> has_duplicates d items"
      using p True vector_ok_drop [of "p @ q" d] by (auto simp: has_duplicates_def)
    have "has_duplicates d (drop k1 p) = False" if "r1 = None" "q = []"
    proof -
      have "drop k1 p = drop (ser_compact_sizeof c) (drop (24 + vector_offset d) p)"
        using vector_prefix(2) [OF p f(1-3) r1 that(1)] by (simp add: add.commute)
      also have "\<dots> = items"
        using f(1) that(2) by (simp flip: length_compact_bytes)
      finally show ?thesis using f(4) by simp
    qed
    then show "?r = None \<or> (?r = Some (NetError kMessageBodyIncomplete) \<and> q \<noteq> [])"
      using vector_prefix(1) [OF p f(1-3) r1] q(3) by auto
  qed
qed

section \<open>The stages of a message\<close>

definition header_stage :: "int \<Rightarrow> bytes \<Rightarrow> message_header \<Rightarrow> bytes \<Rightarrow> message" where
  "header_stage v magic h p =
    \<lparr>msg_header = h, msg_stream = stream_at v p 0, msg_network_magic = magic, msg_header_validated = False,
     msg_payload_validated = False\<rparr>"

definition body_stage :: "int \<Rightarrow> bytes \<Rightarrow> bytes \<Rightarrow> message" where
  "body_stage v magic p =
    \<lparr>msg_header = header_of p, msg_stream = stream_at v p 24, msg_network_magic = magic, msg_header_validated = True,
     msg_payload_validated = False\<rparr>"

definition complete_stage :: "int \<Rightarrow> bytes \<Rightarrow> bytes \<Rightarrow> message" where
  "complete_stage v magic p = (body_stage v magic p)\<lparr>msg_payload_validated := True\<rparr>"

definition payload_len :: "bytes \<Rightarrow> nat" where
  "payload_len p = unat (mh_payload_length (header_of p))"

lemma header_of_append [simp]: "24 \<le> length p \<Longrightarrow> header_of (p @ q) = header_of p"
  by (simp add: header_of_def)

lemma payload_len_append [simp]: "24 \<le> length p \<Longrightarrow> payload_len (p @ q) = payload_len p"
  by (simp add: payload_len_def)

lemma well_formed_iff:
  assumes "24 \<le> length p" "header_accepted v magic (header_of p)" "0 < payload_len p"
  shows "well_formed sha256 v magic p \<longleftrightarrow>
    length p \<le> kMaxProtocolMessageLength \<and> length p = 24 + payload_len p \<and>
    payload_digest sha256 (drop 24 p) = mh_payload_checksum (header_of p) \<and>
    (mdef_is_vectorized (definition_of (mh_message_type (header_of p))) \<longrightarrow>
      vector_ok (definition_of (mh_message_type (header_of p))) (drop 24 p))"
  using assms by (auto simp: well_formed_def payload_len_def Let_def)

lemma accepted_vector_length:
  assumes "header_accepted v magic h" "mdef_is_vectorized (definition_of (mh_message_type h))"
  shows "vector_offset (definition_of (mh_message_type h)) + 9 \<le> unat (mh_payload_length h)"
  using assms vector_min_length [of "mh_message_type h"] by (fastforce simp: header_accepted_def Let_def)

lemma validate_payload_run:
  assumes p: "24 \<le> length p" "length p \<le> kMaxProtocolMessageLength" "length p \<le> 24 + payload_len p"
    and h: "header_accepted v magic (header_of p)" "0 < payload_len p"
  obtains r where
    "validate_payload sha256 (body_stage v magic p) = Some (r, if r = None then complete_stage v magic p else body_stage v magic p)"
    "r = None \<longleftrightarrow> well_formed sha256 v magic p" "is_incomplete r \<Longrightarrow> length p < 24 + payload_len p"
    "\<And>q. q \<noteq> [] \<Longrightarrow> well_formed sha256 v magic (p @ q) \<Longrightarrow> is_incomplete r"
proof -
  let ?d = "definition_of (mh_message_type (header_of p))"
  let ?inc = "length p \<noteq> 24 + payload_len p"
  obtain r k where r: "validate_vector_items ?d (payload_len p) ?inc (stream_at v p 24) = Some (r, stream_at v p k)" "k \<le> length p"
    and short: "is_incomplete r \<Longrightarrow> mdef_is_vectorized ?d \<and> length p < 24 + vector_offset ?d + 9"
    and sound: "r = None \<Longrightarrow> \<not> ?inc \<Longrightarrow> length p = 24 + payload_len p \<Longrightarrow> mdef_is_vectorized ?d \<Longrightarrow> vector_ok ?d (drop 24 p)"
    and complete: "\<And>q. (mdef_is_vectorized ?d \<Longrightarrow> vector_ok ?d (drop 24 (p @ q))) \<Longrightarrow> length (p @ q) = 24 + payload_len p \<Longrightarrow>
      ?inc \<longleftrightarrow> q \<noteq> [] \<Longrightarrow> r = None \<or> (r = Some (NetError kMessageBodyIncomplete) \<and> q \<noteq> [])"
    using vector_items_run [OF p(1) refl, of "mh_message_type (header_of p)" "payload_len p" ?inc v] by blast
  let ?res = "case r of Some e \<Rightarrow> Some e | None \<Rightarrow> if ?inc then Some (NetError kMessageBodyIncomplete)
    else if payload_digest sha256 (drop 24 p) \<noteq> mh_payload_checksum (header_of p) then Some (NetError kMessageHeaderInvalidChecksum)
    else None"
  have av: "stream_avail (stream_at v p 24) \<noteq> payload_len p \<longleftrightarrow> ?inc"
    using p by (auto simp: stream_at_simps)
  show thesis
  proof (rule that [of ?res])
    show "validate_payload sha256 (body_stage v magic p) =
        Some (?res, if ?res = None then complete_stage v magic p else body_stage v magic p)"
      using r p av
      by (auto simp: validate_payload_def body_stage_def complete_stage_def stream_at_simps validate_payload_checksum_def
          payload_len_def Let_def split: option.splits)
    show "?res = None \<longleftrightarrow> well_formed sha256 v magic p"
      using well_formed_iff [OF p(1) h] p(2) sound complete [of "[]"] by (auto split: option.splits)
    show "is_incomplete ?res \<Longrightarrow> length p < 24 + payload_len p"
      using short accepted_vector_length [OF h(1)] p(3)
      by (auto simp: payload_len_def is_incomplete_def split: option.splits if_splits)
    show "is_incomplete ?res" if "q \<noteq> []" "well_formed sha256 v magic (p @ q)" for q
      using well_formed_iff [of "p @ q" v magic sha256] p(1) h that complete [of q]
      by (auto simp: is_incomplete_def split: option.splits)
  qed
qed

lemma validate_body:
  assumes "24 \<le> length p" "length p \<le> kMaxProtocolMessageLength"
    "validate_payload sha256 (body_stage v magic p) = Some (r, if r = None then complete_stage v magic p else body_stage v magic p)"
  shows "message_validate sha256 (body_stage v magic p) = Some (r, if r = None then complete_stage v magic p else body_stage v magic p)"
proof -
  have "stream_size (msg_stream (body_stage v magic p)) = length p" "\<not> message_is_complete (body_stage v magic p)"
    "validate_header (body_stage v magic p) = (None, body_stage v magic p)"
    by (simp_all add: body_stage_def stream_at_simps message_is_complete_def validate_header_def)
  with assms show ?thesis
    by (simp add: message_validate_def) (auto simp: body_stage_def complete_stage_def stream_at_simps)
qed

lemma validate_short:
  "length p < 24 \<Longrightarrow> message_validate sha256 (header_stage v magic h p) =
    Some (Some (NetError kMessageHeaderIncomplete), header_stage v magic h p)"
  by (simp add: message_validate_def header_stage_def stream_at_simps message_is_complete_def validate_header_def
      kMaxProtocolMessageLength_def kMiB_def)

lemma validate_overflow:
  "kMaxProtocolMessageLength < length p \<Longrightarrow> msg_stream m = stream_at v p k \<Longrightarrow>
    message_validate sha256 m = Some (Some (NetError kMessageSizeOverflow), m)"
  by (simp add: message_validate_def stream_at_simps)

lemma validate_header_rejected:
  assumes "24 \<le> length p" "length p \<le> kMaxProtocolMessageLength" "\<not> header_accepted v magic (header_of p)"
  shows "\<exists>e m. message_validate sha256 (header_stage v magic h p) = Some (Some e, m) \<and> \<not> is_incomplete (Some e)"
  using header_validate_ok(2) [OF assms(1,3), of "mh_message_type h"] assms(1,2)
  by (auto simp: message_validate_def header_stage_def stream_at_simps message_is_complete_def validate_header_def header_reads)

lemma validate_header_accepted:
  assumes "24 \<le> length p" "length p \<le> kMaxProtocolMessageLength" "header_accepted v magic (header_of p)"
  shows "message_validate sha256 (header_stage v magic h p) =
    (if payload_len p = 0 then Some (None, complete_stage v magic p) else message_validate sha256 (body_stage v magic p))"
proof -
  have z: "mh_payload_length (header_of p) = 0 \<longleftrightarrow> payload_len p = 0"
    by (simp add: payload_len_def unat_eq_0)
  have "validate_header (header_stage v magic h p) =
      (None, if payload_len p = 0 then complete_stage v magic p else body_stage v magic p)"
    using header_validate_ok(1) [OF assms(1,3), of "mh_message_type h"] assms(1)
    by (simp add: validate_header_def header_stage_def stream_at_simps header_reads z complete_stage_def body_stage_def)
  moreover have "validate_header (body_stage v magic p) = (None, body_stage v magic p)"
    "\<not> message_is_complete (body_stage v magic p)" "\<not> message_is_complete (header_stage v magic h p)"
    "stream_size (msg_stream (header_stage v magic h p)) = length p" "stream_size (msg_stream (body_stage v magic p)) = length p"
    "validate_payload sha256 (complete_stage v magic p) = Some (None, complete_stage v magic p)"
    by (simp_all add: validate_header_def body_stage_def header_stage_def complete_stage_def message_is_complete_def
        validate_payload_def stream_at_simps)
  moreover have "msg_stream (complete_stage v magic p) = stream_at v p 24"
    "(complete_stage v magic p)\<lparr>msg_stream := stream_at v p 24\<rparr> = complete_stage v magic p"
    by (simp_all add: complete_stage_def body_stage_def)
  ultimately show ?thesis
    using assms(1,2) by (simp add: message_validate_def stream_at_simps)
qed

section \<open>The loop of write\<close>

text \<open>The bytes after which a message is still incomplete, and its state.\<close>

definition pending :: "int \<Rightarrow> bytes \<Rightarrow> bytes \<Rightarrow> bool" where
  "pending v magic p \<longleftrightarrow> length p < 24 \<or>
    (header_accepted v magic (header_of p) \<and> length p < 24 + payload_len p \<and> length p \<le> kMaxProtocolMessageLength)"

definition receiver :: "int \<Rightarrow> bytes \<Rightarrow> bytes \<Rightarrow> message" where
  "receiver v magic p = (if length p < 24 then header_stage v magic message_header_new p else body_stage v magic p)"

definition demand :: "bytes \<Rightarrow> nat" where
  "demand p = (if length p < 24 then 24 - length p else 24 + payload_len p - length p)"

lemma receiver_new: "receiver v magic [] = message_new v magic"
  by (simp add: receiver_def header_stage_def message_new_def stream_at_simps)

lemma receiver_demand: "pending v magic p \<Longrightarrow> write_demand (receiver v magic p) = demand p \<and> 0 < demand p"
  by (auto simp: pending_def receiver_def demand_def write_demand_def header_stage_def body_stage_def stream_at_simps
      size_minus_def payload_len_def Let_def)

text \<open>A verdict on the bytes \<open>p\<close>, with the state it leaves.\<close>

definition verdict :: "(bytes \<Rightarrow> bytes option) \<Rightarrow> int \<Rightarrow> bytes \<Rightarrow> bytes \<Rightarrow> error_code status \<Rightarrow> message \<Rightarrow> bool" where
  "verdict sha256 v magic p r m \<longleftrightarrow>
    (r = None \<longleftrightarrow> well_formed sha256 v magic p) \<and> (r = None \<longrightarrow> m = complete_stage v magic p) \<and>
    (is_incomplete r \<longrightarrow> pending v magic p \<and> m = receiver v magic p) \<and>
    (\<forall>q. q \<noteq> [] \<and> well_formed sha256 v magic (p @ q) \<longrightarrow> is_incomplete r)"

lemma not_incomplete_None [simp]: "\<not> is_incomplete None"
  by (simp add: is_incomplete_def)

lemma well_formed_accepted:
  "well_formed sha256 v magic bs \<Longrightarrow> 24 \<le> length bs \<and> length bs \<le> kMaxProtocolMessageLength \<and>
    header_accepted v magic (header_of bs) \<and> length bs = 24 + payload_len bs"
  by (auto simp: well_formed_def payload_len_def Let_def)

lemma verdict_body:
  assumes "24 \<le> length p" "length p \<le> 24 + payload_len p" "header_accepted v magic (header_of p)" "0 < payload_len p"
  shows "\<exists>r m. message_validate sha256 (body_stage v magic p) = Some (r, m) \<and> verdict sha256 v magic p r m"
proof (cases "length p \<le> kMaxProtocolMessageLength")
  case True
  obtain r where r: "validate_payload sha256 (body_stage v magic p) =
        Some (r, if r = None then complete_stage v magic p else body_stage v magic p)"
      "r = None \<longleftrightarrow> well_formed sha256 v magic p" "is_incomplete r \<Longrightarrow> length p < 24 + payload_len p"
      "\<And>q. q \<noteq> [] \<Longrightarrow> well_formed sha256 v magic (p @ q) \<Longrightarrow> is_incomplete r"
    using validate_payload_run [OF assms(1) True assms(2-4)] by blast
  have "verdict sha256 v magic p r (if r = None then complete_stage v magic p else body_stage v magic p)"
    using r(2-4) assms(1,3) True by (auto simp: verdict_def pending_def receiver_def)
  then show ?thesis
    using validate_body [OF assms(1) True r(1)] by blast
next
  case False
  have "verdict sha256 v magic p (Some (NetError kMessageSizeOverflow)) (body_stage v magic p)"
    using False well_formed_accepted [of sha256 v magic p] well_formed_accepted [of sha256 v magic "p @ _"]
    by (auto simp: verdict_def is_incomplete_def dest: well_formed_accepted)
  then show ?thesis
    using False validate_overflow [of p "body_stage v magic p" v 24] by (simp add: body_stage_def)
qed

lemma verdict_header:
  assumes "length p \<le> 24"
  shows "\<exists>r m. message_validate sha256 (header_stage v magic message_header_new p) = Some (r, m) \<and> verdict sha256 v magic p r m"
proof -
  have le: "24 \<le> kMaxProtocolMessageLength"
    by (simp add: kMaxProtocolMessageLength_def kMiB_def)
  consider "length p < 24" | "length p = 24" "\<not> header_accepted v magic (header_of p)"
    | "length p = 24" "header_accepted v magic (header_of p)" "payload_len p = 0"
    | "length p = 24" "header_accepted v magic (header_of p)" "0 < payload_len p"
    using assms by linarith
  then show ?thesis
  proof cases
    case 1
    then show ?thesis
      using well_formed_accepted [of sha256 v magic p]
      by (auto simp: validate_short verdict_def pending_def receiver_def is_incomplete_def)
  next
    case 2
    with validate_header_rejected [of p v magic sha256 message_header_new] le obtain e m where
      "message_validate sha256 (header_stage v magic message_header_new p) = Some (Some e, m)" "\<not> is_incomplete (Some e)"
      by auto
    moreover from this 2 have "verdict sha256 v magic p (Some e) m"
      using well_formed_accepted [of sha256 v magic p] by (auto simp: verdict_def dest: well_formed_accepted)
    ultimately show ?thesis by blast
  next
    case 3
    have "well_formed sha256 v magic p"
      using 3 le by (simp add: well_formed_def payload_len_def Let_def)
    then have "verdict sha256 v magic p None (complete_stage v magic p)"
      using 3 by (auto simp: verdict_def dest: well_formed_accepted)
    with 3 le show ?thesis by (simp add: validate_header_accepted)
  next
    case 4
    then show ?thesis
      using verdict_body [of p v magic sha256] le by (simp add: validate_header_accepted)
  qed
qed

lemma write_step_verdict:
  assumes "pending v magic p" "input \<noteq> []" "k = min (demand p) (length input)"
  shows "\<exists>r m. write_step sha256 input (receiver v magic p) = Some (r, drop k input, m) \<and>
    verdict sha256 v magic (p @ take k input) r m"
proof (cases "length p < 24")
  case True
  then have "length p + k \<le> 24"
    using assms(3) by (simp add: demand_def)
  with True assms verdict_header [of "p @ take k input" sha256 v magic] receiver_demand [OF assms(1)] show ?thesis
    by (fastforce simp: write_step_def receiver_def header_stage_def write_append stream_at_simps kMaxStreamSize_eq Let_def)
next
  case False
  with assms have p: "24 \<le> length p" "header_accepted v magic (header_of p)" "length p < 24 + payload_len p" "length p + k \<le> 24 + payload_len p"
    by (auto simp: pending_def demand_def)
  then have "length p + k \<le> kMaxStreamSize"
    by (simp add: header_accepted_def payload_len_def Let_def kMaxProtocolMessageLength_def kMiB_def kMaxStreamSize_eq)
  with p False assms verdict_body [of "p @ take k input" v magic sha256] receiver_demand [OF assms(1)] show ?thesis
    by (fastforce simp: write_step_def receiver_def body_stage_def write_append stream_at_simps Let_def)
qed

lemma pending_well_formed:
  assumes "pending v magic p" "well_formed sha256 v magic (p @ q)"
  shows "demand p \<le> length q"
  using well_formed_accepted [OF assms(2)] assms(1) by (auto simp: pending_def demand_def)

lemma write_loop_verdict:
  assumes "pending v magic p" "input \<noteq> []"
  shows "\<exists>r k m. write_loop sha256 input (receiver v magic p) = Some (Some (r, drop k input, m)) \<and>
    0 < k \<and> k \<le> length input \<and> verdict sha256 v magic (p @ take k input) r m \<and> (is_incomplete r \<longrightarrow> k = length input) \<and>
    (\<forall>j \<le> length input. well_formed sha256 v magic (p @ take j input) \<longrightarrow> r = None \<and> k = j)"
  using assms
proof (induction "length input" arbitrary: p input rule: less_induct)
  case less
  obtain k0 where k0: "k0 = min (demand p) (length input)" by blast
  obtain r m where s: "write_step sha256 input (receiver v magic p) = Some (r, drop k0 input, m)"
    and vd: "verdict sha256 v magic (p @ take k0 input) r m"
    using write_step_verdict [OF less.prems k0, of sha256] by blast
  have k: "0 < k0" "k0 \<le> length input"
    using less.prems(2) receiver_demand [OF less.prems(1)] by (simp_all add: k0)
  have ge: "k0 \<le> j" if "well_formed sha256 v magic (p @ take j input)" for j
    using pending_well_formed [OF less.prems(1) that] by (simp add: k0)
  show ?case
  proof (cases "is_incomplete r \<and> drop k0 input \<noteq> []")
    case False
    have "r = None \<and> k0 = j" if "j \<le> length input" "well_formed sha256 v magic (p @ take j input)" for j
    proof (cases "j = k0")
      case True
      with that vd show ?thesis by (simp add: verdict_def)
    next
      case ne: False
      with ge [OF that(2)] have j: "k0 < j" by simp
      have "p @ take j input = (p @ take k0 input) @ take (j - k0) (drop k0 input)"
        using j take_add [of k0 "j - k0" input] by simp
      moreover have "take (j - k0) (drop k0 input) \<noteq> []" "drop k0 input \<noteq> []"
        using j that(1) by auto
      ultimately have "is_incomplete r"
        using vd that(2) unfolding verdict_def by metis
      with False \<open>drop k0 input \<noteq> []\<close> show ?thesis by blast
    qed
    moreover have "write_loop sha256 input (receiver v magic p) = Some (Some (r, drop k0 input, m))"
      using s False by (subst write_loop.simps) auto
    moreover have "is_incomplete r \<longrightarrow> k0 = length input"
      using False k(2) by auto
    ultimately show ?thesis
      using vd k by blast
  next
    case True
    then have m: "pending v magic (p @ take k0 input)" "m = receiver v magic (p @ take k0 input)"
      using vd by (simp_all add: verdict_def)
    have lt: "length (drop k0 input) < length input"
      using k by simp
    obtain r' k' m' where
      IH: "write_loop sha256 (drop k0 input) m = Some (Some (r', drop k' (drop k0 input), m'))"
        "0 < k'" "k' \<le> length (drop k0 input)" "verdict sha256 v magic ((p @ take k0 input) @ take k' (drop k0 input)) r' m'"
        "is_incomplete r' \<longrightarrow> k' = length (drop k0 input)"
        "\<forall>j \<le> length (drop k0 input). well_formed sha256 v magic ((p @ take k0 input) @ take j (drop k0 input)) \<longrightarrow> r' = None \<and> k' = j"
      using less.hyps [OF lt m(1)] True unfolding m(2) by blast
    have tk: "(p @ take k0 input) @ take j (drop k0 input) = p @ take (k0 + j) input" for j
      by (simp add: take_add)
    have "r' = None \<and> k0 + k' = j" if "j \<le> length input" "well_formed sha256 v magic (p @ take j input)" for j
    proof -
      have "k0 + (j - k0) = j" using ge [OF that(2)] by simp
      then have "r' = None \<and> k' = j - k0"
        using IH(6) [rule_format, of "j - k0"] that tk [of "j - k0"] by (simp del: append_assoc)
      with \<open>k0 + (j - k0) = j\<close> show ?thesis by simp
    qed
    moreover have "write_loop sha256 input (receiver v magic p) = Some (Some (r', drop (k0 + k') input, m'))"
      using s True IH(1) by (subst write_loop.simps) (simp add: add.commute)
    moreover have "verdict sha256 v magic (p @ take (k0 + k') input) r' m'"
      using IH(4) unfolding tk .
    moreover have "0 < k0 + k'" "k0 + k' \<le> length input" "is_incomplete r' \<longrightarrow> k0 + k' = length input"
      using IH(2,3,5) k(2) by simp_all
    ultimately show ?thesis by blast
  qed
qed

section \<open>Reception\<close>

text \<open>The messages that have received the bytes \<open>p\<close>, in any number of writes, and wait for more.\<close>

inductive received :: "(bytes \<Rightarrow> bytes option) \<Rightarrow> int \<Rightarrow> bytes \<Rightarrow> bytes \<Rightarrow> message \<Rightarrow> bool" for sha256 v magic where
  start: "received sha256 v magic [] (message_new v magic)"
| more: "received sha256 v magic p m \<Longrightarrow> message_write sha256 input m = Some (Some (r, rest, m')) \<Longrightarrow> is_incomplete r \<Longrightarrow>
    received sha256 v magic (p @ take (length input - length rest) input) m'"

lemma receiver_incomplete: "\<not> message_is_complete (receiver v magic p)"
  by (simp add: receiver_def header_stage_def body_stage_def message_is_complete_def)

lemma message_write_Nil:
  "message_write sha256 [] (receiver v magic p) =
    Some (Some (Some (NetError (if length p < 24 then kMessageHeaderIncomplete else kMessageBodyIncomplete)), [], receiver v magic p))"
  by (simp add: message_write_def receiver_def header_stage_def body_stage_def)

definition write_outcome :: "(bytes \<Rightarrow> bytes option) \<Rightarrow> int \<Rightarrow> bytes \<Rightarrow> bytes \<Rightarrow> bytes \<Rightarrow> error_code status \<Rightarrow> nat \<Rightarrow> message \<Rightarrow> bool" where
  "write_outcome sha256 v magic p input r k m \<longleftrightarrow> k \<le> length input \<and>
    (is_incomplete r \<longrightarrow> k = length input \<and> pending v magic (p @ input) \<and> m = receiver v magic (p @ input)) \<and>
    (r = None \<longrightarrow> well_formed sha256 v magic (p @ take k input) \<and> m = complete_stage v magic (p @ take k input)) \<and>
    (\<forall>j \<le> length input. well_formed sha256 v magic (p @ take j input) \<longrightarrow> r = None \<and> k = j) \<and>
    (\<forall>q. q \<noteq> [] \<longrightarrow> well_formed sha256 v magic (p @ input @ q) \<longrightarrow> is_incomplete r)"

lemma write_outcomeD:
  assumes "write_outcome sha256 v magic p input r k m"
  shows "k \<le> length input"
    "is_incomplete r \<Longrightarrow> k = length input" "is_incomplete r \<Longrightarrow> pending v magic (p @ input)"
    "is_incomplete r \<Longrightarrow> m = receiver v magic (p @ input)"
    "r = None \<Longrightarrow> well_formed sha256 v magic (p @ take k input)"
    "r = None \<Longrightarrow> m = complete_stage v magic (p @ take k input)"
    "j \<le> length input \<Longrightarrow> well_formed sha256 v magic (p @ take j input) \<Longrightarrow> r = None"
    "j \<le> length input \<Longrightarrow> well_formed sha256 v magic (p @ take j input) \<Longrightarrow> k = j"
    "q \<noteq> [] \<Longrightarrow> well_formed sha256 v magic (p @ input @ q) \<Longrightarrow> is_incomplete r"
  using assms unfolding write_outcome_def by blast+

lemma message_write_verdict:
  assumes "pending v magic p"
  shows "\<exists>r k m. message_write sha256 input (receiver v magic p) = Some (Some (r, drop k input, m)) \<and>
    write_outcome sha256 v magic p input r k m"
proof (cases "input = []")
  case True
  have "\<not> well_formed sha256 v magic p"
    using pending_well_formed [OF assms, of sha256 "[]"] receiver_demand [OF assms] by auto
  with True message_write_Nil [of sha256 v magic p] assms show ?thesis
    by (auto simp: is_incomplete_def write_outcome_def)
next
  case False
  then obtain r k m where l: "write_loop sha256 input (receiver v magic p) = Some (Some (r, drop k input, m))"
    "0 < k" "k \<le> length input" "verdict sha256 v magic (p @ take k input) r m" "is_incomplete r \<longrightarrow> k = length input"
    "\<forall>j \<le> length input. well_formed sha256 v magic (p @ take j input) \<longrightarrow> r = None \<and> k = j"
    using write_loop_verdict [OF assms False, of sha256] by blast
  have w: "message_write sha256 input (receiver v magic p) = Some (Some (r, drop k input, m))"
    using False l(1) by (simp add: message_write_def receiver_incomplete)
  have ext: "is_incomplete r" if "q \<noteq> []" "well_formed sha256 v magic (p @ input @ q)" for q
  proof -
    have "p @ input @ q = (p @ take k input) @ drop k input @ q"
      by simp
    then show ?thesis
      using l(4) that unfolding verdict_def by (metis append_is_Nil_conv)
  qed
  have "write_outcome sha256 v magic p input r k m"
    unfolding write_outcome_def using l(3,6)
  proof (intro conjI impI)
    assume r: "is_incomplete r"
    with l(5) show k: "k = length input" by blast
    show "pending v magic (p @ input)" "m = receiver v magic (p @ input)"
      using l(4) r unfolding verdict_def k by simp_all
  next
    assume "r = None"
    with l(4) show "well_formed sha256 v magic (p @ take k input)" "m = complete_stage v magic (p @ take k input)"
      unfolding verdict_def by blast+
  qed (use ext in \<open>blast+\<close>)
  with w show ?thesis by blast
qed

lemma received_pending: "received sha256 v magic p m \<Longrightarrow> pending v magic p \<and> m = receiver v magic p"
proof (induction rule: received.induct)
  case start
  then show ?case by (simp add: pending_def receiver_new)
next
  case (more p m input r rest m')
  then obtain r1 k m1 where w: "message_write sha256 input m = Some (Some (r1, drop k input, m1))"
    "write_outcome sha256 v magic p input r1 k m1"
    using message_write_verdict by blast
  with more.hyps(2,3) have "is_incomplete r1" "rest = drop k input" "m' = m1" by simp_all
  with write_outcomeD(2-4) [OF w(2)] show ?case by simp
qed

lemma received_verdict:
  assumes "received sha256 v magic p m"
  obtains r k m' where "message_write sha256 input m = Some (Some (r, drop k input, m'))"
    "write_outcome sha256 v magic p input r k m'"
  using message_write_verdict received_pending [OF assms] by blast

lemma received_more:
  assumes "received sha256 v magic p m" "q \<noteq> []" "well_formed sha256 v magic (p @ input @ q)"
  shows "\<exists>r m'. message_write sha256 input m = Some (Some (r, [], m')) \<and> is_incomplete r \<and> received sha256 v magic (p @ input) m'"
proof -
  obtain r k m' where w: "message_write sha256 input m = Some (Some (r, drop k input, m'))"
      "write_outcome sha256 v magic p input r k m'"
    by (rule received_verdict [OF assms(1)])
  note r = write_outcomeD(9) [OF w(2) assms(2,3)]
  show ?thesis
    using received.more [OF assms(1) w(1) r] w(1) r write_outcomeD(2) [OF w(2) r] by simp
qed

lemma received_chunks:
  assumes "well_formed sha256 v magic (concat cs @ fin)" "fin \<noteq> []"
  shows "\<exists>m. received sha256 v magic (concat cs) m"
  using assms
proof (induction cs arbitrary: fin rule: rev_induct)
  case Nil
  show ?case using received.start by auto
next
  case (snoc c cs)
  have "well_formed sha256 v magic (concat cs @ c @ fin)"
    using snoc.prems(1) by simp
  moreover obtain m where "received sha256 v magic (concat cs) m"
    using snoc.IH [of "c @ fin"] snoc.prems by auto
  ultimately show ?case
    using received_more [of sha256 v magic "concat cs" m fin c] snoc.prems(2) by auto
qed

lemma chunks_complete:
  assumes "well_formed sha256 v magic (concat cs @ fin)" "fin \<noteq> []"
  shows "\<exists>m. received sha256 v magic (concat cs) m \<and>
    message_write sha256 (fin @ extra) m = Some (Some (None, extra, complete_stage v magic (concat cs @ fin)))"
proof -
  obtain m where m: "received sha256 v magic (concat cs) m"
    using received_chunks [OF assms] by blast
  obtain r k m1 where w: "message_write sha256 (fin @ extra) m = Some (Some (r, drop k (fin @ extra), m1))"
      and o: "write_outcome sha256 v magic (concat cs) (fin @ extra) r k m1"
    by (rule received_verdict [OF m])
  have "r = None" "k = length fin"
    using write_outcomeD(7,8) [OF o, of "length fin"] assms(1) by simp_all
  with w write_outcomeD(6) [OF o] m show ?thesis by auto
qed

section \<open>Pushing\<close>

text \<open>The header of a pushed payload and the bytes of the message.\<close>

definition pushed_header :: "(bytes \<Rightarrow> bytes option) \<Rightarrow> int \<Rightarrow> bytes \<Rightarrow> message_payload \<Rightarrow> message_header" where
  "pushed_header sha256 v magic p =
    \<lparr>mh_network_magic = magic, mh_command = padded_command (definition_of (payload_type p)),
     mh_payload_length = of_nat (length (payload_bytes v p)), mh_payload_checksum = payload_digest sha256 (payload_bytes v p),
     mh_message_type = payload_type p\<rparr>"

definition frame :: "(bytes \<Rightarrow> bytes option) \<Rightarrow> int \<Rightarrow> bytes \<Rightarrow> message_payload \<Rightarrow> bytes" where
  "frame sha256 v magic p = header_bytes (pushed_header sha256 v magic p) @ payload_bytes v p"

text \<open>The payloads inside the bounds of the definition of their message.\<close>

definition sendable :: "int \<Rightarrow> message_payload \<Rightarrow> bool" where
  "sendable v p \<longleftrightarrow>
    (let d = definition_of (payload_type p); b = payload_bytes v p
     in payload_ok p \<and> 24 + length b \<le> kMaxProtocolMessageLength \<and>
       (\<forall>lo. mdef_min_payload_length d = Some lo \<longrightarrow> lo \<le> length b) \<and>
       (\<forall>hi. mdef_max_payload_length d = Some hi \<longrightarrow> length b \<le> hi) \<and>
       (mdef_is_vectorized d \<longrightarrow> vector_ok d b))"

text \<open>A digest of 32 bytes, for every input.\<close>

definition digest32 :: "(bytes \<Rightarrow> bytes option) \<Rightarrow> bool" where
  "digest32 sha256 \<longleftrightarrow> (\<forall>x. \<exists>y. sha256 x = Some y \<and> length y = 32)"

lemma payload_ok_type: "payload_ok p \<Longrightarrow> payload_type p \<noteq> kMissingOrUnknown"
  by (cases p) (auto simp: payload_ok_def null_payload_def ping_pong_payload_def inventory_payload_def split: if_splits)

lemma payload_digest_Nil [simp]: "payload_digest sha256 [] = take 4 kEmptyHash256"
  by (simp add: payload_digest_def hash256_finalize_def hash256_new_def)

lemma length_payload_digest:
  assumes "digest32 sha256"
  shows "length (payload_digest sha256 b) = 4"
proof -
  obtain y where "sha256 b = Some y" "length y = 32"
    using assms unfolding digest32_def by blast
  moreover obtain z where "sha256 y = Some z" "length z = 32"
    using assms unfolding digest32_def by blast
  ultimately show ?thesis
    by (auto simp: payload_digest_def hash256_finalize_def hash256_new_def md_finalize_def md_init_with_def md_update_def md_new_def
        Let_def kEmptyHash256_def)
qed

lemma no_version_bounds [simp]:
  "mdef_min_protocol_version (definition_of t) = None" "mdef_max_protocol_version (definition_of t) = None"
  by (cases t; simp add: message_definition_defs)+

lemma frame_header:
  assumes "digest32 sha256" "length magic = 4" "payload_ok p" "24 + length (payload_bytes v p) \<le> kMaxProtocolMessageLength"
  shows "header_ok (pushed_header sha256 v magic p)" "length (frame sha256 v magic p) = 24 + length (payload_bytes v p)"
    "header_of (frame sha256 v magic p) = pushed_header sha256 v magic p" "drop 24 (frame sha256 v magic p) = payload_bytes v p"
    "payload_len (frame sha256 v magic p) = length (payload_bytes v p)"
proof -
  show h: "header_ok (pushed_header sha256 v magic p)"
    using assms by (simp add: header_ok_def pushed_header_def length_padded_command length_payload_digest)
  show "length (frame sha256 v magic p) = 24 + length (payload_bytes v p)" "drop 24 (frame sha256 v magic p) = payload_bytes v p"
    using length_header_bytes [OF h] by (simp_all add: frame_def)
  show e: "header_of (frame sha256 v magic p) = pushed_header sha256 v magic p"
    using header_of_bytes [OF h, of "payload_bytes v p"] from_padded_command [OF payload_ok_type [OF assms(3)]]
    by (simp add: frame_def) (simp add: pushed_header_def)
  show "payload_len (frame sha256 v magic p) = length (payload_bytes v p)"
    using assms(4) by (simp add: payload_len_def e pushed_header_def unat_of_nat kMaxProtocolMessageLength_def kMiB_def)
qed

lemma frame_well_formed:
  assumes "digest32 sha256" "length magic = 4" "payload_ok p" "24 + length (payload_bytes v p) \<le> kMaxProtocolMessageLength"
  shows "well_formed sha256 v magic (frame sha256 v magic p) \<longleftrightarrow> sendable v p"
proof -
  note f = frame_header [OF assms]
  have "unat (mh_payload_length (pushed_header sha256 v magic p)) = length (payload_bytes v p)"
    using f(5) by (simp add: payload_len_def f(3))
  then show ?thesis
    using assms payload_ok_type [OF assms(3)] vector_min_length [of "payload_type p"]
    by (auto simp: well_formed_def f(2-4) header_accepted_def sendable_def Let_def pushed_header_def vector_ok_def)
qed

lemma header_new_ok: "header_ok message_header_new" "message_header_pristine message_header_new"
  by (simp_all add: header_ok_def message_header_new_def message_header_pristine_def kMessageHeaderMagicLength_def
      kMessageHeaderCommandLength_def kMessageHeaderChecksumLength_def list_all_iff)

lemma set_type_command:
  "message_header_set_type t message_header_new =
    message_header_new\<lparr>mh_command := padded_command (definition_of t), mh_message_type := t\<rparr>"
proof -
  have "length (case mdef_command (definition_of t) of None \<Rightarrow> [] | Some c \<Rightarrow> c) \<le> 12"
    by (cases t) (simp_all add: message_definition_defs)
  then show ?thesis
    by (simp add: message_header_set_type_def header_new_ok(2) padded_command_def Let_def)
      (simp add: message_header_new_def kMessageHeaderCommandLength_def)
qed

lemma push_eq:
  assumes "digest32 sha256" "length magic = 4" "payload_ok p" "24 + length (payload_bytes v p) \<le> kMaxProtocolMessageLength"
  shows "message_push sha256 p (message_new v magic) =
    (case message_validate sha256 (header_stage v magic (pushed_header sha256 v magic p) (frame sha256 v magic p)) of
      None \<Rightarrow> None | Some (r, m) \<Rightarrow> Some (r, payload_sent v p, m))"
proof -
  let ?b = "payload_bytes v p"
  let ?h = "(message_header_set_type (payload_type p) message_header_new)\<lparr>mh_network_magic := magic\<rparr>"
  let ?h' = "?h\<lparr>mh_payload_length := of_nat (length ?b)\<rparr>"
  let ?h'' = "?h'\<lparr>mh_payload_checksum := payload_digest sha256 ?b\<rparr>"
  have h: "header_ok ?h" "?h'' = pushed_header sha256 v magic p"
    using assms(2) header_new_ok(1) by (simp_all add: set_type_command header_ok_def length_padded_command pushed_header_def)
  have l: "length (header_bytes ?h) = 24"
    using h(1) by (rule length_header_bytes)
  have s: "24 + length ?b \<le> kMaxStreamSize"
    using assms(4) by (simp add: kMaxProtocolMessageLength_def kMiB_def kMaxStreamSize_eq)
  have 1: "message_header_serialization kSerialize (?h, stream_at v [] 0) = (None, ?h, stream_at v (header_bytes ?h) 0)"
    using header_codec.writes [OF h(1), of "stream_at v [] 0"] l s by (simp add: stream_at_simps)
  have 2: "payload_serialization kSerialize (p, stream_at v (header_bytes ?h) 0) = (None, payload_sent v p, stream_at v (header_bytes ?h @ ?b) 0)"
    using payload_writes [OF assms(3), of "stream_at v (header_bytes ?h) 0"] l s by (simp add: stream_at_simps)
  have 3: "patch_header ?h'' (header_bytes ?h @ ?b) = frame sha256 v magic p"
    using h(1) length_payload_digest [OF assms(1)]
    by (simp add: patch_header_def frame_def flip: h(2)) (simp add: header_bytes_def header_ok_def)
  have 4: "message_new v magic = header_stage v magic message_header_new []"
    by (simp add: message_new_def header_stage_def stream_at_simps)
  show ?thesis
    using payload_ok_type [OF assms(3)] 1 2 3 l
    by (simp add: message_push_def 4 header_stage_def header_new_ok(2) stream_at_simps Let_def h(2))
qed

lemma push_frame:
  assumes "digest32 sha256" "length magic = 4" "sendable v p"
  shows "message_push sha256 p (message_new v magic) = Some (None, payload_sent v p, complete_stage v magic (frame sha256 v magic p))"
proof -
  have p: "payload_ok p" "24 + length (payload_bytes v p) \<le> kMaxProtocolMessageLength"
    using assms(3) by (simp_all add: sendable_def Let_def)
  let ?f = "frame sha256 v magic p"
  note f = frame_header [OF assms(1,2) p]
  have w: "well_formed sha256 v magic ?f"
    using frame_well_formed [OF assms(1,2) p] assms(3) by simp
  have a: "24 \<le> length ?f" "length ?f \<le> kMaxProtocolMessageLength" "header_accepted v magic (header_of ?f)" "length ?f \<le> 24 + payload_len ?f"
    using well_formed_accepted [OF w] by simp_all
  have "message_validate sha256 (header_stage v magic (pushed_header sha256 v magic p) ?f) = Some (None, complete_stage v magic ?f)"
  proof (cases "payload_len ?f = 0")
    case True
    with a show ?thesis by (simp add: validate_header_accepted)
  next
    case False
    with verdict_body [OF a(1,4,3), of sha256] w a show ?thesis
      by (auto simp: validate_header_accepted verdict_def)
  qed
  then show ?thesis
    by (simp add: push_eq [OF assms(1,2) p])
qed

lemma push_success_iff:
  assumes "digest32 sha256" "length magic = 4" "payload_ok p" "24 + length (payload_bytes v p) \<le> kMaxProtocolMessageLength"
  shows "(\<exists>q m. message_push sha256 p (message_new v magic) = Some (None, q, m)) \<longleftrightarrow> sendable v p"
proof
  assume "\<exists>q m. message_push sha256 p (message_new v magic) = Some (None, q, m)"
  then obtain m where m: "message_validate sha256 (header_stage v magic (pushed_header sha256 v magic p) (frame sha256 v magic p)) = Some (None, m)"
    by (auto simp: push_eq [OF assms] split: option.splits prod.splits)
  let ?f = "frame sha256 v magic p"
  note f = frame_header [OF assms]
  have l: "24 \<le> length ?f" "length ?f \<le> kMaxProtocolMessageLength" "length ?f \<le> 24 + payload_len ?f"
    using f(2,5) assms(4) by simp_all
  have a: "header_accepted v magic (header_of ?f)"
    using m validate_header_rejected [OF l(1,2), of v magic sha256 "pushed_header sha256 v magic p"] by auto
  have "well_formed sha256 v magic ?f"
  proof (cases "payload_len ?f = 0")
    case True
    with l a f(2,5) show ?thesis by (auto simp: well_formed_def payload_len_def Let_def f(4))
  next
    case False
    with verdict_body [OF l(1,3) a, of sha256] m validate_header_accepted [OF l(1,2) a] show ?thesis
      by (auto simp: verdict_def)
  qed
  then show "sendable v p"
    using frame_well_formed [OF assms] by simp
qed (use push_frame [OF assms(1,2)] in blast)

lemma ping_sendable: "sendable v (PingPongPayload kPing n)"
  by (simp add: sendable_def payload_ok_def ping_pong_payload_def payload_bytes_def message_definition_defs
      kMaxProtocolMessageLength_def kMiB_def Let_def)

lemma const_digest32: "digest32 (\<lambda>x. Some (replicate 32 0))"
  by (simp add: digest32_def)

lemma ping_well_formed:
  "well_formed (\<lambda>x. Some (replicate 32 0)) v [1, 2, 3, 4] (frame (\<lambda>x. Some (replicate 32 0)) v [1, 2, 3, 4] (PingPongPayload kPing n))"
  using ping_sendable [of v n] frame_well_formed [OF const_digest32, of "[1, 2, 3, 4]" "PingPongPayload kPing n" v]
  by (simp add: sendable_def Let_def)

section \<open>Properties\<close>

text \<open>C3. A message that waits for bytes takes every input: \<open>write\<close> returns, no assertion fails, what it does
  not consume is a suffix of the input, and when it asks for more it has consumed everything and waits again.\<close>

theorem write_returns:
  assumes "received sha256 v magic p m"
  shows "\<exists>r k m'. message_write sha256 input m = Some (Some (r, drop k input, m')) \<and> k \<le> length input \<and>
    (is_incomplete r \<longrightarrow> k = length input \<and> received sha256 v magic (p @ input) m')"
proof -
  obtain r k m' where w: "message_write sha256 input m = Some (Some (r, drop k input, m'))"
      "write_outcome sha256 v magic p input r k m'"
    by (rule received_verdict [OF assms])
  have "k = length input \<and> received sha256 v magic (p @ input) m'" if "is_incomplete r"
    using received.more [OF assms w(1) that] write_outcomeD(2) [OF w(2) that] by simp
  with w(1) write_outcomeD(1) [OF w(2)] show ?thesis by blast
qed

theorem write_returns_witness:
  "\<exists>r k m'. message_write (\<lambda>x. Some (replicate 32 0)) [1, 2] (message_new 170002 [1, 2, 3, 4]) = Some (Some (r, drop k [1, 2], m')) \<and>
    k \<le> length [1 :: byte, 2]"
  using write_returns [OF received.start [of "\<lambda>x. Some (replicate 32 0)" 170002 "[1, 2, 3, 4]"], of "[1, 2]"] by blast

text \<open>C2. A message is accepted exactly when the bytes received so far and a prefix of the input are a well-formed
  message: network, command, length, checksum and vector are right. The rest of the input is not consumed, and the
  message holds exactly the bytes of the prefix, positioned on the payload.\<close>

theorem write_accepts_well_formed:
  assumes "received sha256 v magic p m"
  shows "message_write sha256 input m = Some (Some (None, rest, m')) \<longleftrightarrow>
    (\<exists>k \<le> length input. rest = drop k input \<and> well_formed sha256 v magic (p @ take k input) \<and>
      m' = complete_stage v magic (p @ take k input))"
proof -
  obtain r k m1 where w: "message_write sha256 input m = Some (Some (r, drop k input, m1))"
      and o: "write_outcome sha256 v magic p input r k m1"
    by (rule received_verdict [OF assms])
  show ?thesis
  proof
    assume "message_write sha256 input m = Some (Some (None, rest, m'))"
    with w write_outcomeD(1,5,6) [OF o] show "\<exists>k \<le> length input. rest = drop k input \<and> well_formed sha256 v magic (p @ take k input) \<and>
        m' = complete_stage v magic (p @ take k input)" by (intro exI [of _ k]) simp
  next
    assume "\<exists>k \<le> length input. rest = drop k input \<and> well_formed sha256 v magic (p @ take k input) \<and>
        m' = complete_stage v magic (p @ take k input)"
    then obtain j where j: "j \<le> length input" "rest = drop j input" "well_formed sha256 v magic (p @ take j input)"
      "m' = complete_stage v magic (p @ take j input)" by blast
    have "r = None" "k = j"
      using write_outcomeD(7,8) [OF o j(1,3)] .
    with w write_outcomeD(6) [OF o] j show "message_write sha256 input m = Some (Some (None, rest, m'))" by simp
  qed
qed

theorem write_accepts_well_formed_witness:
  "\<exists>m'. message_write (\<lambda>x. Some (replicate 32 0)) (frame (\<lambda>x. Some (replicate 32 0)) 170002 [1, 2, 3, 4] (PingPongPayload kPing 7))
    (message_new 170002 [1, 2, 3, 4]) = Some (Some (None, [], m'))"
proof -
  let ?f = "frame (\<lambda>x. Some (replicate 32 0)) 170002 [1, 2, 3, 4] (PingPongPayload kPing 7)"
  have "\<exists>k \<le> length ?f. [] = drop k ?f \<and> well_formed (\<lambda>x. Some (replicate 32 0)) 170002 [1, 2, 3, 4] ([] @ take k ?f) \<and>
      complete_stage 170002 [1, 2, 3, 4] ?f = complete_stage 170002 [1, 2, 3, 4] ([] @ take k ?f)"
    using ping_well_formed by (intro exI [of _ "length ?f"]) simp
  then show ?thesis
    using write_accepts_well_formed [OF received.start [of "\<lambda>x. Some (replicate 32 0)" 170002 "[1, 2, 3, 4]"], of ?f "[]"
        "complete_stage 170002 [1, 2, 3, 4] ?f"] by blast
qed





end
