(* ===== verification/Address_Book.thy ===== *)
theory Address_Book
  imports Addresses Crypto Payloads Containers "HOL-Library.Monad_Syntax"
begin

text \<open>
  infra/network/addressbook.hpp and addressbook.cpp: the collection of known services, with the buckets of new and tried
  entries and the randomly ordered vector of their ids. The container with two unique indexes is a pair of maps; a
  pointer to an entry is its id, so that an entry is always read from the current state. A result \<open>None\<close> is a
  failed assertion. The clock, the outcome of \<open>randomize\<close>, the predicates of addresses and the message
  authentication code are parameters. Locks, the settings and the service timer are not modelled.
\<close>

section \<open>State\<close>

definition kBucketSize :: nat where "kBucketSize = 64"
definition kNewBucketsCount :: nat where "kNewBucketsCount = 1024"
definition kTriedBucketsCount :: nat where "kTriedBucketsCount = 256"
definition kMaxNewBucketReferences :: nat where "kMaxNewBucketReferences = 8"
definition kNewBucketsPerSourceGroup :: nat where "kNewBucketsPerSourceGroup = 64"
definition kTriedBucketsPerGroup :: nat where "kTriedBucketsPerGroup = 8"
definition kIPv4SubnetGroupsPrefix :: nat where "kIPv4SubnetGroupsPrefix = 16"
definition kIPv6SubnetGroupsPrefix :: nat where "kIPv6SubnetGroupsPrefix = 64"

type_synonym entry_id = "32 word"

record slot_address =
  slot_x :: "16 word"
  slot_y :: "16 word"

definition slot_xy :: "slot_address \<Rightarrow> 32 word" where
  "slot_xy s = word_of_nat (unat (slot_x s) * 2 ^ 16 + unat (slot_y s))"

record address_book =
  ab_key :: bytes
  ab_last_used_id :: entry_id
  ab_new_entries_size :: "32 word"
  ab_tried_entries_size :: "32 word"
  ab_randomly_ordered_ids :: "entry_id list"
  ab_new_buckets :: "32 word \<rightharpoonup> entry_id"
  ab_tried_buckets :: "32 word \<rightharpoonup> entry_id"
  ab_recently_selected :: "ip_endpoint lru_set"
  ab_by_id :: "entry_id \<rightharpoonup> node_service_info"
  ab_by_endpoint :: "ip_endpoint \<rightharpoonup> entry_id"

record ab_env =
  env_asio :: asio
  env_mac :: "bytes \<Rightarrow> bytes \<Rightarrow> bytes"

definition address_book_new :: "bytes \<Rightarrow> address_book" where
  "address_book_new key =
    \<lparr>ab_key = key, ab_last_used_id = 1, ab_new_entries_size = 0, ab_tried_entries_size = 0,
     ab_randomly_ordered_ids = [], ab_new_buckets = Map.empty, ab_tried_buckets = Map.empty,
     ab_recently_selected = lru_new 64, ab_by_id = Map.empty, ab_by_endpoint = Map.empty\<rparr>"

definition assert_that :: "bool \<Rightarrow> unit option" where
  "assert_that b = (if b then Some () else None)"

definition info_endpoint :: "node_service_info \<Rightarrow> ip_endpoint" where
  "info_endpoint i = ns_endpoint (nsi_service i)"

text \<open>Writing through the iterator of an entry.\<close>

definition modify_entry :: "entry_id \<Rightarrow> (node_service_info \<Rightarrow> node_service_info) \<Rightarrow> address_book \<Rightarrow> address_book" where
  "modify_entry eid f ab = ab\<lparr>ab_by_id := (ab_by_id ab)(eid := map_option f (ab_by_id ab eid))\<rparr>"

section \<open>Queries\<close>

definition ab_contains :: "ip_endpoint \<Rightarrow> address_book \<Rightarrow> bool" where
  "ab_contains e ab = (ab_by_endpoint ab e \<noteq> None)"

definition ab_contains_id :: "entry_id \<Rightarrow> address_book \<Rightarrow> bool" where
  "ab_contains_id eid ab = (ab_by_id ab eid \<noteq> None)"

definition size_by_buckets :: "address_book \<Rightarrow> 32 word \<times> 32 word" where
  "size_by_buckets ab = (ab_new_entries_size ab, ab_tried_entries_size ab)"

definition lookup_entry_by_id :: "entry_id \<Rightarrow> address_book \<Rightarrow> (node_service_info \<times> entry_id) option" where
  "lookup_entry_by_id eid ab = map_option (\<lambda>i. (i, eid)) (ab_by_id ab eid)"

definition lookup_entry_by_endpoint :: "ip_endpoint \<Rightarrow> address_book \<Rightarrow> (node_service_info \<times> entry_id) option" where
  "lookup_entry_by_endpoint e ab =
    (case ab_by_endpoint ab e of None \<Rightarrow> None | Some eid \<Rightarrow> lookup_entry_by_id eid ab)"

section \<open>Slots\<close>

definition ip_type_value :: "ip_address_type \<Rightarrow> byte" where
  "ip_type_value t = (case t of kIPv4 \<Rightarrow> 1 | kIPv6 \<Rightarrow> 4)"

definition compute_group :: "asio \<Rightarrow> ip_address \<Rightarrow> bytes option" where
  "compute_group asio address =
    (if \<not> ip_is_routable asio address then None
     else
      (case calculate_subnet_base_address address
          (if ip_get_type address = kIPv4 then kIPv4SubnetGroupsPrefix else kIPv6SubnetGroupsPrefix) of
        Some (Success subnet) \<Rightarrow> Some ([1, ip_type_value (ip_get_type address)] @ ip_to_bytes subnet)
      | _ \<Rightarrow> None))"

definition sip_hash :: "ab_env \<Rightarrow> bytes \<Rightarrow> bytes list \<Rightarrow> 64 word option" where
  "sip_hash env key parts =
    map_option (\<lambda>h. le_to_word (take 8 (siphash_finalize (env_mac env) (fold siphash_update parts h)))) (siphash_init key)"

definition get_new_slot :: "ab_env \<Rightarrow> address_book \<Rightarrow> node_service_info \<Rightarrow> ip_address \<Rightarrow> slot_address option" where
  "get_new_slot env ab i source =
    do {
      source_group \<leftarrow> compute_group (env_asio env) source;
      service_group \<leftarrow> compute_group (env_asio env) (ep_address (info_endpoint i));
      hash1 \<leftarrow> sip_hash env (ab_key ab) [service_group, source_group];
      hash2 \<leftarrow> sip_hash env (ab_key ab) [source_group, word_to_le (hash1 mod of_nat kNewBucketsPerSourceGroup)];
      let x = (ucast (hash2 mod of_nat kNewBucketsCount) :: 16 word);
      hash3 \<leftarrow> sip_hash env (ab_key ab) [[char_byte (CHR ''N'')], word_to_le x, endpoint_to_bytes (env_asio env) (info_endpoint i)];
      Some \<lparr>slot_x = x, slot_y = ucast (hash3 mod of_nat kBucketSize)\<rparr>
    }"

definition get_tried_slot :: "ab_env \<Rightarrow> address_book \<Rightarrow> node_service_info \<Rightarrow> slot_address option" where
  "get_tried_slot env ab i =
    do {
      service_group \<leftarrow> compute_group (env_asio env) (ep_address (info_endpoint i));
      let service_key = endpoint_to_bytes (env_asio env) (info_endpoint i);
      hash1 \<leftarrow> sip_hash env (ab_key ab) [service_key];
      hash2 \<leftarrow> sip_hash env (ab_key ab) [service_group, word_to_le (hash1 mod of_nat kTriedBucketsPerGroup)];
      let x = (ucast (hash2 mod of_nat kTriedBucketsCount) :: 16 word);
      hash3 \<leftarrow> sip_hash env (ab_key ab) [[char_byte (CHR ''T'')], word_to_le x, service_key];
      Some \<lparr>slot_x = x, slot_y = ucast (hash3 mod of_nat kBucketSize)\<rparr>
    }"

section \<open>Removal\<close>

definition swap_randomly_ordered_ids :: "32 word \<Rightarrow> 32 word \<Rightarrow> address_book \<Rightarrow> address_book option" where
  "swap_randomly_ordered_ids i j ab =
    (if i = j then Some ab
     else
      let ids = ab_randomly_ordered_ids ab
      in if \<not> (unat i < length ids \<and> unat j < length ids) then None
         else
          let id_at_i = ids ! unat i; id_at_j = ids ! unat j
          in if ab_by_id ab id_at_i = None \<or> ab_by_id ab id_at_j = None then None
             else
              let ab = modify_entry id_at_i (nsi_random_pos_update (\<lambda>_. j)) ab;
                  ab = modify_entry id_at_j (nsi_random_pos_update (\<lambda>_. i)) ab
              in Some (ab\<lparr>ab_randomly_ordered_ids := ids[unat i := id_at_j, unat j := id_at_i]\<rparr>))"

definition erase_new_entry :: "entry_id \<Rightarrow> address_book \<Rightarrow> address_book option" where
  "erase_new_entry eid ab =
    (if eid = 0 then Some ab
     else
      (case ab_by_id ab eid of
        None \<Rightarrow> None
      | Some entry \<Rightarrow>
          if nsi_new_refs entry \<noteq> {} \<or> nsi_tried_ref entry \<noteq> None then None
          else
           (case swap_randomly_ordered_ids (nsi_random_pos entry) (of_nat (length (ab_randomly_ordered_ids ab)) - 1) ab of
             None \<Rightarrow> None
           | Some ab \<Rightarrow>
               if ab_randomly_ordered_ids ab = [] \<or> last (ab_randomly_ordered_ids ab) \<noteq> eid then None
               else Some (ab\<lparr>ab_randomly_ordered_ids := butlast (ab_randomly_ordered_ids ab),
                   ab_new_entries_size := ab_new_entries_size ab - 1, ab_by_id := (ab_by_id ab)(eid := None),
                   ab_by_endpoint := (ab_by_endpoint ab)(info_endpoint entry := None)\<rparr>))))"

definition clear_new_slot :: "slot_address \<Rightarrow> bool \<Rightarrow> address_book \<Rightarrow> address_book option" where
  "clear_new_slot slot erase_unreferenced_entry ab =
    (if \<not> (unat (slot_x slot) < kNewBucketsCount \<and> unat (slot_y slot) < kBucketSize) then None
     else
      (case ab_new_buckets ab (slot_xy slot) of
        None \<Rightarrow> Some ab
      | Some eid \<Rightarrow>
          (case lookup_entry_by_id eid ab of
            None \<Rightarrow> None
          | Some (service_info, entry_id) \<Rightarrow>
              if entry_id = 0 \<or> slot_xy slot \<notin> nsi_new_refs service_info then None
              else
               let ab = modify_entry entry_id (nsi_new_refs_update (\<lambda>r. r - {slot_xy slot})) ab;
                   keep = (nsi_new_refs service_info - {slot_xy slot} \<noteq> {} \<or> nsi_tried_ref service_info \<noteq> None)
               in case (if erase_unreferenced_entry \<and> \<not> keep then erase_new_entry eid ab else Some ab) of
                    None \<Rightarrow> None
                  | Some ab \<Rightarrow> Some (ab\<lparr>ab_new_buckets := (ab_new_buckets ab)(slot_xy slot := None)\<rparr>))))"

text \<open>Inserting a reference to a new bucket: both insertions must take place.\<close>

definition add_new_ref :: "entry_id \<Rightarrow> 32 word \<Rightarrow> address_book \<Rightarrow> address_book option" where
  "add_new_ref eid a ab =
    (case ab_by_id ab eid of
      None \<Rightarrow> None
    | Some i \<Rightarrow>
        if a \<in> nsi_new_refs i \<or> ab_new_buckets ab a \<noteq> None then None
        else Some ((modify_entry eid (nsi_new_refs_update (insert a)) ab)\<lparr>ab_new_buckets := (ab_new_buckets ab)(a \<mapsto> eid)\<rparr>))"

section \<open>Tried entries\<close>

text \<open>The loop that erases the references of an entry from the new buckets.\<close>

definition clear_new_refs :: "entry_id \<Rightarrow> node_service_info \<Rightarrow> address_book \<Rightarrow> address_book" where
  "clear_new_refs eid i ab =
    (modify_entry eid (nsi_new_refs_update (\<lambda>_. {})) ab)
      \<lparr>ab_new_entries_size := ab_new_entries_size ab - (if nsi_new_refs i \<noteq> {} then 1 else 0),
       ab_new_buckets := (\<lambda>a. if a \<in> nsi_new_refs i then None else ab_new_buckets ab a)\<rparr>"

text \<open>The eviction of the entry that holds a tried slot, which goes back to a new slot.\<close>

definition evict_tried :: "ab_env \<Rightarrow> 32 word \<Rightarrow> entry_id \<Rightarrow> address_book \<Rightarrow> address_book option" where
  "evict_tried env tried_slot evict_id ab =
    (case lookup_entry_by_id evict_id ab of
      None \<Rightarrow> None
    | Some (evicted, evict_entry_id) \<Rightarrow>
        if nsi_tried_ref evicted \<noteq> Some tried_slot \<or> nsi_new_refs evicted \<noteq> {} then None
        else
          do {
            let ab = (modify_entry evict_entry_id (nsi_tried_ref_update (\<lambda>_. None)) ab)
              \<lparr>ab_tried_buckets := (ab_tried_buckets ab)(tried_slot := None),
               ab_tried_entries_size := ab_tried_entries_size ab - 1\<rparr>;
            slot \<leftarrow> get_new_slot env ab evicted (nsi_origin evicted);
            ab \<leftarrow> clear_new_slot slot True ab;
            ab \<leftarrow> add_new_ref evict_entry_id (slot_xy slot) ab;
            Some (ab\<lparr>ab_new_entries_size := ab_new_entries_size ab + 1\<rparr>)
          })"

definition make_entry_tried :: "ab_env \<Rightarrow> entry_id \<Rightarrow> address_book \<Rightarrow> address_book option" where
  "make_entry_tried env entry_id ab =
    (case lookup_entry_by_id entry_id ab of
      None \<Rightarrow> None
    | Some (service_info, _) \<Rightarrow>
        if nsi_tried_ref service_info \<noteq> None then Some ab
        else
          do {
            let ab = clear_new_refs entry_id service_info ab;
            slot \<leftarrow> get_tried_slot env ab service_info;
            ab \<leftarrow> (case ab_tried_buckets ab (slot_xy slot) of None \<Rightarrow> Some ab | Some evict_id \<Rightarrow> evict_tried env (slot_xy slot) evict_id ab);
            assert_that (ab_tried_buckets ab (slot_xy slot) = None);
            Some ((modify_entry entry_id (nsi_tried_ref_update (\<lambda>_. Some (slot_xy slot))) ab)
              \<lparr>ab_tried_buckets := (ab_tried_buckets ab)(slot_xy slot \<mapsto> entry_id),
               ab_tried_entries_size := ab_tried_entries_size ab + 1\<rparr>)
          })"

definition ensure_tried :: "ab_env \<Rightarrow> entry_id \<Rightarrow> node_service_info \<Rightarrow> address_book \<Rightarrow> (bool \<times> address_book) option" where
  "ensure_tried env eid i ab =
    (if nsi_tried_ref i = None then map_option (Pair True) (make_entry_tried env eid ab) else Some (True, ab))"

definition set_good :: "ab_env \<Rightarrow> ip_endpoint \<Rightarrow> version_payload \<Rightarrow> int \<Rightarrow> address_book \<Rightarrow> (bool \<times> address_book) option" where
  "set_good env remote version_info time ab =
    (case lookup_entry_by_endpoint remote ab of
      None \<Rightarrow> Some (False, ab)
    | Some (i, eid) \<Rightarrow>
        ensure_tried env eid i (modify_entry eid (\<lambda>i. i\<lparr>nsi_user_agent := vp_user_agent version_info,
          nsi_service := (nsi_service i)\<lparr>ns_services := vp_services version_info, ns_time := time\<rparr>,
          nsi_last_connection_attempt := time, nsi_last_connection_success := time, nsi_connection_attempts := 0\<rparr>) ab))"

definition set_failed :: "ab_env \<Rightarrow> ip_endpoint \<Rightarrow> int \<Rightarrow> address_book \<Rightarrow> (bool \<times> address_book) option" where
  "set_failed env remote time ab =
    (case lookup_entry_by_endpoint remote ab of
      None \<Rightarrow> Some (False, ab)
    | Some (i, eid) \<Rightarrow>
        ensure_tried env eid i (modify_entry eid (\<lambda>i. i\<lparr>nsi_last_connection_attempt := time,
          nsi_connection_attempts := nsi_connection_attempts i + 1\<rparr>) ab))"

definition set_tried :: "ab_env \<Rightarrow> ip_endpoint \<Rightarrow> int \<Rightarrow> address_book \<Rightarrow> (bool \<times> address_book) option" where
  "set_tried env remote time ab =
    (case lookup_entry_by_endpoint remote ab of
      None \<Rightarrow> Some (False, ab)
    | Some (i, eid) \<Rightarrow>
        ensure_tried env eid i (modify_entry eid (\<lambda>i. i\<lparr>nsi_last_connection_attempt := time\<rparr>) ab))"

section \<open>Insertion\<close>

definition kHour :: int where "kHour = 3600"

text \<open>The insertion in the container: nothing is inserted next to an equal id or endpoint.\<close>

definition index_insert :: "entry_id \<Rightarrow> ip_endpoint \<Rightarrow> node_service_info \<Rightarrow> address_book \<Rightarrow> bool \<times> address_book" where
  "index_insert eid e i ab =
    (if ab_by_id ab eid \<noteq> None \<or> ab_by_endpoint ab e \<noteq> None then (False, ab)
     else (True, ab\<lparr>ab_by_id := (ab_by_id ab)(eid \<mapsto> i), ab_by_endpoint := (ab_by_endpoint ab)(e \<mapsto> eid)\<rparr>))"

definition insert_entry ::
  "ab_env \<Rightarrow> node_service \<Rightarrow> ip_address \<Rightarrow> int \<Rightarrow> address_book \<Rightarrow> (bool \<times> entry_id \<times> address_book) option" where
  "insert_entry env service source time_penalty ab =
    do {
      let new_id = ab_last_used_id ab;
      let ab = ab\<lparr>ab_last_used_id := new_id + 1\<rparr>;
      let i = node_service_info_new (service\<lparr>ns_time := ns_time service - time_penalty\<rparr>) source;
      slot \<leftarrow> get_new_slot env ab i source;
      ab \<leftarrow> clear_new_slot slot True ab;
      assert_that (ab_new_buckets ab (slot_xy slot) = None);
      let ab = ab\<lparr>ab_new_buckets := (ab_new_buckets ab)(slot_xy slot \<mapsto> new_id)\<rparr>;
      let i = i\<lparr>nsi_new_refs := {slot_xy slot}, nsi_random_pos := of_nat (length (ab_randomly_ordered_ids ab))\<rparr>;
      let ab = ab\<lparr>ab_randomly_ordered_ids := ab_randomly_ordered_ids ab @ [new_id]\<rparr>;
      let (inserted, ab) = index_insert new_id (ns_endpoint service) i ab;
      Some (inserted, new_id, ab\<lparr>ab_new_entries_size := ab_new_entries_size ab + 1\<rparr>)
    }"

text \<open>The time and the services of an entry that is advertised again.\<close>

definition refresh_entry :: "int \<Rightarrow> node_service \<Rightarrow> int \<Rightarrow> node_service_info \<Rightarrow> node_service_info" where
  "refresh_entry now service time_penalty i =
    (let update_interval = (if now - ns_time service < 24 * kHour then kHour else 24 * kHour);
         t = (if ns_time (nsi_service i) < ns_time service - update_interval - time_penalty
              then max kTimeInit (ns_time service - time_penalty) else ns_time (nsi_service i))
     in i\<lparr>nsi_service := (nsi_service i)\<lparr>ns_time := t, ns_services := ns_services (nsi_service i) OR ns_services service\<rparr>\<rparr>)"

definition update_entry ::
  "ab_env \<Rightarrow> int \<Rightarrow> 32 word \<Rightarrow> entry_id \<Rightarrow> node_service \<Rightarrow> ip_address \<Rightarrow> int \<Rightarrow> address_book \<Rightarrow> address_book option" where
  "update_entry env now draw entry_id service source time_penalty ab =
    (let ab = modify_entry entry_id (refresh_entry now service time_penalty) ab
     in case ab_by_id ab entry_id of
       None \<Rightarrow> None
     | Some entry \<Rightarrow>
        if (nsi_new_refs entry \<noteq> {}) = (nsi_tried_ref entry \<noteq> None) then None
        else if ns_time (nsi_service entry) < ns_time service \<or> nsi_tried_ref entry \<noteq> None \<or>
          card (nsi_new_refs entry) = kMaxNewBucketReferences then Some ab
        else if draw \<noteq> 0 then Some ab
        else
          do {
            slot \<leftarrow> get_new_slot env ab entry source;
            let a = slot_xy slot;
            if a \<in> nsi_new_refs entry then (if ab_new_buckets ab a \<noteq> None then Some ab else None)
            else
              do {
                ab \<leftarrow> (case ab_new_buckets ab a of
                    None \<Rightarrow> Some ab
                  | Some other \<Rightarrow> if other = entry_id then None else clear_new_slot slot True ab);
                ab \<leftarrow> add_new_ref entry_id a ab;
                Some (if map_option (\<lambda>e. card (nsi_new_refs e)) (ab_by_id ab entry_id) = Some 1 then ab\<lparr>ab_new_entries_size := ab_new_entries_size ab + 1\<rparr> else ab)
              }
          })"

definition insert_or_update_impl ::
  "ab_env \<Rightarrow> int \<Rightarrow> 32 word \<Rightarrow> node_service \<Rightarrow> ip_address \<Rightarrow> int \<Rightarrow> address_book \<Rightarrow> (bool \<times> address_book) option" where
  "insert_or_update_impl env now draw service source time_penalty ab =
    (let time_penalty = (if source = ep_address (ns_endpoint service) then 0 else time_penalty)
     in case lookup_entry_by_endpoint (ns_endpoint service) ab of
          Some (entry, entry_id) \<Rightarrow> map_option (Pair False) (update_entry env now draw entry_id service source time_penalty ab)
        | None \<Rightarrow>
            do {
              (inserted, entry_id, ab) \<leftarrow> insert_entry env service source time_penalty ab;
              let t = max kTimeInit (ns_time service - time_penalty);
              Some (True, if inserted then modify_entry entry_id (nsi_service_update (ns_time_update (\<lambda>_. t))) ab else ab)
            })"

definition insert_or_update ::
  "ab_env \<Rightarrow> int \<Rightarrow> 32 word \<Rightarrow> node_service \<Rightarrow> ip_address \<Rightarrow> int \<Rightarrow> address_book \<Rightarrow> (bool \<times> address_book) option" where
  "insert_or_update env now draw service source time_penalty ab =
    insert_or_update_impl env now draw service source time_penalty ab"

definition kNodeNetwork :: "64 word" where "kNodeNetwork = 1"

text \<open>The time of a service that is advertised from too far in the past or in the future.\<close>

definition adjust_martian_date :: "int \<Rightarrow> node_service \<Rightarrow> node_service" where
  "adjust_martian_date now s = (if ns_time s < kTimeInit \<or> ns_time s > now + 10 * kMinute then s\<lparr>ns_time := now - 5 * kDay\<rparr> else s)"

text \<open>The loop over a vector of services: \<open>kept\<close> are the services that stay in the vector, and the draw of the
  n-th service is \<open>draws n\<close>.\<close>

fun insert_services ::
  "ab_env \<Rightarrow> int \<Rightarrow> (nat \<Rightarrow> 32 word) \<Rightarrow> ip_address \<Rightarrow> int \<Rightarrow> node_service list \<Rightarrow> ip_endpoint set \<Rightarrow> node_service list \<Rightarrow> address_book \<Rightarrow>
    (node_service list \<times> address_book) option" where
  "insert_services env now draws source time_penalty [] unique_endpoints kept ab = Some (kept, ab)"
| "insert_services env now draws source time_penalty (s # services) unique_endpoints kept ab =
    (if ns_services s AND kNodeNetwork = 0
     then insert_services env now (draws \<circ> Suc) source time_penalty services unique_endpoints kept ab
     else if ns_endpoint s \<in> unique_endpoints
     then insert_services env now (draws \<circ> Suc) source time_penalty services unique_endpoints kept ab
     else
      let s = adjust_martian_date now s
      in case insert_or_update_impl env now (draws 0) s source time_penalty ab of
           None \<Rightarrow> None
         | Some (added, ab) \<Rightarrow>
             insert_services env now (draws \<circ> Suc) source time_penalty services (insert (ns_endpoint s) unique_endpoints)
               (if added then kept @ [s] else kept) ab)"

definition insert_or_update_services ::
  "ab_env \<Rightarrow> int \<Rightarrow> (nat \<Rightarrow> 32 word) \<Rightarrow> node_service list \<Rightarrow> ip_address \<Rightarrow> int \<Rightarrow> address_book \<Rightarrow>
    (bool \<times> node_service list \<times> address_book) option" where
  "insert_or_update_services env now draws services source time_penalty ab =
    map_option (\<lambda>(kept, ab). (kept \<noteq> [], kept, ab)) (insert_services env now draws source time_penalty services {} [] ab)"

section \<open>Random selection\<close>

text \<open>The draw of the i-th iteration is a number of the range \<open>[0, size - i - 1]\<close>.\<close>

fun random_services_loop ::
  "int \<Rightarrow> (nat \<Rightarrow> nat) \<Rightarrow> nat \<Rightarrow> ip_address_type option \<Rightarrow> nat list \<Rightarrow> ip_endpoint set \<Rightarrow> node_service list \<Rightarrow> address_book \<Rightarrow>
    (node_service list \<times> address_book) option" where
  "random_services_loop now draws count type [] selected ret ab = Some (ret, ab)"
| "random_services_loop now draws count type (i # is) selected ret ab =
    (if length ret \<ge> count then Some (ret, ab)
     else
      (case swap_randomly_ordered_ids (of_nat i) (of_nat (draws i + i)) ab of
        None \<Rightarrow> None
      | Some ab \<Rightarrow>
          (case ab_by_id ab (ab_randomly_ordered_ids ab ! i) of
            None \<Rightarrow> None
          | Some info \<Rightarrow>
              if (type \<noteq> None \<and> Some (ip_get_type (ep_address (info_endpoint info))) \<noteq> type) \<or> is_bad now info \<or>
                info_endpoint info \<in> selected
              then random_services_loop now draws count type is selected ret ab
              else random_services_loop now draws count type is (insert (info_endpoint info) selected)
                (ret @ [nsi_service info]) ab)))"

definition services_count :: "nat \<Rightarrow> nat \<Rightarrow> nat \<Rightarrow> nat" where
  "services_count n max_count max_percentage =
    (let count = (if max_percentage > 0 then n * max_percentage div 100 else n)
     in if max_count > 0 then min count max_count else count)"

definition get_random_services ::
  "int \<Rightarrow> (nat \<Rightarrow> nat) \<Rightarrow> nat \<Rightarrow> nat \<Rightarrow> ip_address_type option \<Rightarrow> address_book \<Rightarrow> (node_service list \<times> address_book) option" where
  "get_random_services now draws max_count max_percentage type ab =
    (let n = length (ab_randomly_ordered_ids ab)
     in if n = 0 then Some ([], ab)
        else random_services_loop now draws (services_count n max_count max_percentage) type [0..<n] {} [] ab)"

text \<open>The items of a bucket in the order of their addresses.\<close>

definition bucket_ids :: "(32 word \<rightharpoonup> entry_id) \<Rightarrow> entry_id list" where
  "bucket_ids b = map (\<lambda>a. the (b a)) (sorted_list_of_set (dom b))"

text \<open>One attempt draws an index of the bucket and 30 bits; a \<open>double\<close> is the rational number it approximates.\<close>

record selection_draws =
  draw_from_tried :: bool
  draw_index :: "nat \<Rightarrow> nat"
  draw_bits :: "nat \<Rightarrow> nat"

definition kSelectAttempts :: nat where "kSelectAttempts = 50000"

function (sequential) select_loop ::
  "int \<Rightarrow> selection_draws \<Rightarrow> entry_id list \<Rightarrow> nat \<Rightarrow> ip_address_type option \<Rightarrow> nat \<Rightarrow> rat \<Rightarrow> address_book \<Rightarrow>
    ((ip_endpoint \<times> int) option \<times> address_book) option" where
  "select_loop now draws bucket items_in_set type attempt chance_factor ab =
    (if attempt \<ge> kSelectAttempts then Some (None, ab)
     else
      (case ab_by_id ab (bucket ! draw_index draws attempt) of
        None \<Rightarrow> None
      | Some info \<Rightarrow>
          if type \<noteq> None \<and> Some (ip_get_type (ep_address (info_endpoint info))) \<noteq> type
          then select_loop now draws bucket items_in_set type (attempt + 1) chance_factor ab
          else if int (draw_bits draws attempt) < \<lfloor>chance_factor * get_chance now info * 2 ^ 30\<rfloor>
          then
            (let (inserted, recent) = lru_insert (info_endpoint info) (ab_recently_selected ab);
                 ab = ab\<lparr>ab_recently_selected := recent\<rparr>
             in if \<not> inserted \<and> items_in_set > lru_size recent
                then select_loop now draws bucket items_in_set type (attempt + 1) chance_factor ab
                else Some (Some (info_endpoint info, ns_time (nsi_service info)), ab))
          else select_loop now draws bucket items_in_set type (attempt + 1) (chance_factor * (12 / 10)) ab))"
  by pat_completeness auto
termination
  by (relation "measure (\<lambda>(_, _, _, _, _, attempt, _, _). kSelectAttempts - attempt)") auto

definition select_from_tried :: "selection_draws \<Rightarrow> bool \<Rightarrow> address_book \<Rightarrow> bool" where
  "select_from_tried draws new_only ab =
    (if new_only \<or> ab_tried_entries_size ab = 0 then False
     else if ab_new_entries_size ab = 0 then True else draw_from_tried draws)"

definition select_bucket :: "selection_draws \<Rightarrow> bool \<Rightarrow> address_book \<Rightarrow> 32 word \<rightharpoonup> entry_id" where
  "select_bucket draws new_only ab = (if select_from_tried draws new_only ab then ab_tried_buckets ab else ab_new_buckets ab)"

definition select_random ::
  "int \<Rightarrow> selection_draws \<Rightarrow> bool \<Rightarrow> ip_address_type option \<Rightarrow> address_book \<Rightarrow> ((ip_endpoint \<times> int) option \<times> address_book) option" where
  "select_random now draws new_only type ab =
    (if ab_randomly_ordered_ids ab = [] \<or> (new_only \<and> ab_new_entries_size ab = 0) then Some (None, ab)
     else
      let items_in_set = unat (if select_from_tried draws new_only ab then ab_tried_entries_size ab else ab_new_entries_size ab)
      in select_loop now draws (bucket_ids (select_bucket draws new_only ab)) items_in_set type 0 1 ab)"

declare select_loop.simps [simp del]

end
