(* ===== verification/Address_Book_Inv.thy ===== *)
theory Address_Book_Inv
  imports Address_Book
begin

text \<open>
  The invariant of the address book, and that every operation keeps it and fails no assertion: the buckets, the two
  indexes, the counters and the randomly ordered ids agree with each other, every entry is in new slots or in one tried
  slot, and the number of references and of slots is bounded. Each operation is a sequence of small steps on the entries
  and the buckets; there is one lemma for each step.
\<close>

section \<open>Invariant\<close>

text \<open>What the buckets and the indexes depend on: the references, the endpoint and the origin of every entry.\<close>

record entry_core =
  ec_new :: "32 word set"
  ec_tried :: "32 word option"
  ec_endpoint :: ip_endpoint
  ec_origin :: ip_address

definition core_of :: "node_service_info \<Rightarrow> entry_core" where
  "core_of i = \<lparr>ec_new = nsi_new_refs i, ec_tried = nsi_tried_ref i, ec_endpoint = info_endpoint i, ec_origin = nsi_origin i\<rparr>"

type_synonym cores = "entry_id \<rightharpoonup> entry_core"

definition cores_of :: "address_book \<Rightarrow> cores" where
  "cores_of ab eid = map_option core_of (ab_by_id ab eid)"

definition positions_of :: "address_book \<Rightarrow> entry_id \<rightharpoonup> 32 word" where
  "positions_of ab eid = map_option nsi_random_pos (ab_by_id ab eid)"

definition valid_slot :: "nat \<Rightarrow> 32 word \<Rightarrow> bool" where
  "valid_slot n a \<longleftrightarrow> unat a div 2 ^ 16 < n \<and> unat a mod 2 ^ 16 < kBucketSize"

text \<open>A slot holds an entry exactly when the entry refers to the slot. An entry is in new slots or in a tried slot, never
  in both; \<open>L\<close> are the entries that are in none, while an operation moves them.\<close>

definition buckets_ok :: "entry_id set \<Rightarrow> cores \<Rightarrow> (32 word \<rightharpoonup> entry_id) \<Rightarrow> (32 word \<rightharpoonup> entry_id) \<Rightarrow> bool" where
  "buckets_ok L C nb tb \<longleftrightarrow>
    (\<forall>a eid. nb a = Some eid \<longleftrightarrow> (\<exists>c. C eid = Some c \<and> a \<in> ec_new c)) \<and>
    (\<forall>a eid. tb a = Some eid \<longleftrightarrow> (\<exists>c. C eid = Some c \<and> ec_tried c = Some a)) \<and>
    (\<forall>eid c. C eid = Some c \<longrightarrow> (ec_new c = {} \<or> ec_tried c = None) \<and>
      (eid \<in> L \<longleftrightarrow> ec_new c = {} \<and> ec_tried c = None) \<and> finite (ec_new c) \<and> card (ec_new c) \<le> kMaxNewBucketReferences) \<and>
    (\<forall>a \<in> dom nb. valid_slot kNewBucketsCount a) \<and> (\<forall>a \<in> dom tb. valid_slot kTriedBucketsCount a)"

definition new_ids :: "cores \<Rightarrow> entry_id set" where
  "new_ids C = {eid. \<exists>c. C eid = Some c \<and> ec_new c \<noteq> {}}"

definition tried_ids :: "cores \<Rightarrow> entry_id set" where
  "tried_ids C = {eid. \<exists>c. C eid = Some c \<and> ec_tried c \<noteq> None}"

definition sizes_ok :: "cores \<Rightarrow> 32 word \<Rightarrow> 32 word \<Rightarrow> bool" where
  "sizes_ok C ns ts \<longleftrightarrow> ns = of_nat (card (new_ids C)) \<and> ts = of_nat (card (tried_ids C))"

definition index_ok :: "cores \<Rightarrow> (ip_endpoint \<rightharpoonup> entry_id) \<Rightarrow> bool" where
  "index_ok C be \<longleftrightarrow> (\<forall>e eid. be e = Some eid \<longleftrightarrow> (\<exists>c. C eid = Some c \<and> ec_endpoint c = e))"

definition order_ok :: "entry_id list \<Rightarrow> (entry_id \<rightharpoonup> 32 word) \<Rightarrow> bool" where
  "order_ok ids P \<longleftrightarrow> distinct ids \<and> set ids = dom P \<and> 0 \<notin> dom P \<and>
    (\<forall>eid pos. P eid = Some pos \<longrightarrow> unat pos < length ids \<and> ids ! unat pos = eid)"

definition routable_core :: "ab_env \<Rightarrow> entry_core \<Rightarrow> bool" where
  "routable_core env c \<longleftrightarrow> ip_is_routable (env_asio env) (ep_address (ec_endpoint c)) \<and> ip_is_routable (env_asio env) (ec_origin c)"

definition book_inv_moving :: "ab_env \<Rightarrow> entry_id set \<Rightarrow> address_book \<Rightarrow> bool" where
  "book_inv_moving env L ab \<longleftrightarrow>
    buckets_ok L (cores_of ab) (ab_new_buckets ab) (ab_tried_buckets ab) \<and>
    sizes_ok (cores_of ab) (ab_new_entries_size ab) (ab_tried_entries_size ab) \<and>
    index_ok (cores_of ab) (ab_by_endpoint ab) \<and> order_ok (ab_randomly_ordered_ids ab) (positions_of ab) \<and>
    (\<forall>eid c. cores_of ab eid = Some c \<longrightarrow> routable_core env c \<and> eid < ab_last_used_id ab) \<and>
    0 < ab_last_used_id ab \<and> length (ab_key ab) = 16"

definition book_inv :: "ab_env \<Rightarrow> address_book \<Rightarrow> bool" where
  "book_inv env ab \<longleftrightarrow> book_inv_moving env {} ab"

section \<open>The steps on cores\<close>

lemma new_ids_upd:
  "new_ids (C(eid := x)) = (case x of Some c \<Rightarrow> if ec_new c \<noteq> {} then insert eid (new_ids C) else new_ids C - {eid} | None \<Rightarrow> new_ids C - {eid})"
  by (auto simp: new_ids_def split: option.splits if_splits)

lemma tried_ids_upd:
  "tried_ids (C(eid := x)) = (case x of Some c \<Rightarrow> if ec_tried c \<noteq> None then insert eid (tried_ids C) else tried_ids C - {eid} | None \<Rightarrow> tried_ids C - {eid})"
  by (auto simp: tried_ids_def split: option.splits if_splits)

lemma in_ids [simp]:
  "C eid = Some c \<Longrightarrow> eid \<in> new_ids C \<longleftrightarrow> ec_new c \<noteq> {}" "C eid = Some c \<Longrightarrow> eid \<in> tried_ids C \<longleftrightarrow> ec_tried c \<noteq> None"
  "C eid = None \<Longrightarrow> eid \<notin> new_ids C" "C eid = None \<Longrightarrow> eid \<notin> tried_ids C"
  by (auto simp: new_ids_def tried_ids_def)

lemma of_nat_card_Diff:
  fixes S :: "entry_id set"
  assumes "x \<in> S"
  shows "(of_nat (card (S - {x})) :: 32 word) = of_nat (card S) - 1"
proof -
  have "card S = Suc (card (S - {x}))"
    by (rule card.remove) (simp_all add: assms)
  then have "(of_nat (card S) :: 32 word) = 1 + of_nat (card (S - {x}))"
    by (simp only: of_nat_Suc)
  then show ?thesis
    by (simp only: add_diff_cancel_left')
qed

lemma of_nat_card_insert:
  fixes S :: "entry_id set"
  shows "x \<notin> S \<Longrightarrow> (of_nat (card (insert x S)) :: 32 word) = of_nat (card S) + 1"
  by simp

lemma buckets_okD:
  assumes "buckets_ok L C nb tb"
  shows "nb a = Some eid \<longleftrightarrow> (\<exists>c. C eid = Some c \<and> a \<in> ec_new c)"
    "tb a = Some eid \<longleftrightarrow> (\<exists>c. C eid = Some c \<and> ec_tried c = Some a)"
    "C eid = Some c \<Longrightarrow> ec_new c = {} \<or> ec_tried c = None"
    "C eid = Some c \<Longrightarrow> eid \<in> L \<longleftrightarrow> ec_new c = {} \<and> ec_tried c = None"
    "C eid = Some c \<Longrightarrow> finite (ec_new c)" "C eid = Some c \<Longrightarrow> card (ec_new c) \<le> kMaxNewBucketReferences"
    "nb a = Some eid \<Longrightarrow> valid_slot kNewBucketsCount a" "tb a = Some eid \<Longrightarrow> valid_slot kTriedBucketsCount a"
proof -
  note b = assms [unfolded buckets_ok_def]
  note b3 = conjunct1 [OF conjunct2 [OF conjunct2 [OF b]], rule_format]
  note v = conjunct2 [OF conjunct2 [OF conjunct2 [OF b]]]
  show "nb a = Some eid \<longleftrightarrow> (\<exists>c. C eid = Some c \<and> a \<in> ec_new c)"
    by (rule conjunct1 [OF b, rule_format])
  show "tb a = Some eid \<longleftrightarrow> (\<exists>c. C eid = Some c \<and> ec_tried c = Some a)"
    by (rule conjunct1 [OF conjunct2 [OF b], rule_format])
  show "C eid = Some c \<Longrightarrow> ec_new c = {} \<or> ec_tried c = None"
    "C eid = Some c \<Longrightarrow> eid \<in> L \<longleftrightarrow> ec_new c = {} \<and> ec_tried c = None"
    "C eid = Some c \<Longrightarrow> finite (ec_new c)" "C eid = Some c \<Longrightarrow> card (ec_new c) \<le> kMaxNewBucketReferences"
    using b3 [of eid c] by simp_all
  show "nb a = Some eid \<Longrightarrow> valid_slot kNewBucketsCount a" "tb a = Some eid \<Longrightarrow> valid_slot kTriedBucketsCount a"
    using v by (simp_all add: domI)
qed

lemma buckets_okI:
  assumes "\<And>a eid. nb a = Some eid \<longleftrightarrow> (\<exists>c. C eid = Some c \<and> a \<in> ec_new c)"
    "\<And>a eid. tb a = Some eid \<longleftrightarrow> (\<exists>c. C eid = Some c \<and> ec_tried c = Some a)"
    "\<And>eid c. C eid = Some c \<Longrightarrow> (ec_new c = {} \<or> ec_tried c = None) \<and>
      (eid \<in> L \<longleftrightarrow> ec_new c = {} \<and> ec_tried c = None) \<and> finite (ec_new c) \<and> card (ec_new c) \<le> kMaxNewBucketReferences"
    "\<And>a eid. nb a = Some eid \<Longrightarrow> valid_slot kNewBucketsCount a" "\<And>a eid. tb a = Some eid \<Longrightarrow> valid_slot kTriedBucketsCount a"
  shows "buckets_ok L C nb tb"
  unfolding buckets_ok_def
proof (intro conjI allI ballI)
  fix a
  assume "a \<in> dom nb"
  then show "valid_slot kNewBucketsCount a" using assms(4) [of a] by (simp only: domIff not_None_eq) blast
next
  fix a
  assume "a \<in> dom tb"
  then show "valid_slot kTriedBucketsCount a" using assms(5) [of a] by (simp only: domIff not_None_eq) blast
next
  fix eid c
  show "C eid = Some c \<longrightarrow> (ec_new c = {} \<or> ec_tried c = None) \<and>
      (eid \<in> L \<longleftrightarrow> ec_new c = {} \<and> ec_tried c = None) \<and> finite (ec_new c) \<and> card (ec_new c) \<le> kMaxNewBucketReferences"
    using assms(3) [of eid c] by (rule impI)
qed (rule assms(1), rule assms(2))

text \<open>A step changes one entry and the slots that hold it.\<close>

lemma buckets_upd:
  assumes b: "buckets_ok L C nb tb"
    and "\<And>a e. e \<noteq> eid \<Longrightarrow> nb' a = Some e \<longleftrightarrow> nb a = Some e" "\<And>a. nb' a = Some eid \<longleftrightarrow> (\<exists>c. x = Some c \<and> a \<in> ec_new c)"
    and "\<And>a e. e \<noteq> eid \<Longrightarrow> tb' a = Some e \<longleftrightarrow> tb a = Some e" "\<And>a. tb' a = Some eid \<longleftrightarrow> (\<exists>c. x = Some c \<and> ec_tried c = Some a)"
    and "\<And>c. x = Some c \<Longrightarrow> (ec_new c = {} \<or> ec_tried c = None) \<and>
      (eid \<in> L' \<longleftrightarrow> ec_new c = {} \<and> ec_tried c = None) \<and> finite (ec_new c) \<and> card (ec_new c) \<le> kMaxNewBucketReferences"
    and "\<And>e. e \<noteq> eid \<Longrightarrow> e \<in> L' \<longleftrightarrow> e \<in> L"
    and "\<And>a. nb' a = Some eid \<Longrightarrow> valid_slot kNewBucketsCount a" "\<And>a. tb' a = Some eid \<Longrightarrow> valid_slot kTriedBucketsCount a"
  shows "buckets_ok L' (C(eid := x)) nb' tb'"
proof (rule buckets_okI)
  fix a e
  show "nb' a = Some e \<longleftrightarrow> (\<exists>c. (C(eid := x)) e = Some c \<and> a \<in> ec_new c)"
    by (cases "e = eid") (simp_all add: assms(2,3) buckets_okD(1) [OF b])
  show "tb' a = Some e \<longleftrightarrow> (\<exists>c. (C(eid := x)) e = Some c \<and> ec_tried c = Some a)"
    by (cases "e = eid") (simp_all add: assms(4,5) buckets_okD(2) [OF b])
  show "nb' a = Some e \<Longrightarrow> valid_slot kNewBucketsCount a"
    using assms(2) [of e a] assms(8) [of a] buckets_okD(7) [OF b, of a e] by (cases "e = eid") simp_all
  show "tb' a = Some e \<Longrightarrow> valid_slot kTriedBucketsCount a"
    using assms(4) [of e a] assms(9) [of a] buckets_okD(8) [OF b, of a e] by (cases "e = eid") simp_all
next
  fix e c
  assume "(C(eid := x)) e = Some c"
  then show "(ec_new c = {} \<or> ec_tried c = None) \<and> (e \<in> L' \<longleftrightarrow> ec_new c = {} \<and> ec_tried c = None) \<and> finite (ec_new c) \<and>
      card (ec_new c) \<le> kMaxNewBucketReferences"
    using assms(6) [of c] assms(7) [of e] buckets_okD(3-6) [OF b, of e c] by (cases "e = eid") simp_all
qed

lemma bucket_slots:
  assumes "buckets_ok L C nb tb" "C eid = Some c"
  shows "a \<in> ec_new c \<Longrightarrow> nb a = Some eid" "ec_tried c = Some a \<Longrightarrow> tb a = Some eid"
    "nb a = Some eid \<Longrightarrow> a \<in> ec_new c" "tb a = Some eid \<Longrightarrow> ec_tried c = Some a"
    "a \<in> ec_new c \<Longrightarrow> valid_slot kNewBucketsCount a" "ec_tried c = Some a \<Longrightarrow> valid_slot kTriedBucketsCount a"
  using assms(2) buckets_okD(1,2,7,8) [OF assms(1), of a eid] by simp_all

lemma buckets_remove_ref:
  assumes b: "buckets_ok L C nb tb" and c: "C eid = Some c" "a \<in> ec_new c" "ec_new c - {a} \<noteq> {}"
  shows "buckets_ok L (C(eid \<mapsto> c\<lparr>ec_new := ec_new c - {a}\<rparr>)) (nb(a := None)) tb"
proof (rule buckets_upd [OF b])
  note sl = bucket_slots [OF b c(1)]
  have "card (ec_new c - {a}) \<le> kMaxNewBucketReferences"
    using buckets_okD(6) [OF b c(1)] by (meson card_Diff1_le order_trans)
  then show "(ec_new d = {} \<or> ec_tried d = None) \<and> (eid \<in> L \<longleftrightarrow> ec_new d = {} \<and> ec_tried d = None) \<and> finite (ec_new d) \<and>
      card (ec_new d) \<le> kMaxNewBucketReferences" if "Some (c\<lparr>ec_new := ec_new c - {a}\<rparr>) = Some d" for d
    using that c(2,3) buckets_okD(3-5) [OF b c(1)] by auto
  show "(nb(a := None)) x = Some e \<longleftrightarrow> nb x = Some e" if "e \<noteq> eid" for x e
    using sl(1) [OF c(2)] that by simp
  show "(nb(a := None)) x = Some eid \<longleftrightarrow> (\<exists>d. Some (c\<lparr>ec_new := ec_new c - {a}\<rparr>) = Some d \<and> x \<in> ec_new d)" for x
    using sl(1,3) [of x] by auto
  show "tb x = Some eid \<longleftrightarrow> (\<exists>d. Some (c\<lparr>ec_new := ec_new c - {a}\<rparr>) = Some d \<and> ec_tried d = Some x)" for x
    using sl(2,4) [of x] by auto
  show "(nb(a := None)) x = Some eid \<Longrightarrow> valid_slot kNewBucketsCount x" "tb x = Some eid \<Longrightarrow> valid_slot kTriedBucketsCount x" for x
    using buckets_okD(7,8) [OF b, of x eid] by (simp_all split: if_splits)
qed simp_all

lemma buckets_erase:
  assumes b: "buckets_ok L C nb tb" and c: "C eid = Some c" "ec_new c = {a}" "ec_tried c = None"
  shows "buckets_ok L (C(eid := None)) (nb(a := None)) tb"
proof (rule buckets_upd [OF b])
  note sl = bucket_slots [OF b c(1)]
  show "(nb(a := None)) x = Some e \<longleftrightarrow> nb x = Some e" if "e \<noteq> eid" for x e
    using sl(1) [of a] c(2) that by simp
  show "(nb(a := None)) x = Some eid \<longleftrightarrow> (\<exists>d. None = Some d \<and> x \<in> ec_new d)"
    "tb x = Some eid \<longleftrightarrow> (\<exists>d. None = Some d \<and> ec_tried d = Some x)"
    "(nb(a := None)) x = Some eid \<Longrightarrow> valid_slot kNewBucketsCount x" "tb x = Some eid \<Longrightarrow> valid_slot kTriedBucketsCount x" for x
    using sl(3,4) [of x] c(2,3) by (auto split: if_splits)
qed simp_all

lemma buckets_clear_refs:
  assumes b: "buckets_ok L C nb tb" and c: "C eid = Some c" "ec_tried c = None"
  shows "buckets_ok (insert eid L) (C(eid \<mapsto> c\<lparr>ec_new := {}\<rparr>)) (\<lambda>a. if a \<in> ec_new c then None else nb a) tb"
proof (rule buckets_upd [OF b])
  note sl = bucket_slots [OF b c(1)]
  show "(if x \<in> ec_new c then None else nb x) = Some e \<longleftrightarrow> nb x = Some e" if "e \<noteq> eid" for x e
    using sl(1) [of x] that by simp
  show "(if x \<in> ec_new c then None else nb x) = Some eid \<longleftrightarrow> (\<exists>d. Some (c\<lparr>ec_new := {}\<rparr>) = Some d \<and> x \<in> ec_new d)"
    "(if x \<in> ec_new c then None else nb x) = Some eid \<Longrightarrow> valid_slot kNewBucketsCount x"
    "tb x = Some eid \<longleftrightarrow> (\<exists>d. Some (c\<lparr>ec_new := {}\<rparr>) = Some d \<and> ec_tried d = Some x)"
    "tb x = Some eid \<Longrightarrow> valid_slot kTriedBucketsCount x" for x
    using sl(3,4) [of x] c(2) by (auto split: if_splits)
qed (use c(2) in auto)

lemma buckets_untry:
  assumes b: "buckets_ok L C nb tb" and c: "C eid = Some c" "ec_tried c = Some a" "ec_new c = {}"
  shows "buckets_ok (insert eid L) (C(eid \<mapsto> c\<lparr>ec_tried := None\<rparr>)) nb (tb(a := None))"
proof (rule buckets_upd [OF b])
  note sl = bucket_slots [OF b c(1)]
  show "(tb(a := None)) x = Some e \<longleftrightarrow> tb x = Some e" if "e \<noteq> eid" for x e
    using sl(2) [of a] c(2) that by simp
  show "(tb(a := None)) x = Some eid \<longleftrightarrow> (\<exists>d. Some (c\<lparr>ec_tried := None\<rparr>) = Some d \<and> ec_tried d = Some x)"
    "(tb(a := None)) x = Some eid \<Longrightarrow> valid_slot kTriedBucketsCount x"
    "nb x = Some eid \<longleftrightarrow> (\<exists>d. Some (c\<lparr>ec_tried := None\<rparr>) = Some d \<and> x \<in> ec_new d)"
    "nb x = Some eid \<Longrightarrow> valid_slot kNewBucketsCount x" for x
    using sl(3,4) [of x] c(2,3) by (auto split: if_splits)
qed (use c(3) in auto)

lemma buckets_add_ref:
  assumes b: "buckets_ok L C nb tb" and c: "C eid = Some c" "ec_tried c = None" "card (ec_new c) < kMaxNewBucketReferences"
    and a: "nb a = None" "valid_slot kNewBucketsCount a"
  shows "buckets_ok (L - {eid}) (C(eid \<mapsto> c\<lparr>ec_new := insert a (ec_new c)\<rparr>)) (nb(a \<mapsto> eid)) tb"
proof (rule buckets_upd [OF b])
  note sl = bucket_slots [OF b c(1)]
  show "(ec_new d = {} \<or> ec_tried d = None) \<and> (eid \<in> L - {eid} \<longleftrightarrow> ec_new d = {} \<and> ec_tried d = None) \<and> finite (ec_new d) \<and>
      card (ec_new d) \<le> kMaxNewBucketReferences" if "Some (c\<lparr>ec_new := insert a (ec_new c)\<rparr>) = Some d" for d
    using that c(2,3) buckets_okD(5) [OF b c(1)] by (auto simp: card_insert_if)
  show "(nb(a \<mapsto> eid)) x = Some e \<longleftrightarrow> nb x = Some e" if "e \<noteq> eid" for x e
    using a(1) that by simp
  show "(nb(a \<mapsto> eid)) x = Some eid \<longleftrightarrow> (\<exists>d. Some (c\<lparr>ec_new := insert a (ec_new c)\<rparr>) = Some d \<and> x \<in> ec_new d)"
    "(nb(a \<mapsto> eid)) x = Some eid \<Longrightarrow> valid_slot kNewBucketsCount x"
    "tb x = Some eid \<longleftrightarrow> (\<exists>d. Some (c\<lparr>ec_new := insert a (ec_new c)\<rparr>) = Some d \<and> ec_tried d = Some x)"
    "tb x = Some eid \<Longrightarrow> valid_slot kTriedBucketsCount x" for x
    using sl(1,3,4,5) [of x] a(2) c(2) by (auto split: if_splits)
qed simp_all

lemma buckets_add_tried:
  assumes b: "buckets_ok L C nb tb" and c: "C eid = Some c" "ec_new c = {}" "ec_tried c = None"
    and a: "tb a = None" "valid_slot kTriedBucketsCount a"
  shows "buckets_ok (L - {eid}) (C(eid \<mapsto> c\<lparr>ec_tried := Some a\<rparr>)) nb (tb(a \<mapsto> eid))"
proof (rule buckets_upd [OF b])
  note sl = bucket_slots [OF b c(1)]
  show "(tb(a \<mapsto> eid)) x = Some e \<longleftrightarrow> tb x = Some e" if "e \<noteq> eid" for x e
    using a(1) that by simp
  show "(tb(a \<mapsto> eid)) x = Some eid \<longleftrightarrow> (\<exists>d. Some (c\<lparr>ec_tried := Some a\<rparr>) = Some d \<and> ec_tried d = Some x)"
    "(tb(a \<mapsto> eid)) x = Some eid \<Longrightarrow> valid_slot kTriedBucketsCount x"
    "nb x = Some eid \<longleftrightarrow> (\<exists>d. Some (c\<lparr>ec_tried := Some a\<rparr>) = Some d \<and> x \<in> ec_new d)"
    "nb x = Some eid \<Longrightarrow> valid_slot kNewBucketsCount x" for x
    using sl(3,4) [of x] a(2) c(2,3) by (auto split: if_splits)
qed (use c(2) in auto)

lemma buckets_insert:
  assumes b: "buckets_ok L C nb tb" and c: "C eid = None" "eid \<notin> L" and a: "nb a = None" "valid_slot kNewBucketsCount a"
  shows "buckets_ok L (C(eid \<mapsto> \<lparr>ec_new = {a}, ec_tried = None, ec_endpoint = e, ec_origin = org\<rparr>)) (nb(a \<mapsto> eid)) tb"
proof (rule buckets_upd [OF b])
  have n: "nb x \<noteq> Some eid" "tb x \<noteq> Some eid" for x
    using buckets_okD(1,2) [OF b, of x eid] c(1) by simp_all
  show "tb x = Some eid \<longleftrightarrow> (\<exists>d. Some \<lparr>ec_new = {a}, ec_tried = None, ec_endpoint = e, ec_origin = org\<rparr> = Some d \<and> ec_tried d = Some x)"
    "tb x = Some eid \<Longrightarrow> valid_slot kTriedBucketsCount x" for x
    using n by auto
  show "(nb(a \<mapsto> eid)) x = Some eid \<longleftrightarrow> (\<exists>d. Some \<lparr>ec_new = {a}, ec_tried = None, ec_endpoint = e, ec_origin = org\<rparr> = Some d \<and> x \<in> ec_new d)"
    "(nb(a \<mapsto> eid)) x = Some eid \<Longrightarrow> valid_slot kNewBucketsCount x" for x
    using n a(2) by (auto split: if_splits)
qed (use c a in \<open>auto simp: kMaxNewBucketReferences_def split: if_splits\<close>)

section \<open>The order of the ids\<close>

definition same_frame :: "address_book \<Rightarrow> address_book \<Rightarrow> bool" where
  "same_frame ab ab' \<longleftrightarrow> ab_key ab' = ab_key ab \<and> ab_last_used_id ab' = ab_last_used_id ab \<and>
    ab_tried_entries_size ab' = ab_tried_entries_size ab \<and> ab_tried_buckets ab' = ab_tried_buckets ab \<and>
    ab_recently_selected ab' = ab_recently_selected ab"

lemma same_frame_refl [simp]: "same_frame ab ab"
  by (simp add: same_frame_def)

lemma same_frame_trans [trans]: "same_frame ab ab' \<Longrightarrow> same_frame ab' ab'' \<Longrightarrow> same_frame ab ab''"
  by (simp add: same_frame_def)

lemma order_length:
  assumes "order_ok ids P"
  shows "length ids < 2 ^ 32"
proof -
  have "length ids = card (set ids)"
    using assms distinct_card [of ids] by (simp add: order_ok_def)
  also have "\<dots> \<le> card (UNIV - {0 :: entry_id})"
    using assms by (intro card_mono) (auto simp: order_ok_def)
  also have "\<dots> < 2 ^ 32"
    by (simp add: card_Diff_singleton card_word)
  finally show ?thesis .
qed

lemma order_pos:
  assumes "order_ok ids P" "i < length ids"
  shows "P (ids ! i) = Some (of_nat i)"
proof -
  have "ids ! i \<in> dom P"
    using assms nth_mem [OF assms(2)] by (simp add: order_ok_def)
  then obtain pos where pos: "P (ids ! i) = Some pos"
    by blast
  then have "unat pos < length ids" "ids ! unat pos = ids ! i"
    using assms(1) by (auto simp: order_ok_def)
  then have "unat pos = i"
    using assms by (simp add: order_ok_def nth_eq_iff_index_eq)
  then have "pos = of_nat i"
    using order_length [OF assms(1)] assms(2) by (simp add: word_unat_eq_iff unat_of_nat)
  with pos show ?thesis by simp
qed

lemma order_swap:
  assumes o: "order_ok ids P" and i: "unat (i :: 32 word) < length ids" and j: "unat (j :: 32 word) < length ids" and ij: "i \<noteq> j"
  shows "order_ok (ids[unat i := ids ! unat j, unat j := ids ! unat i]) (P(ids ! unat i \<mapsto> j, ids ! unat j \<mapsto> i))"
proof -
  let ?ids = "ids[unat i := ids ! unat j, unat j := ids ! unat i]"
  have ne: "unat i \<noteq> unat j" using ij word_unat_eq_iff [of i j] by blast
  have d: "distinct ids" "set ids = dom P" "0 \<notin> dom P" using o by (simp_all add: order_ok_def)
  have m: "ids ! unat i \<in> dom P" "ids ! unat j \<in> dom P" using i j d(2) nth_mem by blast+
  have "distinct ?ids" "set ?ids = set ids"
    using d(1) i j by (simp_all add: distinct_swap set_swap)
  moreover have "unat pos < length ?ids \<and> ?ids ! unat pos = eid"
    if "(P(ids ! unat i \<mapsto> j, ids ! unat j \<mapsto> i)) eid = Some pos" for eid pos
  proof -
    consider "eid = ids ! unat j" "pos = i" | "eid = ids ! unat i" "pos = j" "eid \<noteq> ids ! unat j"
      | "eid \<noteq> ids ! unat i" "eid \<noteq> ids ! unat j" "P eid = Some pos"
      using \<open>_ = Some pos\<close> by (auto split: if_splits)
    then show ?thesis
    proof cases
      case 3
      then have "unat pos < length ids" "ids ! unat pos = eid"
        using o by (simp_all add: order_ok_def)
      moreover have "unat pos \<noteq> unat i" "unat pos \<noteq> unat j"
        using 3(1,2) calculation(2) by auto
      ultimately show ?thesis by simp
    qed (use i j ne in \<open>simp_all\<close>)
  qed
  moreover have "0 \<notin> dom (P(ids ! unat i \<mapsto> j, ids ! unat j \<mapsto> i))" "set ids = dom (P(ids ! unat i \<mapsto> j, ids ! unat j \<mapsto> i))"
    using d m by auto
  ultimately show ?thesis
    unfolding order_ok_def by simp
qed

lemma order_butlast:
  assumes o: "order_ok ids P" and n: "ids \<noteq> []" "last ids = eid"
  shows "order_ok (butlast ids) (P(eid := None))"
proof -
  have d: "distinct ids" "set ids = dom P" "0 \<notin> dom P" using o by (simp_all add: order_ok_def)
  have "set (butlast ids) = dom (P(eid := None))"
    using d(1,2) n by (auto simp: set_butlast_distinct)
  moreover have "unat pos < length (butlast ids) \<and> butlast ids ! unat pos = e" if "(P(eid := None)) e = Some pos" for e pos
  proof -
    from that have e: "e \<noteq> eid" "P e = Some pos" by (auto split: if_splits)
    then have p: "unat pos < length ids" "ids ! unat pos = e" using o by (simp_all add: order_ok_def)
    have "unat pos \<noteq> length ids - 1" using p(2) e(1) n by (auto simp: last_conv_nth)
    with p show ?thesis by (simp add: nth_butlast)
  qed
  ultimately show ?thesis
    using d by (auto simp: order_ok_def distinct_butlast)
qed

lemma order_append:
  assumes o: "order_ok ids P" and n: "eid \<notin> dom P" "eid \<noteq> 0"
  shows "order_ok (ids @ [eid]) (P(eid \<mapsto> of_nat (length ids)))"
proof -
  have l: "unat (of_nat (length ids) :: 32 word) = length ids"
    using order_length [OF o] by (simp add: unat_of_nat)
  show ?thesis
    using o n unfolding order_ok_def by (auto simp: l nth_append less_Suc_eq)
qed

section \<open>Entries of the book\<close>

lemma modify_fields [simp]:
  "ab_key (modify_entry eid f ab) = ab_key ab" "ab_last_used_id (modify_entry eid f ab) = ab_last_used_id ab"
  "ab_new_entries_size (modify_entry eid f ab) = ab_new_entries_size ab"
  "ab_tried_entries_size (modify_entry eid f ab) = ab_tried_entries_size ab"
  "ab_randomly_ordered_ids (modify_entry eid f ab) = ab_randomly_ordered_ids ab"
  "ab_new_buckets (modify_entry eid f ab) = ab_new_buckets ab" "ab_tried_buckets (modify_entry eid f ab) = ab_tried_buckets ab"
  "ab_recently_selected (modify_entry eid f ab) = ab_recently_selected ab"
  "ab_by_endpoint (modify_entry eid f ab) = ab_by_endpoint ab"
  "ab_by_id (modify_entry eid f ab) = (ab_by_id ab)(eid := map_option f (ab_by_id ab eid))"
  by (simp_all add: modify_entry_def)

lemma cores_modify:
  "ab_by_id ab eid = Some i \<Longrightarrow> cores_of (modify_entry eid f ab) = (cores_of ab)(eid \<mapsto> core_of (f i))"
  by (auto simp: cores_of_def)

lemma positions_modify:
  "ab_by_id ab eid = Some i \<Longrightarrow> positions_of (modify_entry eid f ab) = (positions_of ab)(eid \<mapsto> nsi_random_pos (f i))"
  by (auto simp: positions_of_def)

lemma cores_fields [simp]:
  "cores_of (ab_randomly_ordered_ids_update f0 ab) = cores_of ab" "positions_of (ab_randomly_ordered_ids_update f0 ab) = positions_of ab"
  "cores_of (ab_new_entries_size_update f1 ab) = cores_of ab" "positions_of (ab_new_entries_size_update f1 ab) = positions_of ab"
  "cores_of (ab_tried_entries_size_update f2 ab) = cores_of ab" "positions_of (ab_tried_entries_size_update f2 ab) = positions_of ab"
  "cores_of (ab_new_buckets_update f3 ab) = cores_of ab" "positions_of (ab_new_buckets_update f3 ab) = positions_of ab"
  "cores_of (ab_tried_buckets_update f4 ab) = cores_of ab" "positions_of (ab_tried_buckets_update f4 ab) = positions_of ab"
  "cores_of (ab_recently_selected_update f5 ab) = cores_of ab" "positions_of (ab_recently_selected_update f5 ab) = positions_of ab"
  "cores_of (ab_by_endpoint_update f6 ab) = cores_of ab" "positions_of (ab_by_endpoint_update f6 ab) = positions_of ab"
  "cores_of (ab_last_used_id_update f7 ab) = cores_of ab" "positions_of (ab_last_used_id_update f7 ab) = positions_of ab"
  by (simp_all add: cores_of_def [abs_def] positions_of_def [abs_def])

lemma core_of_pos [simp]: "core_of (nsi_random_pos_update f i) = core_of i"
  by (simp add: core_of_def info_endpoint_def)

lemma fun_upd_same: "f x = y \<Longrightarrow> f(x := y) = f"
  by auto

lemma swap_ids:
  assumes o: "order_ok (ab_randomly_ordered_ids ab) (positions_of ab)"
    and i: "unat i < length (ab_randomly_ordered_ids ab)" and j: "unat j < length (ab_randomly_ordered_ids ab)"
  obtains ab' where "swap_randomly_ordered_ids i j ab = Some ab'" "same_frame ab ab'"
    "order_ok (ab_randomly_ordered_ids ab') (positions_of ab')" "cores_of ab' = cores_of ab"
    "length (ab_randomly_ordered_ids ab') = length (ab_randomly_ordered_ids ab)"
    "ab_randomly_ordered_ids ab' ! unat j = ab_randomly_ordered_ids ab ! unat i"
    "ab_new_buckets ab' = ab_new_buckets ab" "ab_by_endpoint ab' = ab_by_endpoint ab" "ab_new_entries_size ab' = ab_new_entries_size ab"
proof (cases "i = j")
  case True
  show ?thesis
    by (rule that [of ab]) (simp_all add: swap_randomly_ordered_ids_def True o)
next
  case False
  let ?ids = "ab_randomly_ordered_ids ab"
  let ?a = "modify_entry (?ids ! unat i) (nsi_random_pos_update (\<lambda>_. j)) ab"
  let ?b = "modify_entry (?ids ! unat j) (nsi_random_pos_update (\<lambda>_. i)) ?a"
  let ?c = "?b\<lparr>ab_randomly_ordered_ids := ?ids[unat i := ?ids ! unat j, unat j := ?ids ! unat i]\<rparr>"
  have "?ids ! unat i \<in> dom (positions_of ab)" "?ids ! unat j \<in> dom (positions_of ab)"
    using o i j nth_mem unfolding order_ok_def by blast+
  then obtain x y where xy: "ab_by_id ab (?ids ! unat i) = Some x" "ab_by_id ab (?ids ! unat j) = Some y"
    by (auto simp: positions_of_def)
  have ne: "?ids ! unat i \<noteq> ?ids ! unat j"
    using o i j False word_unat_eq_iff [of i j] by (simp add: order_ok_def nth_eq_iff_index_eq)
  have y: "ab_by_id ?a (?ids ! unat j) = Some y"
    using xy(2) ne by simp
  show ?thesis
  proof (rule that [of ?c])
    show "swap_randomly_ordered_ids i j ab = Some ?c"
      using False i j xy by (simp add: swap_randomly_ordered_ids_def Let_def)
    have "positions_of ?c = (positions_of ab)(?ids ! unat i \<mapsto> j, ?ids ! unat j \<mapsto> i)"
      using positions_modify [OF y, of "nsi_random_pos_update (\<lambda>_. i)"] positions_modify [OF xy(1), of "nsi_random_pos_update (\<lambda>_. j)"]
      by (simp add: positions_of_def)
    then show "order_ok (ab_randomly_ordered_ids ?c) (positions_of ?c)"
      using order_swap [OF o i j False] by simp
    have "cores_of ?c = (cores_of ab)(?ids ! unat i \<mapsto> core_of x, ?ids ! unat j \<mapsto> core_of y)"
      using cores_modify [OF y, of "nsi_random_pos_update (\<lambda>_. i)"] cores_modify [OF xy(1), of "nsi_random_pos_update (\<lambda>_. j)"]
      by (simp add: cores_of_def)
    also have "\<dots> = cores_of ab"
      using xy by (auto simp: cores_of_def)
    finally show "cores_of ?c = cores_of ab" .
  qed (use i j in \<open>simp_all add: same_frame_def\<close>)
qed

lemma erase_entry:
  assumes o: "order_ok (ab_randomly_ordered_ids ab) (positions_of ab)"
    and e: "ab_by_id ab eid = Some i" "nsi_new_refs i = {}" "nsi_tried_ref i = None"
  obtains ab' where "erase_new_entry eid ab = Some ab'" "same_frame ab ab'"
    "order_ok (ab_randomly_ordered_ids ab') (positions_of ab')" "cores_of ab' = (cores_of ab)(eid := None)"
    "ab_new_buckets ab' = ab_new_buckets ab" "ab_by_endpoint ab' = (ab_by_endpoint ab)(info_endpoint i := None)"
    "ab_new_entries_size ab' = ab_new_entries_size ab - 1"
proof -
  let ?ids = "ab_randomly_ordered_ids ab"
  have pos: "positions_of ab eid = Some (nsi_random_pos i)"
    using e(1) by (simp add: positions_of_def)
  then have e0: "eid \<noteq> 0" and p: "unat (nsi_random_pos i) < length ?ids" "?ids ! unat (nsi_random_pos i) = eid"
    using o unfolding order_ok_def by (auto simp: domIff)
  define j where "j = (of_nat (length ?ids) - 1 :: 32 word)"
  have l: "unat j = length ?ids - 1"
  proof -
    have "j = of_nat (length ?ids - 1)"
      using p(1) by (simp add: j_def of_nat_diff)
    then show ?thesis
      using order_length [OF o] by (simp add: unat_of_nat)
  qed
  have jl: "unat j < length ?ids" using l p(1) by simp
  obtain ab1 where s: "swap_randomly_ordered_ids (nsi_random_pos i) j ab = Some ab1" "same_frame ab ab1"
    "order_ok (ab_randomly_ordered_ids ab1) (positions_of ab1)" "cores_of ab1 = cores_of ab"
    "length (ab_randomly_ordered_ids ab1) = length ?ids" "ab_randomly_ordered_ids ab1 ! unat j = ?ids ! unat (nsi_random_pos i)"
    "ab_new_buckets ab1 = ab_new_buckets ab" "ab_by_endpoint ab1 = ab_by_endpoint ab" "ab_new_entries_size ab1 = ab_new_entries_size ab"
    by (rule swap_ids [OF o p(1) jl]) (rule that)
  have n1: "ab_randomly_ordered_ids ab1 \<noteq> []"
    using s(5) p(1) by auto
  then have n2: "last (ab_randomly_ordered_ids ab1) = eid"
    using s(5,6) p(2) l by (simp add: last_conv_nth)
  note n = n1 n2
  let ?r = "ab1\<lparr>ab_randomly_ordered_ids := butlast (ab_randomly_ordered_ids ab1), ab_new_entries_size := ab_new_entries_size ab1 - 1,
    ab_by_id := (ab_by_id ab1)(eid := None), ab_by_endpoint := (ab_by_endpoint ab1)(info_endpoint i := None)\<rparr>"
  show ?thesis
  proof (rule that [of ?r])
    show "erase_new_entry eid ab = Some ?r"
      using e e0 s(1) n by (simp add: erase_new_entry_def j_def)
    have "positions_of ?r = (positions_of ab1)(eid := None)" by (auto simp: positions_of_def)
    then show "order_ok (ab_randomly_ordered_ids ?r) (positions_of ?r)"
      using order_butlast [OF s(3) n] by simp
    show "cores_of ?r = (cores_of ab)(eid := None)"
      using s(4) by (auto simp: cores_of_def fun_eq_iff)
  qed (use s in \<open>simp_all add: same_frame_def\<close>)
qed

section \<open>Counters, indexes and slots\<close>

definition new_weight :: "entry_core option \<Rightarrow> 32 word" where
  "new_weight x = (case x of None \<Rightarrow> 0 | Some c \<Rightarrow> if ec_new c \<noteq> {} then 1 else 0)"

definition tried_weight :: "entry_core option \<Rightarrow> 32 word" where
  "tried_weight x = (case x of None \<Rightarrow> 0 | Some c \<Rightarrow> if ec_tried c \<noteq> None then 1 else 0)"

lemma card_new_ids: "(of_nat (card (new_ids (C(eid := x)))) :: 32 word) = of_nat (card (new_ids C)) + new_weight x - new_weight (C eid)"
proof (cases "eid \<in> new_ids C")
  case True
  then have "new_weight (C eid) = 1"
    by (auto simp: new_ids_def new_weight_def split: if_splits)
  with True show ?thesis
    using of_nat_card_Diff [OF True]
    by (auto simp: new_ids_upd new_weight_def insert_absorb simp del: card_Diff_insert card_Diff_singleton split: option.split)
next
  case False
  then have "new_weight (C eid) = 0"
    by (auto simp: new_ids_def new_weight_def split: option.split)
  with False show ?thesis
    by (auto simp: new_ids_upd new_weight_def split: option.split)
qed

lemma card_tried_ids: "(of_nat (card (tried_ids (C(eid := x)))) :: 32 word) = of_nat (card (tried_ids C)) + tried_weight x - tried_weight (C eid)"
proof (cases "eid \<in> tried_ids C")
  case True
  then have "tried_weight (C eid) = 1"
    by (auto simp: tried_ids_def tried_weight_def split: if_splits)
  with True show ?thesis
    using of_nat_card_Diff [OF True]
    by (auto simp: tried_ids_upd tried_weight_def insert_absorb simp del: card_Diff_insert card_Diff_singleton split: option.split)
next
  case False
  then have "tried_weight (C eid) = 0"
    by (auto simp: tried_ids_def tried_weight_def split: option.split)
  with False show ?thesis
    by (auto simp: tried_ids_upd tried_weight_def split: option.split)
qed

lemma sizes_upd:
  assumes "sizes_ok C ns ts"
  shows "sizes_ok (C(eid := x)) (ns + new_weight x - new_weight (C eid)) (ts + tried_weight x - tried_weight (C eid))"
  using assms by (simp add: sizes_ok_def card_new_ids card_tried_ids)

lemma index_keep:
  assumes "index_ok C be" "C eid = Some c" "ec_endpoint c' = ec_endpoint c"
  shows "index_ok (C(eid \<mapsto> c')) be"
  using assms unfolding index_ok_def by auto

lemma index_erase:
  assumes i: "index_ok C be" and c: "C eid = Some c"
  shows "index_ok (C(eid := None)) (be(ec_endpoint c := None))"
  unfolding index_ok_def
proof (intro allI)
  fix e x
  have "be (ec_endpoint c) = Some eid"
    using i c by (auto simp: index_ok_def)
  moreover have "be e = Some x \<longleftrightarrow> (\<exists>d. C x = Some d \<and> ec_endpoint d = e)"
    using i by (simp add: index_ok_def)
  ultimately show "(be(ec_endpoint c := None)) e = Some x \<longleftrightarrow> (\<exists>d. (C(eid := None)) x = Some d \<and> ec_endpoint d = e)"
    using c by (cases "x = eid"; cases "e = ec_endpoint c") auto
qed

lemma index_new:
  assumes i: "index_ok C be" and c: "C eid = None" "be (ec_endpoint c) = None"
  shows "index_ok (C(eid \<mapsto> c)) (be(ec_endpoint c \<mapsto> eid))"
  unfolding index_ok_def
proof (intro allI)
  fix e x
  have "be e = Some x \<longleftrightarrow> (\<exists>d. C x = Some d \<and> ec_endpoint d = e)"
    using i by (simp add: index_ok_def)
  then show "(be(ec_endpoint c \<mapsto> eid)) e = Some x \<longleftrightarrow> (\<exists>d. (C(eid \<mapsto> c)) x = Some d \<and> ec_endpoint d = e)"
    using c by (cases "x = eid"; cases "e = ec_endpoint c") auto
qed

lemma slot_xy_valid:
  assumes "unat (slot_x s) < n" "unat (slot_y s) < kBucketSize"
  shows "valid_slot n (slot_xy s)"
proof -
  have "unat (slot_x s) < 2 ^ 16" "unat (slot_y s) < 2 ^ 16"
    using unsigned_less [of "slot_x s"] unsigned_less [of "slot_y s"] by simp_all
  then have "unat (slot_xy s) = unat (slot_x s) * 2 ^ 16 + unat (slot_y s)"
    unfolding slot_xy_def unat_of_nat by simp
  with assms \<open>unat (slot_y s) < 2 ^ 16\<close> show ?thesis
    by (simp add: valid_slot_def)
qed

lemma book_invD:
  assumes "book_inv_moving env L ab"
  shows "buckets_ok L (cores_of ab) (ab_new_buckets ab) (ab_tried_buckets ab)"
    "sizes_ok (cores_of ab) (ab_new_entries_size ab) (ab_tried_entries_size ab)" "index_ok (cores_of ab) (ab_by_endpoint ab)"
    "order_ok (ab_randomly_ordered_ids ab) (positions_of ab)" "length (ab_key ab) = 16"
    "cores_of ab eid = Some c \<Longrightarrow> routable_core env c" "cores_of ab eid = Some c \<Longrightarrow> eid < ab_last_used_id ab"
    "0 < ab_last_used_id ab"
  using assms unfolding book_inv_moving_def by simp_all

text \<open>A step on one entry.\<close>

lemma book_upd:
  assumes inv: "book_inv_moving env L ab" and C: "cores_of ab' = (cores_of ab)(eid := x)"
    and "buckets_ok L' ((cores_of ab)(eid := x)) (ab_new_buckets ab') (ab_tried_buckets ab')"
    and "ab_new_entries_size ab' = ab_new_entries_size ab + new_weight x - new_weight (cores_of ab eid)"
    and "ab_tried_entries_size ab' = ab_tried_entries_size ab + tried_weight x - tried_weight (cores_of ab eid)"
    and "index_ok ((cores_of ab)(eid := x)) (ab_by_endpoint ab')" "order_ok (ab_randomly_ordered_ids ab') (positions_of ab')"
    and "\<And>c. x = Some c \<Longrightarrow> routable_core env c \<and> eid < ab_last_used_id ab'"
    and "ab_key ab' = ab_key ab" "ab_last_used_id ab \<le> ab_last_used_id ab'"
  shows "book_inv_moving env L' ab'"
  unfolding book_inv_moving_def C
proof (intro conjI allI impI)
  show "sizes_ok ((cores_of ab)(eid := x)) (ab_new_entries_size ab') (ab_tried_entries_size ab')"
    using sizes_upd [OF book_invD(2) [OF inv], of eid x] assms(4,5) by simp
  fix e c
  assume "((cores_of ab)(eid := x)) e = Some c"
  then show "routable_core env c" "e < ab_last_used_id ab'"
    using assms(8) [of c] book_invD(6,7) [OF inv, of e c] assms(10) by (auto split: if_splits)
qed (use assms book_invD(5,8) [OF inv] in \<open>auto intro: less_le_trans\<close>)

section \<open>Clearing a slot\<close>

text \<open>What an operation on other entries keeps of the entries that do not hold the slot \<open>a\<close>.\<close>

definition keeps_others :: "32 word \<Rightarrow> address_book \<Rightarrow> address_book \<Rightarrow> bool" where
  "keeps_others a ab ab' \<longleftrightarrow>
    (\<forall>eid. ab_new_buckets ab a \<noteq> Some eid \<longrightarrow> cores_of ab' eid = cores_of ab eid) \<and>
    (\<forall>e. ab_by_endpoint ab e = None \<longrightarrow> ab_by_endpoint ab' e = None)"

lemma cores_entry: "cores_of ab eid = Some c \<Longrightarrow> \<exists>i. ab_by_id ab eid = Some i \<and> c = core_of i"
  by (auto simp: cores_of_def)

lemma core_of_sel [simp]:
  "ec_new (core_of i) = nsi_new_refs i" "ec_tried (core_of i) = nsi_tried_ref i" "ec_endpoint (core_of i) = info_endpoint i"
  "ec_origin (core_of i) = nsi_origin i"
  by (simp_all add: core_of_def)

lemma core_of_upd [simp]:
  "core_of (nsi_new_refs_update f i) = (core_of i)\<lparr>ec_new := f (nsi_new_refs i)\<rparr>"
  "core_of (nsi_tried_ref_update g i) = (core_of i)\<lparr>ec_tried := g (nsi_tried_ref i)\<rparr>"
  by (simp_all add: core_of_def info_endpoint_def)

lemma cores_Some: "ab_by_id ab eid = Some i \<Longrightarrow> cores_of ab eid = Some (core_of i)"
  by (simp add: cores_of_def)

lemma positions_same: "ab_by_id ab eid = Some i \<Longrightarrow> nsi_random_pos (f i) = nsi_random_pos i \<Longrightarrow> positions_of (modify_entry eid f ab) = positions_of ab"
  by (simp add: positions_modify positions_of_def fun_upd_same)

text \<open>Removing a reference of an entry that has others.\<close>

lemma clear_ref_keep:
  assumes inv: "book_inv_moving env L ab" and i: "ab_by_id ab eid = Some i" "a \<in> nsi_new_refs i" "nsi_new_refs i - {a} \<noteq> {}"
  defines "ab' \<equiv> (modify_entry eid (nsi_new_refs_update (\<lambda>r. r - {a})) ab)\<lparr>ab_new_buckets := (ab_new_buckets ab)(a := None)\<rparr>"
  shows "book_inv_moving env L ab'" "cores_of ab' = (cores_of ab)(eid \<mapsto> (core_of i)\<lparr>ec_new := nsi_new_refs i - {a}\<rparr>)"
proof -
  note c = cores_Some [OF i(1)] and b = book_invD(1) [OF inv]
  show C: "cores_of ab' = (cores_of ab)(eid \<mapsto> (core_of i)\<lparr>ec_new := nsi_new_refs i - {a}\<rparr>)"
    by (simp add: ab'_def cores_modify [OF i(1)])
  show "book_inv_moving env L ab'"
  proof (rule book_upd [OF inv C])
    show "buckets_ok L ((cores_of ab)(eid \<mapsto> (core_of i)\<lparr>ec_new := nsi_new_refs i - {a}\<rparr>)) (ab_new_buckets ab') (ab_tried_buckets ab')"
      using buckets_remove_ref [OF b c, of a] i(2,3) by (simp add: ab'_def)
  qed (use c i book_invD(4) [OF inv] book_invD(6,7) [OF inv c] positions_same [OF i(1), of "nsi_new_refs_update (\<lambda>r. r - {a})"] in
      \<open>auto simp: ab'_def new_weight_def tried_weight_def routable_core_def intro: index_keep [OF book_invD(3) [OF inv] c]\<close>)
qed

text \<open>Removing the only reference of an entry, which is erased.\<close>

lemma clear_ref_erase:
  assumes inv: "book_inv_moving env L ab" and i: "ab_by_id ab eid = Some i" "nsi_new_refs i = {a}" "nsi_tried_ref i = None" and e0: "eid \<noteq> 0"
  obtains ab' where "erase_new_entry eid (modify_entry eid (nsi_new_refs_update (\<lambda>r. r - {a})) ab) = Some ab'" "same_frame ab ab'"
    "book_inv_moving env L (ab'\<lparr>ab_new_buckets := (ab_new_buckets ab')(a := None)\<rparr>)" "cores_of ab' = (cores_of ab)(eid := None)"
    "ab_by_endpoint ab' = (ab_by_endpoint ab)(info_endpoint i := None)"
proof -
  note c = cores_Some [OF i(1)] and b = book_invD(1) [OF inv]
  let ?m = "modify_entry eid (nsi_new_refs_update (\<lambda>r. r - {a})) ab"
  have mi: "ab_by_id ?m eid = Some (nsi_new_refs_update (\<lambda>r. r - {a}) i)" "order_ok (ab_randomly_ordered_ids ?m) (positions_of ?m)"
    using i(1) book_invD(4) [OF inv] positions_same [OF i(1), of "nsi_new_refs_update (\<lambda>r. r - {a})"] by simp_all
  obtain ab1 where e: "erase_new_entry eid ?m = Some ab1" "same_frame ?m ab1"
    "order_ok (ab_randomly_ordered_ids ab1) (positions_of ab1)" "cores_of ab1 = (cores_of ?m)(eid := None)"
    "ab_new_buckets ab1 = ab_new_buckets ?m" "ab_by_endpoint ab1 = (ab_by_endpoint ?m)(info_endpoint (nsi_new_refs_update (\<lambda>r. r - {a}) i) := None)"
    "ab_new_entries_size ab1 = ab_new_entries_size ?m - 1"
    by (rule erase_entry [OF mi(2,1)]) (use i in simp_all)
  have C: "cores_of ab1 = (cores_of ab)(eid := None)" and be: "ab_by_endpoint ab1 = (ab_by_endpoint ab)(info_endpoint i := None)"
    using e(4,6) by (simp_all add: cores_modify [OF i(1)] info_endpoint_def)
  let ?r = "ab1\<lparr>ab_new_buckets := (ab_new_buckets ab1)(a := None)\<rparr>"
  have "book_inv_moving env L ?r"
  proof (rule book_upd [OF inv, of _ eid None])
    show "buckets_ok L ((cores_of ab)(eid := None)) (ab_new_buckets ?r) (ab_tried_buckets ?r)"
      using buckets_erase [OF b c] i(2,3) e(2,5) by (simp add: same_frame_def)
    show "index_ok ((cores_of ab)(eid := None)) (ab_by_endpoint ?r)"
      using index_erase [OF book_invD(3) [OF inv] c] be by simp
  qed (use C c i e in \<open>simp_all add: new_weight_def tried_weight_def same_frame_def\<close>)
  then show ?thesis
    using e(1,2) C be by (intro that [of ab1]) (simp_all add: same_frame_def)
qed

lemma clear_slot:
  assumes inv: "book_inv_moving env L ab" and x: "unat (slot_x slot) < kNewBucketsCount" "unat (slot_y slot) < kBucketSize"
  obtains ab' where "clear_new_slot slot True ab = Some ab'" "book_inv_moving env L ab'" "same_frame ab ab'"
    "ab_new_buckets ab' (slot_xy slot) = None" "keeps_others (slot_xy slot) ab ab'"
proof (cases "ab_new_buckets ab (slot_xy slot)")
  case None
  show ?thesis
    by (rule that [of ab]) (simp_all add: clear_new_slot_def x None inv keeps_others_def)
next
  case (Some eid)
  let ?a = "slot_xy slot"
  note b = book_invD(1) [OF inv]
  obtain i where i: "ab_by_id ab eid = Some i" "?a \<in> nsi_new_refs i"
    using Some buckets_okD(1) [OF b] cores_entry by fastforce
  have t: "nsi_tried_ref i = None" "eid \<noteq> 0"
    using buckets_okD(3) [OF b cores_Some [OF i(1)]] i book_invD(4) [OF inv] by (auto simp: order_ok_def positions_of_def domIff)
  show ?thesis
  proof (cases "nsi_new_refs i - {?a} = {}")
    case False
    note k = clear_ref_keep [OF inv i False]
    show ?thesis
      by (rule that [OF _ k(1)]) (use x Some i t False k(2) in \<open>simp_all add: clear_new_slot_def lookup_entry_by_id_def Let_def keeps_others_def same_frame_def\<close>)
  next
    case True
    then have n: "nsi_new_refs i = {?a}" using i(2) by auto
    obtain ab1 where e: "erase_new_entry eid (modify_entry eid (nsi_new_refs_update (\<lambda>r. r - {?a})) ab) = Some ab1" "same_frame ab ab1"
      "book_inv_moving env L (ab1\<lparr>ab_new_buckets := (ab_new_buckets ab1)(?a := None)\<rparr>)" "cores_of ab1 = (cores_of ab)(eid := None)"
      "ab_by_endpoint ab1 = (ab_by_endpoint ab)(info_endpoint i := None)"
      by (rule clear_ref_erase [OF inv i(1) n t]) (rule that)
    show ?thesis
      by (rule that [OF _ e(3)]) (use x Some i t True e in \<open>simp_all add: clear_new_slot_def lookup_entry_by_id_def Let_def keeps_others_def same_frame_def\<close>)
  qed
qed

section \<open>Slots of routable addresses\<close>

lemma group_exists: "ip_is_routable asio a \<Longrightarrow> \<exists>g. compute_group asio a = Some g"
  by (cases a) (simp_all add: compute_group_def calculate_subnet_base_address_def kIPv4SubnetGroupsPrefix_def kIPv6SubnetGroupsPrefix_def)

lemma sip_exists: "length key = 16 \<Longrightarrow> \<exists>h. sip_hash env key parts = Some h"
  by (simp add: sip_hash_def siphash_init_def)

lemma unat_ucast_mod:
  assumes "unat (n :: 64 word) < 2 ^ 16" "0 < unat n"
  shows "unat (ucast (h mod n) :: 16 word) < unat n"
proof -
  have "unat (h mod n) < unat n"
    using assms(2) by (simp add: unat_mod_distrib)
  moreover have "unat (ucast (h mod n) :: 16 word) \<le> unat (h mod n)"
    by (simp add: unsigned_ucast_eq unsigned_take_bit_eq take_bit_nat_less_eq_self)
  ultimately show ?thesis by simp
qed

lemmas unat_ucast_mod_consts = unat_ucast_mod [of 1024, simplified] unat_ucast_mod [of 256, simplified] unat_ucast_mod [of 64, simplified]

lemma new_slot_exists:
  assumes "length (ab_key ab) = 16" "ip_is_routable (env_asio env) source" "ip_is_routable (env_asio env) (ep_address (info_endpoint i))"
  obtains slot where "get_new_slot env ab i source = Some slot" "unat (slot_x slot) < kNewBucketsCount" "unat (slot_y slot) < kBucketSize"
proof -
  obtain g h where g: "compute_group (env_asio env) source = Some g" "compute_group (env_asio env) (ep_address (info_endpoint i)) = Some h"
    using group_exists assms(2,3) by blast
  obtain f where f: "\<And>parts. sip_hash env (ab_key ab) parts = Some (f parts)"
    using sip_exists [OF assms(1)] by metis
  show ?thesis
    by (rule that) (simp add: get_new_slot_def g f Let_def kNewBucketsCount_def kBucketSize_def,
        simp_all add: kNewBucketsCount_def kBucketSize_def unat_ucast_mod_consts)
qed

lemma tried_slot_exists:
  assumes "length (ab_key ab) = 16" "ip_is_routable (env_asio env) (ep_address (info_endpoint i))"
  obtains slot where "get_tried_slot env ab i = Some slot" "unat (slot_x slot) < kTriedBucketsCount" "unat (slot_y slot) < kBucketSize"
proof -
  obtain h where g: "compute_group (env_asio env) (ep_address (info_endpoint i)) = Some h"
    using group_exists assms(2) by blast
  obtain f where f: "\<And>parts. sip_hash env (ab_key ab) parts = Some (f parts)"
    using sip_exists [OF assms(1)] by metis
  show ?thesis
    by (rule that) (simp add: get_tried_slot_def g f Let_def kTriedBucketsCount_def kBucketSize_def,
        simp_all add: kTriedBucketsCount_def kBucketSize_def unat_ucast_mod_consts)
qed

section \<open>Moving an entry\<close>

lemma routable_info:
  assumes "book_inv_moving env L ab" "ab_by_id ab eid = Some i"
  shows "ip_is_routable (env_asio env) (ep_address (info_endpoint i))" "ip_is_routable (env_asio env) (nsi_origin i)"
  using book_invD(6) [OF assms(1) cores_Some [OF assms(2)]] by (simp_all add: routable_core_def)

lemma add_ref:
  assumes inv: "book_inv_moving env L ab" and i: "ab_by_id ab eid = Some i" "nsi_tried_ref i = None"
    "card (nsi_new_refs i) < kMaxNewBucketReferences" and a: "ab_new_buckets ab a = None" "valid_slot kNewBucketsCount a"
  obtains ab' where "add_new_ref eid a ab = Some ab'" "same_frame ab ab'"
    "cores_of ab' = (cores_of ab)(eid \<mapsto> (core_of i)\<lparr>ec_new := insert a (nsi_new_refs i)\<rparr>)"
    "ab_new_entries_size ab' = ab_new_entries_size ab" "ab_by_endpoint ab' = ab_by_endpoint ab"
    "book_inv_moving env (L - {eid}) (ab'\<lparr>ab_new_entries_size := ab_new_entries_size ab' + (if nsi_new_refs i = {} then 1 else 0)\<rparr>)"
proof -
  note c = cores_Some [OF i(1)] and b = book_invD(1) [OF inv]
  let ?m = "(modify_entry eid (nsi_new_refs_update (insert a)) ab)\<lparr>ab_new_buckets := (ab_new_buckets ab)(a \<mapsto> eid)\<rparr>"
  have C: "cores_of ?m = (cores_of ab)(eid \<mapsto> (core_of i)\<lparr>ec_new := insert a (nsi_new_refs i)\<rparr>)"
    by (simp add: cores_modify [OF i(1)])
  have "a \<notin> nsi_new_refs i"
    using bucket_slots(1) [OF b c, of a] a(1) by auto
  then have "add_new_ref eid a ab = Some ?m"
    using i(1) a(1) by (simp add: add_new_ref_def)
  moreover have "book_inv_moving env (L - {eid}) (?m\<lparr>ab_new_entries_size := ab_new_entries_size ?m + (if nsi_new_refs i = {} then 1 else 0)\<rparr>)"
  proof (rule book_upd [OF inv, of _ eid "Some ((core_of i)\<lparr>ec_new := insert a (nsi_new_refs i)\<rparr>)"])
    show "buckets_ok (L - {eid}) ((cores_of ab)(eid \<mapsto> (core_of i)\<lparr>ec_new := insert a (nsi_new_refs i)\<rparr>))
        (ab_new_buckets (?m\<lparr>ab_new_entries_size := ab_new_entries_size ?m + (if nsi_new_refs i = {} then 1 else 0)\<rparr>))
        (ab_tried_buckets (?m\<lparr>ab_new_entries_size := ab_new_entries_size ?m + (if nsi_new_refs i = {} then 1 else 0)\<rparr>))"
      using buckets_add_ref [OF b c, of a] i a by simp
  qed (use C c i book_invD(3,4) [OF inv] book_invD(6,7) [OF inv c] positions_same [OF i(1), of "nsi_new_refs_update (insert a)"] in
      \<open>auto simp: new_weight_def tried_weight_def routable_core_def intro: index_keep [OF book_invD(3) [OF inv] c]\<close>)
  ultimately show ?thesis
    using C by (intro that [of ?m]) (simp_all add: same_frame_def)
qed

lemma clear_refs:
  assumes inv: "book_inv_moving env L ab" and i: "ab_by_id ab eid = Some i" "nsi_tried_ref i = None"
  shows "book_inv_moving env (insert eid L) (clear_new_refs eid i ab)"
    "cores_of (clear_new_refs eid i ab) = (cores_of ab)(eid \<mapsto> (core_of i)\<lparr>ec_new := {}\<rparr>)"
proof -
  note c = cores_Some [OF i(1)] and b = book_invD(1) [OF inv]
  show C: "cores_of (clear_new_refs eid i ab) = (cores_of ab)(eid \<mapsto> (core_of i)\<lparr>ec_new := {}\<rparr>)"
    by (simp add: clear_new_refs_def cores_modify [OF i(1)])
  show "book_inv_moving env (insert eid L) (clear_new_refs eid i ab)"
  proof (rule book_upd [OF inv C])
    show "buckets_ok (insert eid L) ((cores_of ab)(eid \<mapsto> (core_of i)\<lparr>ec_new := {}\<rparr>)) (ab_new_buckets (clear_new_refs eid i ab))
        (ab_tried_buckets (clear_new_refs eid i ab))"
      using buckets_clear_refs [OF b c] i(2) by (simp add: clear_new_refs_def)
  qed (use c i book_invD(3,4) [OF inv] book_invD(6,7) [OF inv c] positions_same [OF i(1), of "nsi_new_refs_update (\<lambda>_. {})"] in
      \<open>auto simp: clear_new_refs_def new_weight_def tried_weight_def routable_core_def intro: index_keep [OF book_invD(3) [OF inv] c]\<close>)
qed

lemma untry:
  assumes inv: "book_inv_moving env L ab" and i: "ab_by_id ab eid = Some i" "nsi_tried_ref i = Some a" "nsi_new_refs i = {}"
  defines "ab' \<equiv> (modify_entry eid (nsi_tried_ref_update (\<lambda>_. None)) ab)
    \<lparr>ab_tried_buckets := (ab_tried_buckets ab)(a := None), ab_tried_entries_size := ab_tried_entries_size ab - 1\<rparr>"
  shows "book_inv_moving env (insert eid L) ab'" "cores_of ab' = (cores_of ab)(eid \<mapsto> (core_of i)\<lparr>ec_tried := None\<rparr>)"
proof -
  note c = cores_Some [OF i(1)] and b = book_invD(1) [OF inv]
  show C: "cores_of ab' = (cores_of ab)(eid \<mapsto> (core_of i)\<lparr>ec_tried := None\<rparr>)"
    by (simp add: ab'_def cores_modify [OF i(1)])
  show "book_inv_moving env (insert eid L) ab'"
  proof (rule book_upd [OF inv C])
    show "buckets_ok (insert eid L) ((cores_of ab)(eid \<mapsto> (core_of i)\<lparr>ec_tried := None\<rparr>)) (ab_new_buckets ab') (ab_tried_buckets ab')"
      using buckets_untry [OF b c] i(2,3) by (simp add: ab'_def)
  qed (use c i book_invD(3,4) [OF inv] book_invD(6,7) [OF inv c] positions_same [OF i(1), of "nsi_tried_ref_update (\<lambda>_. None)"] in
      \<open>auto simp: ab'_def new_weight_def tried_weight_def routable_core_def intro: index_keep [OF book_invD(3) [OF inv] c]\<close>)
qed

lemma retry:
  assumes inv: "book_inv_moving env L ab" and i: "ab_by_id ab eid = Some i" "nsi_tried_ref i = None" "nsi_new_refs i = {}"
    and a: "ab_tried_buckets ab a = None" "valid_slot kTriedBucketsCount a"
  defines "ab' \<equiv> (modify_entry eid (nsi_tried_ref_update (\<lambda>_. Some a)) ab)
    \<lparr>ab_tried_buckets := (ab_tried_buckets ab)(a \<mapsto> eid), ab_tried_entries_size := ab_tried_entries_size ab + 1\<rparr>"
  shows "book_inv_moving env (L - {eid}) ab'" "cores_of ab' = (cores_of ab)(eid \<mapsto> (core_of i)\<lparr>ec_tried := Some a\<rparr>)"
proof -
  note c = cores_Some [OF i(1)] and b = book_invD(1) [OF inv]
  show C: "cores_of ab' = (cores_of ab)(eid \<mapsto> (core_of i)\<lparr>ec_tried := Some a\<rparr>)"
    by (simp add: ab'_def cores_modify [OF i(1)])
  show "book_inv_moving env (L - {eid}) ab'"
  proof (rule book_upd [OF inv C])
    show "buckets_ok (L - {eid}) ((cores_of ab)(eid \<mapsto> (core_of i)\<lparr>ec_tried := Some a\<rparr>)) (ab_new_buckets ab') (ab_tried_buckets ab')"
      using buckets_add_tried [OF b c, of a] i(2,3) a by (simp add: ab'_def)
  qed (use c i book_invD(3,4) [OF inv] book_invD(6,7) [OF inv c] positions_same [OF i(1), of "nsi_tried_ref_update (\<lambda>_. Some a)"] in
      \<open>auto simp: ab'_def new_weight_def tried_weight_def routable_core_def intro: index_keep [OF book_invD(3) [OF inv] c]\<close>)
qed

lemma evict:
  assumes inv: "book_inv_moving env L ab" and e: "ab_tried_buckets ab a = Some e"
  obtains ab' where "evict_tried env a e ab = Some ab'" "book_inv_moving env L ab'" "ab_tried_buckets ab' = (ab_tried_buckets ab)(a := None)"
    "ab_key ab' = ab_key ab" "\<And>x. x \<in> L \<Longrightarrow> cores_of ab' x = cores_of ab x"
proof -
  note b = book_invD(1) [OF inv]
  obtain i where i: "ab_by_id ab e = Some i" "nsi_tried_ref i = Some a"
    using buckets_okD(2) [OF b, of a e] e cores_entry by fastforce
  note c = cores_Some [OF i(1)]
  have n: "nsi_new_refs i = {}" "e \<notin> L"
    using buckets_okD(3,4) [OF b c] i(2) by auto
  let ?u = "(modify_entry e (nsi_tried_ref_update (\<lambda>_. None)) ab)
    \<lparr>ab_tried_buckets := (ab_tried_buckets ab)(a := None), ab_tried_entries_size := ab_tried_entries_size ab - 1\<rparr>"
  note u = untry [OF inv i n(1)]
  obtain slot where slot: "get_new_slot env ?u i (nsi_origin i) = Some slot" "unat (slot_x slot) < kNewBucketsCount" "unat (slot_y slot) < kBucketSize"
    by (rule new_slot_exists [OF book_invD(5) [OF u(1)] routable_info(2,1) [OF inv i(1)]]) (rule that)
  obtain ab1 where ab1: "clear_new_slot slot True ?u = Some ab1" "book_inv_moving env (insert e L) ab1" "same_frame ?u ab1"
    "ab_new_buckets ab1 (slot_xy slot) = None" "keeps_others (slot_xy slot) ?u ab1"
    by (rule clear_slot [OF u(1) slot(2,3)]) (rule that)
  have idle: "ab_new_buckets ?u (slot_xy slot) \<noteq> Some x" if "x \<in> insert e L" for x
    using buckets_okD(1,4) [OF book_invD(1) [OF u(1)]] that by blast
  have keep: "cores_of ab1 x = cores_of ?u x" if "x \<in> insert e L" for x
    using ab1(5) idle [OF that] unfolding keeps_others_def by blast
  obtain j where j: "ab_by_id ab1 e = Some j" "core_of j = (core_of i)\<lparr>ec_tried := None\<rparr>"
    using keep [of e] u(2) cores_entry [of ab1 e "(core_of i)\<lparr>ec_tried := None\<rparr>"] by auto
  have j': "nsi_tried_ref j = None" "nsi_new_refs j = {}"
    using arg_cong [OF j(2), of ec_tried] arg_cong [OF j(2), of ec_new] n(1) by simp_all
  obtain ab2 where ab2: "add_new_ref e (slot_xy slot) ab1 = Some ab2" "same_frame ab1 ab2"
    "cores_of ab2 = (cores_of ab1)(e \<mapsto> (core_of j)\<lparr>ec_new := insert (slot_xy slot) (nsi_new_refs j)\<rparr>)"
    "book_inv_moving env (insert e L - {e}) (ab2\<lparr>ab_new_entries_size := ab_new_entries_size ab2 + (if nsi_new_refs j = {} then 1 else 0)\<rparr>)"
    by (rule add_ref [OF ab1(2) j(1) j'(1) _ ab1(4) slot_xy_valid [OF slot(2,3)]]) (use j'(2) in \<open>simp_all add: kMaxNewBucketReferences_def\<close>)
  show ?thesis
  proof (rule that [of "ab2\<lparr>ab_new_entries_size := ab_new_entries_size ab2 + 1\<rparr>"])
    show "evict_tried env a e ab = Some (ab2\<lparr>ab_new_entries_size := ab_new_entries_size ab2 + 1\<rparr>)"
      using i n(1) slot(1) ab1(1) ab2(1) by (simp add: evict_tried_def lookup_entry_by_id_def Let_def)
    show "book_inv_moving env L (ab2\<lparr>ab_new_entries_size := ab_new_entries_size ab2 + 1\<rparr>)"
      using ab2(4) j'(2) n(2) by simp
    show "cores_of (ab2\<lparr>ab_new_entries_size := ab_new_entries_size ab2 + 1\<rparr>) x = cores_of ab x" if "x \<in> L" for x
      using that n(2) keep [of x] u(2) ab2(3) by (cases "x = e") simp_all
  qed (use ab1(3) ab2(2) in \<open>simp_all add: same_frame_def\<close>)
qed

lemma make_tried:
  assumes inv: "book_inv env ab" and i: "ab_by_id ab eid = Some i"
  obtains ab' j where "make_entry_tried env eid ab = Some ab'" "book_inv env ab'" "ab_by_id ab' eid = Some j" "nsi_tried_ref j \<noteq> None"
    "info_endpoint j = info_endpoint i"
proof (cases "nsi_tried_ref i")
  case (Some a)
  then show ?thesis
    using inv i by (intro that [of ab i]) (simp_all add: make_entry_tried_def lookup_entry_by_id_def)
next
  case None
  let ?c = "clear_new_refs eid i ab"
  note cl = clear_refs [OF inv [unfolded book_inv_def] i None]
  obtain slot where slot: "get_tried_slot env ?c i = Some slot" "unat (slot_x slot) < kTriedBucketsCount" "unat (slot_y slot) < kBucketSize"
    by (rule tried_slot_exists [OF book_invD(5) [OF cl(1)] routable_info(1) [OF inv [unfolded book_inv_def] i]]) (rule that)
  let ?a = "slot_xy slot"
  obtain ab1 where ab1: "(case ab_tried_buckets ?c ?a of None \<Rightarrow> Some ?c | Some evict_id \<Rightarrow> evict_tried env ?a evict_id ?c) = Some ab1"
    "book_inv_moving env {eid} ab1" "ab_tried_buckets ab1 ?a = None" "cores_of ab1 eid = Some ((core_of i)\<lparr>ec_new := {}\<rparr>)"
  proof (cases "ab_tried_buckets ?c ?a")
    case None
    then show thesis using cl by (intro that [of ?c]) simp_all
  next
    case (Some e)
    show thesis
      by (rule evict [OF cl(1) Some]) (rule that, use Some cl(2) in \<open>simp_all\<close>)
  qed
  obtain j where j: "ab_by_id ab1 eid = Some j" "core_of j = (core_of i)\<lparr>ec_new := {}\<rparr>"
    using cores_entry [OF ab1(4)] by auto
  have j': "nsi_tried_ref j = None" "nsi_new_refs j = {}" "info_endpoint j = info_endpoint i"
    using arg_cong [OF j(2), of ec_tried] arg_cong [OF j(2), of ec_new] arg_cong [OF j(2), of ec_endpoint] None by simp_all
  note r = retry [OF ab1(2) j(1) j'(1,2) ab1(3) slot_xy_valid [OF slot(2,3)]]
  show ?thesis
    by (rule that [of _ "j\<lparr>nsi_tried_ref := Some ?a\<rparr>", OF _ r(1) [simplified, folded book_inv_def]])
      (use i None slot(1) ab1(1,3) j j' in \<open>simp_all add: make_entry_tried_def lookup_entry_by_id_def Let_def assert_that_def info_endpoint_def\<close>)
qed

text \<open>A change of an entry that keeps its references, its endpoint and its position.\<close>

lemma modify_keep:
  assumes inv: "book_inv env ab" and i: "ab_by_id ab eid = Some i" and f: "core_of (f i) = core_of i" "nsi_random_pos (f i) = nsi_random_pos i"
  shows "book_inv env (modify_entry eid f ab)"
proof -
  have "cores_of (modify_entry eid f ab) = cores_of ab"
    by (simp add: cores_modify [OF i] f(1) fun_upd_same cores_Some [OF i])
  then show ?thesis
    using inv by (simp add: book_inv_def book_inv_moving_def positions_same [OF i, where f = f, OF f(2)])
qed

lemma lookup_endpoint:
  assumes "book_inv env ab"
  shows "lookup_entry_by_endpoint e ab = Some (i, eid) \<longleftrightarrow> ab_by_id ab eid = Some i \<and> info_endpoint i = e"
    "lookup_entry_by_endpoint e ab = None \<longleftrightarrow> ab_by_endpoint ab e = None"
proof -
  have ix: "ab_by_endpoint ab e = Some x \<longleftrightarrow> (\<exists>j. ab_by_id ab x = Some j \<and> info_endpoint j = e)" for x
    using book_invD(3) [OF assms [unfolded book_inv_def]] by (auto simp: index_ok_def cores_of_def)
  show "lookup_entry_by_endpoint e ab = Some (i, eid) \<longleftrightarrow> ab_by_id ab eid = Some i \<and> info_endpoint i = e"
  proof (cases "ab_by_endpoint ab e")
    case None
    then show ?thesis using ix [of eid] by (auto simp: lookup_entry_by_endpoint_def)
  next
    case (Some x)
    then have "lookup_entry_by_endpoint e ab = Some (i, eid) \<longleftrightarrow> x = eid \<and> ab_by_id ab x = Some i"
      by (auto simp: lookup_entry_by_endpoint_def lookup_entry_by_id_def)
    then show ?thesis using ix [of eid] Some by auto
  qed
  show "lookup_entry_by_endpoint e ab = None \<longleftrightarrow> ab_by_endpoint ab e = None"
    using ix [of "the (ab_by_endpoint ab e)"]
    by (cases "ab_by_endpoint ab e") (auto simp: lookup_entry_by_endpoint_def lookup_entry_by_id_def)
qed

lemma try_entry:
  assumes inv: "book_inv env ab" and i: "ab_by_id ab eid = Some i" and f: "core_of (f i) = core_of i" "nsi_random_pos (f i) = nsi_random_pos i"
  obtains ab' j where "ensure_tried env eid i (modify_entry eid f ab) = Some (True, ab')" "book_inv env ab'" "ab_by_id ab' eid = Some j"
    "nsi_tried_ref j \<noteq> None" "info_endpoint j = info_endpoint i"
proof -
  note m = modify_keep [OF inv i, where f = f, OF f]
  have fi: "nsi_tried_ref (f i) = nsi_tried_ref i" "info_endpoint (f i) = info_endpoint i"
    using arg_cong [OF f(1), of ec_tried] arg_cong [OF f(1), of ec_endpoint] by simp_all
  show ?thesis
  proof (cases "nsi_tried_ref i")
    case None
    obtain ab' j where "make_entry_tried env eid (modify_entry eid f ab) = Some ab'" "book_inv env ab'" "ab_by_id ab' eid = Some j"
      "nsi_tried_ref j \<noteq> None" "info_endpoint j = info_endpoint (f i)"
      by (rule make_tried [OF m, of eid "f i"]) (use i that in \<open>auto\<close>)
    then show ?thesis
      using None fi by (intro that [of ab' j]) (simp_all add: ensure_tried_def)
  next
    case (Some a)
    then show ?thesis
      using m i fi by (intro that [of "modify_entry eid f ab" "f i"]) (simp_all add: ensure_tried_def)
  qed
qed

section \<open>Insertion and update\<close>

definition routable_service :: "ab_env \<Rightarrow> node_service \<Rightarrow> bool" where
  "routable_service env s \<longleftrightarrow> ip_is_routable (env_asio env) (ep_address (ns_endpoint s))"

lemma insert_new:
  assumes inv: "book_inv env ab" and e: "ab_by_endpoint ab (ns_endpoint s) = None" and r: "routable_service env s" "ip_is_routable (env_asio env) source"
    and last: "ab_last_used_id ab < ab_last_used_id ab + 1"
  obtains ab' i where "insert_entry env s source penalty ab = Some (True, ab_last_used_id ab, ab')" "book_inv env ab'"
    "ab_by_id ab' (ab_last_used_id ab) = Some i" "info_endpoint i = ns_endpoint s" "ab_last_used_id ab' = ab_last_used_id ab + 1"
proof -
  let ?id = "ab_last_used_id ab"
  let ?i = "node_service_info_new (s\<lparr>ns_time := ns_time s - penalty\<rparr>) source"
  let ?l = "ab\<lparr>ab_last_used_id := ?id + 1\<rparr>"
  have l: "book_inv_moving env {} ?l"
    using inv last unfolding book_inv_def book_inv_moving_def by (fastforce intro: less_trans)
  have re: "ip_is_routable (env_asio env) (ep_address (info_endpoint ?i))"
    using r(1) by (simp add: routable_service_def info_endpoint_def node_service_info_new_def)
  obtain slot where slot: "get_new_slot env ?l ?i source = Some slot" "unat (slot_x slot) < kNewBucketsCount" "unat (slot_y slot) < kBucketSize"
    by (rule new_slot_exists [OF book_invD(5) [OF l] r(2) re]) (rule that)
  obtain ab1 where ab1: "clear_new_slot slot True ?l = Some ab1" "book_inv_moving env {} ab1" "same_frame ?l ab1"
    "ab_new_buckets ab1 (slot_xy slot) = None" "keeps_others (slot_xy slot) ?l ab1"
    by (rule clear_slot [OF l slot(2,3)]) (rule that)
  have absent: "cores_of ab ?id = None"
    using book_invD(7) [OF inv [unfolded book_inv_def], of ?id] by (cases "cores_of ab ?id") auto
  then have "ab_new_buckets ?l (slot_xy slot) \<noteq> Some ?id"
    using buckets_okD(1) [OF book_invD(1) [OF l], of "slot_xy slot" ?id] by simp
  then have n1: "cores_of ab1 ?id = None" "ab_by_endpoint ab1 (ns_endpoint s) = None"
    using ab1(5) absent e by (simp_all add: keeps_others_def)
  then have n2: "ab_by_id ab1 ?id = None" "?id \<notin> dom (positions_of ab1)"
    by (simp_all add: cores_of_def positions_of_def domIff)
  let ?j = "?i\<lparr>nsi_new_refs := {slot_xy slot}, nsi_random_pos := of_nat (length (ab_randomly_ordered_ids ab1))\<rparr>"
  let ?r = "ab1\<lparr>ab_new_buckets := (ab_new_buckets ab1)(slot_xy slot \<mapsto> ?id), ab_randomly_ordered_ids := ab_randomly_ordered_ids ab1 @ [?id],
    ab_by_id := (ab_by_id ab1)(?id \<mapsto> ?j), ab_by_endpoint := (ab_by_endpoint ab1)(ns_endpoint s \<mapsto> ?id), ab_new_entries_size := ab_new_entries_size ab1 + 1\<rparr>"
  have j: "core_of ?j = \<lparr>ec_new = {slot_xy slot}, ec_tried = None, ec_endpoint = ns_endpoint s, ec_origin = source\<rparr>"
    by (simp add: core_of_def info_endpoint_def node_service_info_new_def)
  have C: "cores_of ?r = (cores_of ab1)(?id \<mapsto> core_of ?j)" and P: "positions_of ?r = (positions_of ab1)(?id \<mapsto> of_nat (length (ab_randomly_ordered_ids ab1)))"
    by (auto simp: cores_of_def positions_of_def)
  have "book_inv_moving env {} ?r"
  proof (rule book_upd [OF ab1(2) C])
    show "buckets_ok {} ((cores_of ab1)(?id \<mapsto> core_of ?j)) (ab_new_buckets ?r) (ab_tried_buckets ?r)"
      using buckets_insert [OF book_invD(1) [OF ab1(2)] n1(1) _ ab1(4) slot_xy_valid [OF slot(2,3)], of "ns_endpoint s" source] unfolding j by simp
    show "index_ok ((cores_of ab1)(?id \<mapsto> core_of ?j)) (ab_by_endpoint ?r)"
      using index_new [OF book_invD(3) [OF ab1(2)] n1(1), of "core_of ?j"] n1(2) unfolding j by simp
    show "order_ok (ab_randomly_ordered_ids ?r) (positions_of ?r)"
      using order_append [OF book_invD(4) [OF ab1(2)] n2(2)] book_invD(8) [OF inv [unfolded book_inv_def]] P by auto
    show "routable_core env c \<and> ?id < ab_last_used_id ?r" if "Some (core_of ?j) = Some c" for c
      using that r last ab1(3) unfolding j by (auto simp: routable_core_def routable_service_def same_frame_def)
  qed (use n1 ab1(3) in \<open>simp_all add: new_weight_def tried_weight_def same_frame_def node_service_info_new_def\<close>)
  then show ?thesis
    using slot(1) ab1(1,3,4) n1(2) n2(1)
    by (intro that [of ?r ?j]) (simp_all add: insert_entry_def index_insert_def assert_that_def book_inv_def Let_def info_endpoint_def
      node_service_info_new_def same_frame_def)
qed

lemma core_of_refresh [simp]:
  "core_of (refresh_entry now s penalty i) = core_of i" "nsi_random_pos (refresh_entry now s penalty i) = nsi_random_pos i"
  by (simp_all add: refresh_entry_def core_of_def info_endpoint_def Let_def)

lemma entry_state:
  assumes inv: "book_inv env ab" and i: "ab_by_id ab eid = Some i"
  shows "nsi_new_refs i \<noteq> {} \<longleftrightarrow> nsi_tried_ref i = None" "finite (nsi_new_refs i)" "card (nsi_new_refs i) \<le> kMaxNewBucketReferences"
proof -
  note b = book_invD(1) [OF inv [unfolded book_inv_def]] and c = cores_Some [OF i]
  show "nsi_new_refs i \<noteq> {} \<longleftrightarrow> nsi_tried_ref i = None"
    using buckets_okD(3,4) [OF b c] by auto
  show "finite (nsi_new_refs i)" "card (nsi_new_refs i) \<le> kMaxNewBucketReferences"
    using buckets_okD(5,6) [OF b c] by simp_all
qed

text \<open>A further reference of a new entry.\<close>

lemma further_ref:
  assumes inv: "book_inv env ab" and i: "ab_by_id ab eid = Some i" "nsi_tried_ref i = None" "card (nsi_new_refs i) < kMaxNewBucketReferences"
    and slot: "unat (slot_x slot) < kNewBucketsCount" "unat (slot_y slot) < kBucketSize" "slot_xy slot \<notin> nsi_new_refs i"
  obtains ab1 ab' j where
    "(case ab_new_buckets ab (slot_xy slot) of None \<Rightarrow> Some ab | Some other \<Rightarrow> if other = eid then None else clear_new_slot slot True ab) = Some ab1"
    "add_new_ref eid (slot_xy slot) ab1 = Some ab'" "book_inv env ab'" "ab_last_used_id ab' = ab_last_used_id ab"
    "ab_by_id ab' eid = Some j" "core_of j = (core_of i)\<lparr>ec_new := insert (slot_xy slot) (nsi_new_refs i)\<rparr>"
proof -
  note inv' = inv [unfolded book_inv_def]
  have ne: "ab_new_buckets ab (slot_xy slot) \<noteq> Some eid"
    using bucket_slots(3) [OF book_invD(1) [OF inv'] cores_Some [OF i(1)]] slot(3) by auto
  obtain ab1 where ab1: "clear_new_slot slot True ab = Some ab1" "book_inv_moving env {} ab1" "same_frame ab ab1"
    "ab_new_buckets ab1 (slot_xy slot) = None" "keeps_others (slot_xy slot) ab ab1"
    by (rule clear_slot [OF inv' slot(1,2)]) (rule that)
  obtain j where j: "ab_by_id ab1 eid = Some j" "core_of j = core_of i"
    using ab1(5) ne cores_Some [OF i(1)] cores_entry [of ab1 eid "core_of i"] by (auto simp: keeps_others_def)
  have j': "nsi_tried_ref j = None" "nsi_new_refs j = nsi_new_refs i"
    using arg_cong [OF j(2), of ec_tried] arg_cong [OF j(2), of ec_new] i(2) by simp_all
  have n: "nsi_new_refs j \<noteq> {}"
    using entry_state(1) [OF inv i(1)] i(2) j'(2) by simp
  obtain ab2 where ab2: "add_new_ref eid (slot_xy slot) ab1 = Some ab2" "same_frame ab1 ab2"
    "cores_of ab2 = (cores_of ab1)(eid \<mapsto> (core_of j)\<lparr>ec_new := insert (slot_xy slot) (nsi_new_refs j)\<rparr>)"
    "book_inv_moving env ({} - {eid}) (ab2\<lparr>ab_new_entries_size := ab_new_entries_size ab2 + (if nsi_new_refs j = {} then 1 else 0)\<rparr>)"
    by (rule add_ref [OF ab1(2) j(1) j'(1) _ ab1(4) slot_xy_valid [OF slot(1,2)]]) (use j'(2) i(3) in simp_all)
  obtain k where k: "ab_by_id ab2 eid = Some k" "core_of k = (core_of j)\<lparr>ec_new := insert (slot_xy slot) (nsi_new_refs j)\<rparr>"
    using ab2(3) cores_entry [of ab2 eid] by auto
  have "(case ab_new_buckets ab (slot_xy slot) of None \<Rightarrow> Some ab | Some other \<Rightarrow> if other = eid then None else clear_new_slot slot True ab) = Some ab1"
    using ne ab1(1) slot(1,2) by (auto simp: clear_new_slot_def split: option.splits)
  then show ?thesis
    by (rule that [OF _ ab2(1) _ _ k(1)]) (use ab2(2,4) ab1(3) n k(2) j(2) j'(2) in \<open>simp_all add: book_inv_def same_frame_def\<close>)
qed

lemma update_existing:
  assumes inv: "book_inv env ab" and i: "ab_by_id ab eid = Some i" and src: "ip_is_routable (env_asio env) source"
  obtains ab' j where "update_entry env now draw eid s source penalty ab = Some ab'" "book_inv env ab'" "ab_last_used_id ab' = ab_last_used_id ab"
    "ab_by_id ab' eid = Some j" "info_endpoint j = info_endpoint i"
proof -
  let ?m = "modify_entry eid (refresh_entry now s penalty) ab"
  let ?e = "refresh_entry now s penalty i"
  have m: "book_inv env ?m" "ab_by_id ?m eid = Some ?e"
    by (rule modify_keep [OF inv i]) (simp_all add: i)
  have ep: "info_endpoint ?e = info_endpoint i"
    by (simp add: refresh_entry_def info_endpoint_def Let_def)
  note st = entry_state [OF m]
  let ?skip = "ns_time (nsi_service ?e) < ns_time s \<or> nsi_tried_ref ?e \<noteq> None \<or> card (nsi_new_refs ?e) = kMaxNewBucketReferences \<or> draw \<noteq> 0"
  have up: "update_entry env now draw eid s source penalty ab =
      (if ?skip then Some ?m else
        do {
          slot \<leftarrow> get_new_slot env ?m ?e source;
          if slot_xy slot \<in> nsi_new_refs ?e then (if ab_new_buckets ?m (slot_xy slot) \<noteq> None then Some ?m else None)
          else
            do {
              ab \<leftarrow> (case ab_new_buckets ?m (slot_xy slot) of None \<Rightarrow> Some ?m | Some other \<Rightarrow> if other = eid then None else clear_new_slot slot True ?m);
              ab \<leftarrow> add_new_ref eid (slot_xy slot) ab;
              Some (if map_option (\<lambda>e. card (nsi_new_refs e)) (ab_by_id ab eid) = Some 1 then ab\<lparr>ab_new_entries_size := ab_new_entries_size ab + 1\<rparr> else ab)
            }
        })"
    unfolding update_entry_def Let_def m(2) option.case using st(1) by simp
  obtain slot where slot: "get_new_slot env ?m ?e source = Some slot" "unat (slot_x slot) < kNewBucketsCount" "unat (slot_y slot) < kBucketSize"
    by (rule new_slot_exists [OF book_invD(5) [OF m(1) [unfolded book_inv_def]] src routable_info(1) [OF m(1) [unfolded book_inv_def] m(2)]]) (rule that)
  have held: "ab_new_buckets ?m (slot_xy slot) = Some eid" if "slot_xy slot \<in> nsi_new_refs ?e"
    using bucket_slots(1) [OF book_invD(1) [OF m(1) [unfolded book_inv_def]] cores_Some [OF m(2)]] that by (simp add: refresh_entry_def Let_def)
  consider (keep) "?skip \<or> slot_xy slot \<in> nsi_new_refs ?e" | (add) "\<not> ?skip" "slot_xy slot \<notin> nsi_new_refs ?e" by blast
  then show ?thesis
  proof cases
    case keep
    then have "update_entry env now draw eid s source penalty ab = Some ?m"
      using slot(1) held unfolding up by (auto simp del: modify_fields)
    then show ?thesis
      using m ep by (intro that [of ?m ?e]) simp_all
  next
    case add
    have lt: "card (nsi_new_refs ?e) < kMaxNewBucketReferences" "nsi_tried_ref ?e = None"
      using add(1) st(3) by linarith+
    obtain ab1 ab' j where r:
      "(case ab_new_buckets ?m (slot_xy slot) of None \<Rightarrow> Some ?m | Some other \<Rightarrow> if other = eid then None else clear_new_slot slot True ?m) = Some ab1"
      "add_new_ref eid (slot_xy slot) ab1 = Some ab'" "book_inv env ab'" "ab_last_used_id ab' = ab_last_used_id ?m" "ab_by_id ab' eid = Some j"
      "core_of j = (core_of ?e)\<lparr>ec_new := insert (slot_xy slot) (nsi_new_refs ?e)\<rparr>"
      by (rule further_ref [OF m lt(2,1) slot(2,3) add(2)]) (rule that)
    have j: "nsi_new_refs j = insert (slot_xy slot) (nsi_new_refs ?e)" "info_endpoint j = info_endpoint ?e"
      using arg_cong [OF r(6), of ec_new] arg_cong [OF r(6), of ec_endpoint] ep by simp_all
    have "card (nsi_new_refs j) \<noteq> 1"
      using j(1) add(2) st(1,2) lt(2) by simp
    then have "update_entry env now draw eid s source penalty ab = Some ab'"
      using add slot(1) r(1,2,5) unfolding up by simp
    then show ?thesis
      using r(3,4,5) j(2) ep by (intro that [of ab' j]) simp_all
  qed
qed

text \<open>From a source that is not routable an entry is refreshed at most: no slot is computed.\<close>

lemma update_unroutable:
  assumes inv: "book_inv env ab" and i: "ab_by_id ab eid = Some i" and src: "\<not> ip_is_routable (env_asio env) source"
    and u: "update_entry env now draw eid s source penalty ab = Some ab'"
  shows "ab' = modify_entry eid (refresh_entry now s penalty) ab"
proof -
  have "get_new_slot env ab'' e source = None" for ab'' e
    using src by (simp add: get_new_slot_def compute_group_def)
  then show ?thesis
    using u i by (simp add: update_entry_def Let_def split: if_splits)
qed

lemma slot_routable:
  assumes "get_new_slot env ab i source = Some slot"
  shows "ip_is_routable (env_asio env) source" "ip_is_routable (env_asio env) (ep_address (info_endpoint i))"
  using assms by (auto simp: get_new_slot_def compute_group_def bind_eq_Some_conv split: if_splits)

text \<open>What the insertion or update of one service promises.\<close>

definition inserted_one :: "ab_env \<Rightarrow> ip_endpoint \<Rightarrow> address_book \<Rightarrow> bool \<Rightarrow> address_book \<Rightarrow> bool" where
  "inserted_one env e ab added ab' \<longleftrightarrow> book_inv env ab' \<and> ab_contains e ab' \<and> (added \<longleftrightarrow> \<not> ab_contains e ab) \<and>
    ab_last_used_id ab' = (if added then ab_last_used_id ab + 1 else ab_last_used_id ab)"

lemma containsI:
  assumes "book_inv env ab" "ab_by_id ab eid = Some i" "info_endpoint i = e"
  shows "ab_contains e ab"
  using book_invD(3) [OF assms(1) [unfolded book_inv_def]] assms(2,3) cores_Some [OF assms(2)] unfolding index_ok_def ab_contains_def
  by (metis core_of_sel(3) option.distinct(1))

lemma insert_one_new:
  assumes inv: "book_inv env ab" and e: "ab_by_endpoint ab (ns_endpoint s) = None" and r: "routable_service env s" "ip_is_routable (env_asio env) source"
    and last: "ab_last_used_id ab < ab_last_used_id ab + 1"
  obtains ab' where "insert_or_update_impl env now draw s source penalty ab = Some (True, ab')" "inserted_one env (ns_endpoint s) ab True ab'"
proof -
  let ?p = "if source = ep_address (ns_endpoint s) then 0 else penalty"
  obtain ab1 i where ab1: "insert_entry env s source ?p ab = Some (True, ab_last_used_id ab, ab1)" "book_inv env ab1"
    "ab_by_id ab1 (ab_last_used_id ab) = Some i" "info_endpoint i = ns_endpoint s" "ab_last_used_id ab1 = ab_last_used_id ab + 1"
    by (rule insert_new [OF inv e r last]) (rule that)
  let ?f = "nsi_service_update (ns_time_update (\<lambda>_. max kTimeInit (ns_time s - ?p)))"
  let ?r = "modify_entry (ab_last_used_id ab) ?f ab1"
  have r: "book_inv env ?r"
    by (rule modify_keep [OF ab1(2,3)]) (simp_all add: core_of_def info_endpoint_def)
  have "ab_contains (ns_endpoint s) ?r"
    by (rule containsI [OF r, of "ab_last_used_id ab" "?f i"]) (use ab1(3,4) in \<open>simp_all add: info_endpoint_def\<close>)
  then have "inserted_one env (ns_endpoint s) ab True ?r"
    using r e ab1(5) by (simp add: inserted_one_def ab_contains_def)
  moreover have l: "lookup_entry_by_endpoint (ns_endpoint s) ab = None"
    using e lookup_endpoint(2) [OF inv] by simp
  moreover have "insert_or_update_impl env now draw s source penalty ab = Some (True, ?r)"
    unfolding insert_or_update_impl_def Let_def l option.case ab1(1) by simp
  ultimately show ?thesis
    by (intro that [of ?r])
qed

lemma insert_one_known:
  assumes inv: "book_inv env ab" and e: "ab_by_endpoint ab (ns_endpoint s) \<noteq> None"
    and u: "insert_or_update_impl env now draw s source penalty ab = Some (added, ab')"
  shows "inserted_one env (ns_endpoint s) ab added ab'"
proof -
  let ?p = "if source = ep_address (ns_endpoint s) then 0 else penalty"
  obtain i eid where l: "lookup_entry_by_endpoint (ns_endpoint s) ab = Some (i, eid)"
    using e lookup_endpoint(2) [OF inv, of "ns_endpoint s"] by auto
  then have i: "ab_by_id ab eid = Some i" "info_endpoint i = ns_endpoint s"
    using lookup_endpoint(1) [OF inv] by simp_all
  have up: "update_entry env now draw eid s source ?p ab = Some ab'" "\<not> added"
    using u by (simp_all add: insert_or_update_impl_def l Let_def)
  have "\<exists>j. book_inv env ab' \<and> ab_last_used_id ab' = ab_last_used_id ab \<and> ab_by_id ab' eid = Some j \<and> info_endpoint j = info_endpoint i"
  proof (cases "ip_is_routable (env_asio env) source")
    case True
    show ?thesis
      by (rule update_existing [OF inv i(1) True, of now draw s ?p]) (use up(1) in auto)
  next
    case False
    note ab' = update_unroutable [OF inv i(1) False up(1)]
    have "book_inv env ab'"
      unfolding ab' by (rule modify_keep [OF inv i(1)]) simp_all
    then show ?thesis
      using i(1) by (simp add: ab' refresh_entry_def info_endpoint_def Let_def)
  qed
  then show ?thesis
    using up(2) i(2) e containsI by (auto simp: inserted_one_def ab_contains_def)
qed

lemma insert_routable:
  assumes "insert_entry env s source penalty ab = Some r"
  shows "routable_service env s" "ip_is_routable (env_asio env) source"
proof -
  obtain slot ab1 i where "get_new_slot env ab1 i source = Some slot" "info_endpoint i = ns_endpoint s"
    using assms by (cases "get_new_slot env (ab\<lparr>ab_last_used_id := ab_last_used_id ab + 1\<rparr>) (node_service_info_new (s\<lparr>ns_time := ns_time s - penalty\<rparr>) source) source")
      (auto simp: insert_entry_def Let_def info_endpoint_def node_service_info_new_def)
  then show "routable_service env s" "ip_is_routable (env_asio env) source"
    using slot_routable [of env ab1 i source slot] by (simp_all add: routable_service_def)
qed

lemma insert_one:
  assumes inv: "book_inv env ab" and last: "ab_last_used_id ab < ab_last_used_id ab + 1"
    and u: "insert_or_update_impl env now draw s source penalty ab = Some (added, ab')"
  shows "inserted_one env (ns_endpoint s) ab added ab'"
proof (cases "ab_by_endpoint ab (ns_endpoint s)")
  case None
  then have l: "lookup_entry_by_endpoint (ns_endpoint s) ab = None"
    using lookup_endpoint(2) [OF inv] by simp
  let ?p = "if source = ep_address (ns_endpoint s) then 0 else penalty"
  have "insert_entry env s source ?p ab \<noteq> None"
    using u unfolding insert_or_update_impl_def Let_def l option.case by (cases "insert_entry env s source ?p ab") simp_all
  then have r: "routable_service env s" "ip_is_routable (env_asio env) source"
    using insert_routable [of env s source ?p ab] by (auto simp del: split_paired_Ex)
  show ?thesis
    by (rule insert_one_new [OF inv None r last, of now draw penalty]) (use u in simp)
next
  case (Some eid)
  show ?thesis by (rule insert_one_known [OF inv _ u]) (simp add: Some)
qed

lemma insert_one_succeeds:
  assumes inv: "book_inv env ab" and last: "ab_last_used_id ab < ab_last_used_id ab + 1"
    and r: "routable_service env s" "ip_is_routable (env_asio env) source"
  obtains added ab' where "insert_or_update_impl env now draw s source penalty ab = Some (added, ab')"
proof (cases "lookup_entry_by_endpoint (ns_endpoint s) ab")
  case None
  then have e: "ab_by_endpoint ab (ns_endpoint s) = None"
    using lookup_endpoint(2) [OF inv] by simp
  show ?thesis
    by (rule insert_one_new [OF inv e r last, of now draw penalty]) (rule that)
next
  case (Some p)
  obtain i eid where p: "p = (i, eid)" by fastforce
  let ?p = "if source = ep_address (ns_endpoint s) then 0 else penalty"
  have i: "ab_by_id ab eid = Some i" using Some p lookup_endpoint(1) [OF inv] by simp
  obtain ab' where u: "update_entry env now draw eid s source ?p ab = Some ab'"
    by (rule update_existing [OF inv i r(2)]) (rule that)
  show ?thesis
    by (rule that [of False ab']) (unfold insert_or_update_impl_def Let_def Some p option.case prod.case u, simp)
qed

end
