(* ===== verification/Address_Book_Ops.thy ===== *)
theory Address_Book_Ops
  imports Address_Book_Inv
begin

text \<open>
  The public operations of the address book (infra/network/addressbook.cpp): from a book that satisfies the invariant
  each of them returns, fails no assertion and gives a book that satisfies it again; what an insertion, a connection
  result and a random selection promise to the caller; and the books that sequences of operations reach.
\<close>

section \<open>Insertion of many services\<close>

lemma no_wrap: "unat (w :: 32 word) + 1 < 2 ^ 32 \<Longrightarrow> w < w + 1 \<and> unat (w + 1) = unat w + 1"
  by (simp add: word_less_nat_alt unat_add_lem [THEN iffD1])

lemma insert_services_skip:
  "ns_services s AND kNodeNetwork = 0 \<or> ns_endpoint s \<in> seen \<Longrightarrow>
    insert_services env now draws source penalty (s # services) seen kept ab =
    insert_services env now (draws \<circ> Suc) source penalty services seen kept ab"
  by auto

lemma insert_services_step:
  "\<not> (ns_services s AND kNodeNetwork = 0 \<or> ns_endpoint s \<in> seen) \<Longrightarrow>
    insert_or_update_impl env now (draws 0) (adjust_martian_date now s) source penalty ab = Some (added, ab1) \<Longrightarrow>
    insert_services env now draws source penalty (s # services) seen kept ab =
    insert_services env now (draws \<circ> Suc) source penalty services (insert (ns_endpoint (adjust_martian_date now s)) seen)
      (if added then kept @ [adjust_martian_date now s] else kept) ab1"
  by (simp add: Let_def)

lemma insert_services_inv:
  assumes "book_inv env ab" "unat (ab_last_used_id ab) + length services < 2 ^ 32"
    and "insert_services env now draws source penalty services seen kept ab = Some (kept', ab')"
  shows "book_inv env ab' \<and> (\<exists>new. kept' = kept @ new \<and> length new \<le> length services \<and> unat (ab_last_used_id ab') = unat (ab_last_used_id ab) + length new)"
  using assms
proof (induction services arbitrary: draws seen kept ab)
  case (Cons s services)
  note ih = Cons.IH and inv = Cons.prems(1) and fit = Cons.prems(2) and ins = Cons.prems(3)
  show ?case
  proof (cases "ns_services s AND kNodeNetwork = 0 \<or> ns_endpoint s \<in> seen")
    case True
    have "insert_services env now (draws \<circ> Suc) source penalty services seen kept ab = Some (kept', ab')"
      using ins unfolding insert_services_skip [OF True] .
    from ih [OF inv _ this] fit show ?thesis
      by fastforce
  next
    case False
    let ?s = "adjust_martian_date now s"
    obtain added ab1 where u: "insert_or_update_impl env now (draws 0) ?s source penalty ab = Some (added, ab1)"
      and rest: "insert_services env now (draws \<circ> Suc) source penalty services (insert (ns_endpoint ?s) seen) (if added then kept @ [?s] else kept) ab1 = Some (kept', ab')"
      using ins False by (cases "insert_or_update_impl env now (draws 0) ?s source penalty ab") (auto simp: Let_def)
    have w: "ab_last_used_id ab < ab_last_used_id ab + 1" "unat (ab_last_used_id ab + 1) = unat (ab_last_used_id ab) + 1"
      using no_wrap [of "ab_last_used_id ab"] fit by simp_all
    have i: "book_inv env ab1" "ab_last_used_id ab1 = (if added then ab_last_used_id ab + 1 else ab_last_used_id ab)"
      using insert_one [OF inv w(1) u] by (simp_all add: inserted_one_def)
    have "unat (ab_last_used_id ab1) + length services < 2 ^ 32"
      using i(2) w(2) fit by simp
    from ih [OF i(1) this rest] i(2) w(2) show ?thesis
      by (cases added) auto
  qed
qed simp

lemma insert_services_succeeds:
  assumes "book_inv env ab" "unat (ab_last_used_id ab) + length services < 2 ^ 32"
    and "ip_is_routable (env_asio env) source" "\<forall>s \<in> set services. routable_service env s"
  shows "\<exists>kept' ab'. insert_services env now draws source penalty services seen kept ab = Some (kept', ab')"
  using assms
proof (induction services arbitrary: draws seen kept ab)
  case (Cons s services)
  note ih = Cons.IH and inv = Cons.prems(1) and fit = Cons.prems(2) and r = Cons.prems(3,4)
  show ?case
  proof (cases "ns_services s AND kNodeNetwork = 0 \<or> ns_endpoint s \<in> seen")
    case True
    show ?thesis
      unfolding insert_services_skip [OF True] by (rule ih [OF inv]) (use fit r in simp_all)
  next
    case False
    let ?s = "adjust_martian_date now s"
    have w: "ab_last_used_id ab < ab_last_used_id ab + 1" "unat (ab_last_used_id ab + 1) = unat (ab_last_used_id ab) + 1"
      using no_wrap [of "ab_last_used_id ab"] fit by simp_all
    have rs: "routable_service env ?s"
      using r(2) by (simp add: routable_service_def adjust_martian_date_def)
    obtain added ab1 where u: "insert_or_update_impl env now (draws 0) ?s source penalty ab = Some (added, ab1)"
      by (rule insert_one_succeeds [OF inv w(1) rs r(1)]) (rule that)
    have i: "book_inv env ab1" "ab_last_used_id ab1 = (if added then ab_last_used_id ab + 1 else ab_last_used_id ab)"
      using insert_one [OF inv w(1) u] by (simp_all add: inserted_one_def)
    have "unat (ab_last_used_id ab1) + length services < 2 ^ 32"
      using i(2) w(2) fit by simp
    then show ?thesis
      unfolding insert_services_step [where draws = draws, OF False u] by (rule ih [OF i(1) _ r(1)]) (use r(2) in simp)
  qed
qed simp

section \<open>Random samples\<close>

text \<open>The entries of two books are the same but for their positions in the vector of ids.\<close>

definition same_entries :: "address_book \<Rightarrow> address_book \<Rightarrow> bool" where
  "same_entries ab ab' \<longleftrightarrow>
    (\<forall>eid. map_option (nsi_random_pos_update (\<lambda>_. 0)) (ab_by_id ab' eid) = map_option (nsi_random_pos_update (\<lambda>_. 0)) (ab_by_id ab eid))"

definition eligible :: "int \<Rightarrow> ip_address_type option \<Rightarrow> node_service_info \<Rightarrow> bool" where
  "eligible now type i \<longleftrightarrow> (type = None \<or> type = Some (ip_get_type (ep_address (info_endpoint i)))) \<and> \<not> is_bad now i"

lemma eligible_pos: "eligible now type (nsi_random_pos_update f i) = eligible now type i"
  by (simp add: eligible_def info_endpoint_def is_bad_def)

definition eligible_services :: "int \<Rightarrow> ip_address_type option \<Rightarrow> address_book \<Rightarrow> node_service set" where
  "eligible_services now type ab = {nsi_service i |eid i. ab_by_id ab eid = Some i \<and> eligible now type i}"

lemma same_entries_refl [simp]: "same_entries ab ab"
  by (simp add: same_entries_def)

lemma same_entries_trans: "same_entries ab ab' \<Longrightarrow> same_entries ab' ab'' \<Longrightarrow> same_entries ab ab''"
  by (simp add: same_entries_def)

lemma same_entry:
  assumes "same_entries ab ab'" "ab_by_id ab' eid = Some i"
  obtains j where "ab_by_id ab eid = Some j" "nsi_service j = nsi_service i" "eligible now type j = eligible now type i"
proof -
  have "map_option (nsi_random_pos_update (\<lambda>_. 0)) (ab_by_id ab eid) = Some (nsi_random_pos_update (\<lambda>_. 0) i)"
    using assms unfolding same_entries_def by (metis option.simps(9))
  then obtain j where j: "ab_by_id ab eid = Some j" "nsi_random_pos_update (\<lambda>_. 0) j = nsi_random_pos_update (\<lambda>_. 0) i"
    by auto
  show ?thesis
    using that [OF j(1)] arg_cong [OF j(2), of nsi_service] arg_cong [OF j(2), of "eligible now type"] by (simp add: eligible_pos)
qed

lemma same_entries_sym: "same_entries ab ab' \<Longrightarrow> same_entries ab' ab"
  by (simp add: same_entries_def)

lemma same_eligible: "same_entries ab ab' \<Longrightarrow> eligible_services now type ab' = eligible_services now type ab"
proof -
  have "eligible_services now type ab' \<subseteq> eligible_services now type ab" if same: "same_entries ab ab'" for ab ab'
  proof
    fix s
    assume "s \<in> eligible_services now type ab'"
    then obtain eid i where i: "s = nsi_service i" "ab_by_id ab' eid = Some i" "eligible now type i"
      by (auto simp: eligible_services_def)
    obtain j where "ab_by_id ab eid = Some j" "nsi_service j = nsi_service i" "eligible now type j = eligible now type i"
      by (rule same_entry [OF same i(2)])
    then show "s \<in> eligible_services now type ab"
      using i by (auto simp: eligible_services_def intro!: exI [of _ eid] exI [of _ j])
  qed
  from this [of ab ab'] this [of ab' ab] same_entries_sym show "same_entries ab ab' \<Longrightarrow> eligible_services now type ab' = eligible_services now type ab"
    by blast
qed

lemma swap_same_entries:
  assumes "swap_randomly_ordered_ids i j ab = Some ab'"
  shows "same_entries ab ab'"
  using assms by (auto simp: swap_randomly_ordered_ids_def same_entries_def Let_def option.map_comp comp_def split: if_splits)

lemma swap_prefix:
  assumes "swap_randomly_ordered_ids i j ab = Some ab'" "k < unat i" "k < unat j"
  shows "ab_randomly_ordered_ids ab' ! k = ab_randomly_ordered_ids ab ! k"
  using assms by (auto simp: swap_randomly_ordered_ids_def Let_def split: if_splits)

lemma swap_inv:
  assumes inv: "book_inv env ab" and i: "unat i < length (ab_randomly_ordered_ids ab)" "unat j < length (ab_randomly_ordered_ids ab)"
  obtains ab' where "swap_randomly_ordered_ids i j ab = Some ab'" "book_inv env ab'" "same_entries ab ab'"
    "length (ab_randomly_ordered_ids ab') = length (ab_randomly_ordered_ids ab)"
    "\<And>k. k < unat i \<Longrightarrow> k < unat j \<Longrightarrow> ab_randomly_ordered_ids ab' ! k = ab_randomly_ordered_ids ab ! k"
proof -
  note inv' = inv [unfolded book_inv_def]
  obtain ab' where s: "swap_randomly_ordered_ids i j ab = Some ab'" "same_frame ab ab'"
    "order_ok (ab_randomly_ordered_ids ab') (positions_of ab')" "cores_of ab' = cores_of ab"
    "length (ab_randomly_ordered_ids ab') = length (ab_randomly_ordered_ids ab)" "ab_new_buckets ab' = ab_new_buckets ab"
    "ab_by_endpoint ab' = ab_by_endpoint ab" "ab_new_entries_size ab' = ab_new_entries_size ab"
    by (rule swap_ids [OF book_invD(4) [OF inv'] i]) (rule that)
  have "book_inv env ab'"
    using inv' s(2-8) unfolding book_inv_def book_inv_moving_def same_frame_def by simp
  then show ?thesis
    by (rule that [OF s(1) _ swap_same_entries [OF s(1)] s(5) swap_prefix [OF s(1)]])
qed

text \<open>Two entries of a book with one endpoint are the same.\<close>

lemma endpoint_unique:
  assumes inv: "book_inv env ab" and "ab_by_id ab x = Some i" "ab_by_id ab y = Some j" "info_endpoint i = info_endpoint j"
  shows "x = y \<and> i = j"
proof -
  have "lookup_entry_by_endpoint (info_endpoint j) ab = Some (i, x)" "lookup_entry_by_endpoint (info_endpoint j) ab = Some (j, y)"
    using lookup_endpoint(1) [OF inv] assms(2-4) by simp_all
  then show ?thesis by simp
qed

lemma eligible_of_endpoint:
  assumes inv: "book_inv env ab" and "s \<in> eligible_services now type ab" "ab_by_id ab eid = Some i" "ns_endpoint s = info_endpoint i"
  shows "s = nsi_service i"
proof -
  obtain x j where j: "s = nsi_service j" "ab_by_id ab x = Some j"
    using assms(2) by (auto simp: eligible_services_def)
  with endpoint_unique [OF inv j(2) assms(3)] assms(4) show ?thesis by (simp add: info_endpoint_def)
qed

text \<open>A sample: services of the book that may be advertised, each once, all of them when fewer than \<open>count\<close> are taken.\<close>

definition sample :: "int \<Rightarrow> ip_address_type option \<Rightarrow> nat \<Rightarrow> address_book \<Rightarrow> node_service list \<Rightarrow> bool" where
  "sample now type count ab ret \<longleftrightarrow> set ret \<subseteq> eligible_services now type ab \<and> distinct (map ns_endpoint ret) \<and> length ret \<le> count \<and>
    (length ret < count \<longrightarrow> eligible_services now type ab \<subseteq> set ret)"

text \<open>The loop: the ids before \<open>i\<close> are settled.\<close>

definition settled :: "int \<Rightarrow> ip_address_type option \<Rightarrow> nat \<Rightarrow> address_book \<Rightarrow> nat \<Rightarrow> node_service list \<Rightarrow> bool" where
  "settled now type count ab i ret \<longleftrightarrow> set ret \<subseteq> eligible_services now type ab \<and> distinct (map ns_endpoint ret) \<and> length ret \<le> count \<and>
    (\<forall>k e. k < i \<longrightarrow> ab_by_id ab (ab_randomly_ordered_ids ab ! k) = Some e \<longrightarrow> eligible now type e \<longrightarrow> nsi_service e \<in> set ret)"

lemma settled_sample:
  assumes inv: "book_inv env ab" and s: "settled now type count ab (length (ab_randomly_ordered_ids ab)) ret"
  shows "sample now type count ab ret"
proof -
  have "nsi_service e \<in> set ret" if e: "ab_by_id ab eid = Some e" "eligible now type e" for eid e
  proof -
    have "eid \<in> set (ab_randomly_ordered_ids ab)"
      using book_invD(4) [OF inv [unfolded book_inv_def]] e(1) by (auto simp: order_ok_def positions_of_def)
    then obtain k where "k < length (ab_randomly_ordered_ids ab)" "ab_randomly_ordered_ids ab ! k = eid"
      by (auto simp: in_set_conv_nth)
    then show ?thesis using s e by (auto simp: settled_def)
  qed
  then have "eligible_services now type ab \<subseteq> set ret"
    by (auto simp: eligible_services_def)
  then show ?thesis using s by (simp add: sample_def settled_def)
qed

lemma settled_swap:
  assumes s: "settled now type count ab i ret" and e: "same_entries ab ab'"
    and k: "\<And>k. k < i \<Longrightarrow> ab_randomly_ordered_ids ab' ! k = ab_randomly_ordered_ids ab ! k"
  shows "settled now type count ab' i ret"
  unfolding settled_def
proof (intro conjI allI impI)
  fix k x
  assume x: "k < i" "ab_by_id ab' (ab_randomly_ordered_ids ab' ! k) = Some x" "eligible now type x"
  obtain y where y: "ab_by_id ab (ab_randomly_ordered_ids ab' ! k) = Some y" "nsi_service y = nsi_service x" "eligible now type y = eligible now type x"
    by (rule same_entry [OF e x(2)])
  then show "nsi_service x \<in> set ret"
    using s x k [OF x(1)] unfolding settled_def by metis
qed (use s same_eligible [OF e] in \<open>simp_all add: settled_def\<close>)

lemma settled_step:
  assumes inv: "book_inv env ab" and s: "settled now type count ab i ret" and e: "ab_by_id ab (ab_randomly_ordered_ids ab ! i) = Some e"
  shows "\<not> eligible now type e \<or> info_endpoint e \<in> ns_endpoint ` set ret \<Longrightarrow> settled now type count ab (Suc i) ret"
    "eligible now type e \<Longrightarrow> info_endpoint e \<notin> ns_endpoint ` set ret \<Longrightarrow> length ret < count \<Longrightarrow> settled now type count ab (Suc i) (ret @ [nsi_service e])"
proof -
  assume *: "\<not> eligible now type e \<or> info_endpoint e \<in> ns_endpoint ` set ret"
  have "nsi_service e \<in> set ret" if "eligible now type e"
    using * that eligible_of_endpoint [OF inv _ e] s by (auto simp: settled_def)
  then show "settled now type count ab (Suc i) ret"
    using s e by (auto simp: settled_def less_Suc_eq)
next
  assume "eligible now type e" "info_endpoint e \<notin> ns_endpoint ` set ret" "length ret < count"
  then show "settled now type count ab (Suc i) (ret @ [nsi_service e])"
    using s e by (auto simp: settled_def less_Suc_eq eligible_services_def info_endpoint_def)
qed

lemma random_services_loop_sample:
  assumes "book_inv env ab" "settled now type count ab i ret" "selected = ns_endpoint ` set ret"
    and "n = length (ab_randomly_ordered_ids ab)" "i \<le> n" "\<And>k. k < n \<Longrightarrow> k + draws k < n" "is = [i..<n]"
  shows "\<exists>ret' ab'. random_services_loop now draws count type is selected ret ab = Some (ret', ab') \<and> book_inv env ab' \<and>
    same_entries ab ab' \<and> sample now type count ab ret'"
  using assms
proof (induction "is" arbitrary: i selected ret ab)
  case Nil
  then have "i = length (ab_randomly_ordered_ids ab)" by (auto simp: eq_commute [of "[]"])
  with Nil show ?case using settled_sample [of env ab now type count ret] by simp
next
  case (Cons k "is")
  note inv = Cons.prems(1) and st = Cons.prems(2) and sel = Cons.prems(3) and n = Cons.prems(4) and dr = Cons.prems(6)
  have "i < n" using Cons.prems(5,7) by (cases "i = n") auto
  then have k: "k = i" "i < n" "is = [Suc i..<n]"
    using Cons.prems(7) upt_conv_Cons [of i n] by simp_all
  show ?case
  proof (cases "length ret \<ge> count")
    case True
    then have "sample now type count ab ret"
      using st by (simp add: sample_def settled_def)
    then show ?thesis
      using True inv by simp
  next
    case False
    have l: "n \<le> 2 ^ 32 - 1"
      using order_length [OF book_invD(4) [OF inv [unfolded book_inv_def]]] n by simp
    have u: "unat (of_nat i :: 32 word) = i" "unat (of_nat (draws i + i) :: 32 word) = draws i + i"
      using k(2) dr [OF k(2)] l unfolding unat_of_nat by simp_all
    obtain ab1 where s: "swap_randomly_ordered_ids (of_nat i) (of_nat (draws i + i)) ab = Some ab1" "book_inv env ab1" "same_entries ab ab1"
      "length (ab_randomly_ordered_ids ab1) = length (ab_randomly_ordered_ids ab)"
      "\<And>k. k < i \<Longrightarrow> k < draws i + i \<Longrightarrow> ab_randomly_ordered_ids ab1 ! k = ab_randomly_ordered_ids ab ! k"
      by (rule swap_inv [OF inv, of "of_nat i" "of_nat (draws i + i)"]) (use k(2) dr [OF k(2)] n that in \<open>unfold u, simp_all add: add.commute\<close>)
    have st1: "settled now type count ab1 i ret"
      by (rule settled_swap [OF st s(3)]) (use s(5) in simp)
    have "ab_randomly_ordered_ids ab1 ! i \<in> dom (positions_of ab1)"
      using book_invD(4) [OF s(2) [unfolded book_inv_def]] s(4) k(2) n by (auto simp: order_ok_def)
    then obtain e where e: "ab_by_id ab1 (ab_randomly_ordered_ids ab1 ! i) = Some e"
      by (auto simp: positions_of_def)
    have el: "(type \<noteq> None \<and> Some (ip_get_type (ep_address (info_endpoint e))) \<noteq> type) \<or> is_bad now e \<or> info_endpoint e \<in> selected \<longleftrightarrow>
        \<not> eligible now type e \<or> info_endpoint e \<in> ns_endpoint ` set ret"
      using sel by (auto simp: eligible_def)
    have loop: "random_services_loop now draws count type (k # is) selected ret ab =
        (if \<not> eligible now type e \<or> info_endpoint e \<in> ns_endpoint ` set ret then random_services_loop now draws count type is selected ret ab1
         else random_services_loop now draws count type is (insert (info_endpoint e) selected) (ret @ [nsi_service e]) ab1)"
      using False by (simp only: random_services_loop.simps k(1) s(1) e option.case el if_False)
    have i1: "n = length (ab_randomly_ordered_ids ab1)" "Suc i \<le> n"
      using n s(4) k(2) by simp_all
    have same: "sample now type count ab ret' = sample now type count ab1 ret'" for ret'
      using same_eligible [OF s(3), of now type] by (simp add: sample_def)
    show ?thesis
    proof (cases "\<not> eligible now type e \<or> info_endpoint e \<in> ns_endpoint ` set ret")
      case True
      from Cons.IH [OF s(2) settled_step(1) [OF s(2) st1 e True] sel i1 dr k(3)] True show ?thesis
        unfolding loop same by (auto intro: same_entries_trans [OF s(3)])
    next
      case el: False
      have sel': "insert (info_endpoint e) selected = ns_endpoint ` set (ret @ [nsi_service e])"
        using sel by (simp add: info_endpoint_def)
      have st2: "settled now type count ab1 (Suc i) (ret @ [nsi_service e])"
        by (rule settled_step(2) [OF s(2) st1 e]) (use el False in auto)
      from Cons.IH [OF s(2) st2 sel' i1 dr k(3)] el show ?thesis
        unfolding loop same by (auto intro: same_entries_trans [OF s(3)])
    qed
  qed
qed

section \<open>Random selection of an endpoint\<close>

lemma bucket_entries:
  assumes inv: "book_inv env ab" and b: "b = ab_new_buckets ab \<or> b = ab_tried_buckets ab" and eid: "eid \<in> set (bucket_ids b)"
  shows "\<exists>i. ab_by_id ab eid = Some i"
proof -
  obtain a where "b a = Some eid"
    using eid by (auto simp: bucket_ids_def)
  then show ?thesis
    using b buckets_okD(1,2) [OF book_invD(1) [OF inv [unfolded book_inv_def]]] cores_entry by blast
qed

definition selected_ok :: "ip_address_type option \<Rightarrow> address_book \<Rightarrow> (ip_endpoint \<times> int) option \<Rightarrow> bool" where
  "selected_ok type ab r \<longleftrightarrow> (case r of None \<Rightarrow> True | Some (e, t) \<Rightarrow>
    \<exists>eid i. ab_by_id ab eid = Some i \<and> e = info_endpoint i \<and> t = ns_time (nsi_service i) \<and>
      (type = None \<or> type = Some (ip_get_type (ep_address e))))"

lemma selected_ok_recent: "selected_ok type (ab\<lparr>ab_recently_selected := recent\<rparr>) r = selected_ok type ab r"
  by (simp add: selected_ok_def split: option.split prod.split)

lemma select_loop_returns:
  assumes "\<And>k. draw_index draws k < length bucket" "\<And>eid. eid \<in> set bucket \<Longrightarrow> \<exists>i. ab_by_id ab eid = Some i"
  shows "\<exists>r recent. select_loop now draws bucket items type attempt factor ab = Some (r, ab\<lparr>ab_recently_selected := recent\<rparr>) \<and> selected_ok type ab r"
  using assms
proof (induction now draws bucket items type attempt factor ab rule: select_loop.induct)
  case (1 now draws bucket items type attempt factor ab)
  note idx = "1.prems"(1) and found = "1.prems"(2)
  have here: "\<exists>recent. ab = ab\<lparr>ab_recently_selected := recent\<rparr>"
    by (rule exI [of _ "ab_recently_selected ab"]) simp
  show ?case
  proof (cases "attempt \<ge> kSelectAttempts")
    case True
    then show ?thesis using here by (subst select_loop.simps) (auto simp: selected_ok_def)
  next
    case False
    obtain i where i: "ab_by_id ab (bucket ! draw_index draws attempt) = Some i"
      using found nth_mem [OF idx] by blast
    let ?lru = "lru_insert (info_endpoint i) (ab_recently_selected ab)"
    let ?ab = "ab\<lparr>ab_recently_selected := snd ?lru\<rparr>"
    consider (type) "type \<noteq> None \<and> Some (ip_get_type (ep_address (info_endpoint i))) \<noteq> type"
      | (hit) "\<not> (type \<noteq> None \<and> Some (ip_get_type (ep_address (info_endpoint i))) \<noteq> type)"
        "int (draw_bits draws attempt) < \<lfloor>factor * get_chance now i * 2 ^ 30\<rfloor>"
      | (miss) "\<not> (type \<noteq> None \<and> Some (ip_get_type (ep_address (info_endpoint i))) \<noteq> type)"
        "\<not> int (draw_bits draws attempt) < \<lfloor>factor * get_chance now i * 2 ^ 30\<rfloor>"
      by blast
    then show ?thesis
    proof cases
      case type
      then show ?thesis
        using "1.IH"(1) [OF False i type idx found] False i by (subst select_loop.simps) simp
    next
      case miss
      then show ?thesis
        using "1.IH"(3) [OF False i miss idx found] False i by (subst select_loop.simps) auto
    next
      case hit
      have r: "select_loop now draws bucket items type attempt factor ab =
          (if \<not> fst ?lru \<and> items > lru_size (snd ?lru) then select_loop now draws bucket items type (attempt + 1) factor ?ab
           else Some (Some (info_endpoint i, ns_time (nsi_service i)), ?ab))"
        using False i hit by (subst select_loop.simps) (auto simp: case_prod_unfold Let_def)
      have ok: "selected_ok type ab (Some (info_endpoint i, ns_time (nsi_service i)))"
        using hit(1) i by (auto simp: selected_ok_def)
      have "\<exists>r recent. select_loop now draws bucket items type (attempt + 1) factor ?ab = Some (r, ?ab\<lparr>ab_recently_selected := recent\<rparr>) \<and> selected_ok type ?ab r"
        if "\<not> fst ?lru \<and> items > lru_size (snd ?lru)"
        by (rule "1.IH"(2) [OF False i hit]) (use that idx found in \<open>auto simp: prod_eq_iff\<close>)
      then show ?thesis
        unfolding r using ok by (cases "\<not> fst ?lru \<and> items > lru_size (snd ?lru)") (auto simp: selected_ok_recent)
    qed
  qed
qed

section \<open>The operations of a book\<close>

lemma book_inv_recent: "book_inv env (ab\<lparr>ab_recently_selected := recent\<rparr>) = book_inv env ab"
  by (simp add: book_inv_def book_inv_moving_def)

lemma book_inv_new: "length key = 16 \<Longrightarrow> book_inv env (address_book_new key)"
  by (simp add: book_inv_def book_inv_moving_def address_book_new_def buckets_ok_def sizes_ok_def index_ok_def order_ok_def cores_of_def [abs_def]
    positions_of_def [abs_def] new_ids_def tried_ids_def)

text \<open>What a connection result promises: a known endpoint becomes a tried entry, an unknown one changes nothing.\<close>

definition connection_recorded :: "ab_env \<Rightarrow> ip_endpoint \<Rightarrow> address_book \<Rightarrow> (bool \<times> address_book) option \<Rightarrow> bool" where
  "connection_recorded env remote ab r \<longleftrightarrow>
    (\<exists>known ab'. r = Some (known, ab') \<and> known = ab_contains remote ab \<and> book_inv env ab' \<and>
      (if known then \<exists>eid i. lookup_entry_by_endpoint remote ab' = Some (i, eid) \<and> nsi_tried_ref i \<noteq> None else ab' = ab))"

lemma connection_recordedD:
  "connection_recorded env remote ab r \<Longrightarrow> r \<noteq> None"
  "connection_recorded env remote ab r \<Longrightarrow> r = Some (known, ab') \<Longrightarrow> book_inv env ab'"
  by (auto simp: connection_recorded_def)

lemma record_connection:
  assumes inv: "book_inv env ab" and f: "\<And>i. core_of (f i) = core_of i" "\<And>i. nsi_random_pos (f i) = nsi_random_pos i"
  shows "connection_recorded env remote ab (case lookup_entry_by_endpoint remote ab of None \<Rightarrow> Some (False, ab)
    | Some (i, eid) \<Rightarrow> ensure_tried env eid i (modify_entry eid f ab))"
proof (cases "lookup_entry_by_endpoint remote ab")
  case None
  then have "ab_by_endpoint ab remote = None" using lookup_endpoint(2) [OF inv] by simp
  with None inv show ?thesis by (auto simp: connection_recorded_def ab_contains_def)
next
  case (Some p)
  obtain i eid where p: "p = (i, eid)" by fastforce
  have i: "ab_by_id ab eid = Some i" "info_endpoint i = remote"
    using Some p lookup_endpoint(1) [OF inv] by simp_all
  obtain ab' j where r: "ensure_tried env eid i (modify_entry eid f ab) = Some (True, ab')" "book_inv env ab'" "ab_by_id ab' eid = Some j"
    "nsi_tried_ref j \<noteq> None" "info_endpoint j = info_endpoint i"
    by (rule try_entry [OF inv i(1), where f = f, OF f]) (rule that)
  have "lookup_entry_by_endpoint remote ab' = Some (j, eid)"
    using lookup_endpoint(1) [OF r(2)] r(3,5) i(2) by simp
  moreover have "ab_contains remote ab"
    by (rule containsI [OF inv i])
  ultimately show ?thesis
    using Some p r(1,2,4) by (auto simp: connection_recorded_def)
qed

lemma record_results:
  assumes "book_inv env ab"
  shows "connection_recorded env remote ab (set_good env remote version time ab)" "connection_recorded env remote ab (set_failed env remote time ab)"
    "connection_recorded env remote ab (set_tried env remote time ab)"
  unfolding set_good_def set_failed_def set_tried_def
  by (rule record_connection [OF assms], simp_all add: core_of_def info_endpoint_def)+

lemma sample_book:
  assumes inv: "book_inv env ab" and d: "\<And>k. k < length (ab_randomly_ordered_ids ab) \<Longrightarrow> k + draws k < length (ab_randomly_ordered_ids ab)"
  obtains ret ab' where "get_random_services now draws max_count max_percentage type ab = Some (ret, ab')" "book_inv env ab'" "same_entries ab ab'"
    "sample now type (services_count (length (ab_randomly_ordered_ids ab)) max_count max_percentage) ab ret"
proof (cases "length (ab_randomly_ordered_ids ab) = 0")
  case True
  then have "settled now type count ab (length (ab_randomly_ordered_ids ab)) []" for count
    by (simp add: settled_def)
  then show ?thesis
    using True inv by (intro that [of "[]" ab]) (auto simp: get_random_services_def intro: settled_sample)
next
  case False
  let ?c = "services_count (length (ab_randomly_ordered_ids ab)) max_count max_percentage"
  have "settled now type ?c ab 0 []"
    by (simp add: settled_def)
  from random_services_loop_sample [OF inv this _ refl _ d refl, of "{}"] False show ?thesis
    using that unfolding get_random_services_def Let_def by auto
qed

lemma ids_count:
  assumes inv: "book_inv env ab"
  shows "length (ab_randomly_ordered_ids ab) = card (new_ids (cores_of ab)) + card (tried_ids (cores_of ab))"
    "card (new_ids (cores_of ab)) \<le> card (dom (ab_new_buckets ab))" "card (tried_ids (cores_of ab)) \<le> card (dom (ab_tried_buckets ab))"
proof -
  note inv' = inv [unfolded book_inv_def]
  note b = book_invD(1) [OF inv']
  have u: "dom (positions_of ab) = new_ids (cores_of ab) \<union> tried_ids (cores_of ab)"
  proof -
    have "dom (positions_of ab) = dom (cores_of ab)"
      by (auto simp: positions_of_def cores_of_def)
    then show ?thesis
      using buckets_okD(4) [OF b] by (auto simp: new_ids_def tried_ids_def)
  qed
  have "new_ids (cores_of ab) \<inter> tried_ids (cores_of ab) = {}"
    using buckets_okD(3) [OF b] by (fastforce simp: new_ids_def tried_ids_def)
  then have "card (dom (positions_of ab)) = card (new_ids (cores_of ab)) + card (tried_ids (cores_of ab))"
    unfolding u by (rule card_Un_disjoint [OF finite finite])
  then show "length (ab_randomly_ordered_ids ab) = card (new_ids (cores_of ab)) + card (tried_ids (cores_of ab))"
    using book_invD(4) [OF inv'] distinct_card by (fastforce simp: order_ok_def)
  have n: "new_ids (cores_of ab) \<subseteq> (\<lambda>a. the (ab_new_buckets ab a)) ` dom (ab_new_buckets ab)"
  proof
    fix eid assume "eid \<in> new_ids (cores_of ab)"
    then obtain a where "ab_new_buckets ab a = Some eid"
      using buckets_okD(1) [OF b] by (fastforce simp: new_ids_def)
    then show "eid \<in> (\<lambda>a. the (ab_new_buckets ab a)) ` dom (ab_new_buckets ab)" by force
  qed
  have t: "tried_ids (cores_of ab) \<subseteq> (\<lambda>a. the (ab_tried_buckets ab a)) ` dom (ab_tried_buckets ab)"
  proof
    fix eid assume "eid \<in> tried_ids (cores_of ab)"
    then obtain a where "ab_tried_buckets ab a = Some eid"
      using buckets_okD(2) [OF b] by (fastforce simp: tried_ids_def)
    then show "eid \<in> (\<lambda>a. the (ab_tried_buckets ab a)) ` dom (ab_tried_buckets ab)" by force
  qed
  show "card (new_ids (cores_of ab)) \<le> card (dom (ab_new_buckets ab))" "card (tried_ids (cores_of ab)) \<le> card (dom (ab_tried_buckets ab))"
    using surj_card_le [OF finite n] surj_card_le [OF finite t] by simp_all
qed

lemma card_valid_slots:
  fixes S :: "32 word set"
  assumes "\<And>a. a \<in> S \<Longrightarrow> valid_slot n a"
  shows "card S \<le> n * kBucketSize"
proof -
  have "inj_on (\<lambda>a :: 32 word. (unat a div 2 ^ 16, unat a mod 2 ^ 16)) S"
    by (rule inj_onI) (metis div_mult_mod_eq prod.inject word_unat_eq_iff)
  moreover have "(\<lambda>a :: 32 word. (unat a div 2 ^ 16, unat a mod 2 ^ 16)) ` S \<subseteq> {..<n} \<times> {..<kBucketSize}"
    using assms by (auto simp: valid_slot_def)
  ultimately have "card S \<le> card ({..<n} \<times> {..<kBucketSize})"
    by (intro card_inj_on_le) auto
  then show ?thesis by simp
qed

text \<open>The counters are numbers of entries, which are at most as many as there are slots.\<close>

lemma counts:
  assumes "book_inv env ab"
  shows "unat (ab_new_entries_size ab) = card (new_ids (cores_of ab))" "unat (ab_tried_entries_size ab) = card (tried_ids (cores_of ab))"
    "card (new_ids (cores_of ab)) \<le> kNewBucketsCount * kBucketSize" "card (tried_ids (cores_of ab)) \<le> kTriedBucketsCount * kBucketSize"
proof -
  note b = book_invD(1,2) [OF assms [unfolded book_inv_def]] and n = ids_count [OF assms]
  have "card (dom (ab_new_buckets ab)) \<le> kNewBucketsCount * kBucketSize" "card (dom (ab_tried_buckets ab)) \<le> kTriedBucketsCount * kBucketSize"
    by (rule card_valid_slots, use buckets_okD(7,8) [OF b(1)] in blast)+
  then show le: "card (new_ids (cores_of ab)) \<le> kNewBucketsCount * kBucketSize" "card (tried_ids (cores_of ab)) \<le> kTriedBucketsCount * kBucketSize"
    using n(2,3) by linarith+
  show "unat (ab_new_entries_size ab) = card (new_ids (cores_of ab))" "unat (ab_tried_entries_size ab) = card (tried_ids (cores_of ab))"
    using b(2) le by (simp_all add: sizes_ok_def unat_of_nat kNewBucketsCount_def kTriedBucketsCount_def kBucketSize_def)
qed

text \<open>The bucket that the random selection draws from is not empty once the guards are passed.\<close>

lemma positive_branch:
  "0 < a + b \<Longrightarrow> \<not> (n \<and> a = 0) \<Longrightarrow> a \<le> c \<Longrightarrow> b \<le> d \<Longrightarrow> 0 < (if if n \<or> b = 0 then False else if a = 0 then True else t then d else (c :: nat))"
  by (auto split: if_splits)

lemma select_bucket_nonempty:
  assumes inv: "book_inv env ab" and ids: "ab_randomly_ordered_ids ab \<noteq> []" and new: "\<not> (new_only \<and> ab_new_entries_size ab = 0)"
  shows "0 < length (bucket_ids (select_bucket sel new_only ab))"
proof -
  have z: "ab_new_entries_size ab = 0 \<longleftrightarrow> card (new_ids (cores_of ab)) = 0" "ab_tried_entries_size ab = 0 \<longleftrightarrow> card (tried_ids (cores_of ab)) = 0"
    unfolding counts(1,2) [OF inv, symmetric] by (simp_all add: unat_eq_0)
  have "0 < card (new_ids (cores_of ab)) + card (tried_ids (cores_of ab))"
    using ids unfolding ids_count(1) [OF inv, symmetric] by simp
  then have "0 < card (dom (select_bucket sel new_only ab))"
    using new ids_count(2,3) [OF inv] unfolding select_bucket_def select_from_tried_def z if_distrib [of "\<lambda>b. card (dom b)"]
    by (rule positive_branch)
  then show ?thesis by (simp add: bucket_ids_def)
qed

section \<open>Books that are reached\<close>

text \<open>A step is a call of a public operation that returns. The ids are 32-bit numbers: at most as many services are ever
  offered as there are ids left.\<close>

inductive book_step :: "ab_env \<Rightarrow> address_book \<Rightarrow> address_book \<Rightarrow> bool" for env where
  insert_many: "insert_or_update_services env now draws services source penalty ab = Some (added, kept, ab') \<Longrightarrow>
    unat (ab_last_used_id ab) + length services < 2 ^ 32 \<Longrightarrow> book_step env ab ab'"
| insert_single: "insert_or_update env now draw service source penalty ab = Some (added, ab') \<Longrightarrow>
    unat (ab_last_used_id ab) + 1 < 2 ^ 32 \<Longrightarrow> book_step env ab ab'"
| good: "set_good env remote version time ab = Some (known, ab') \<Longrightarrow> book_step env ab ab'"
| failed: "set_failed env remote time ab = Some (known, ab') \<Longrightarrow> book_step env ab ab'"
| tried: "set_tried env remote time ab = Some (known, ab') \<Longrightarrow> book_step env ab ab'"
| random_services: "get_random_services now picks max_count max_percentage type ab = Some (ret, ab') \<Longrightarrow>
    (\<And>k. k < length (ab_randomly_ordered_ids ab) \<Longrightarrow> k + picks k < length (ab_randomly_ordered_ids ab)) \<Longrightarrow> book_step env ab ab'"
| random_endpoint: "select_random now sel new_only type ab = Some (r, ab') \<Longrightarrow>
    (\<And>k. draw_index sel k < length (bucket_ids (select_bucket sel new_only ab))) \<Longrightarrow> book_step env ab ab'"

inductive book_reachable :: "ab_env \<Rightarrow> address_book \<Rightarrow> bool" for env where
  start: "length key = 16 \<Longrightarrow> book_reachable env (address_book_new key)"
| step: "book_reachable env ab \<Longrightarrow> book_step env ab ab' \<Longrightarrow> book_reachable env ab'"

lemma insert_many_inv:
  assumes "book_inv env ab" "unat (ab_last_used_id ab) + length services < 2 ^ 32"
    and "insert_or_update_services env now draws services source penalty ab = Some (added, kept, ab')"
  shows "book_inv env ab' \<and> added = (kept \<noteq> []) \<and> unat (ab_last_used_id ab') = unat (ab_last_used_id ab) + length kept"
proof -
  have "insert_services env now draws source penalty services {} [] ab = Some (kept, ab')" "added = (kept \<noteq> [])"
    using assms(3) by (auto simp: insert_or_update_services_def)
  with insert_services_inv [OF assms(1,2)] show ?thesis by fastforce
qed

lemma select_returns:
  assumes inv: "book_inv env ab" and d: "\<And>k. draw_index sel k < length (bucket_ids (select_bucket sel new_only ab))"
  shows "\<exists>r recent. select_random now sel new_only type ab = Some (r, ab\<lparr>ab_recently_selected := recent\<rparr>) \<and> selected_ok type ab r"
proof -
  have "\<exists>i. ab_by_id ab eid = Some i" if "eid \<in> set (bucket_ids (select_bucket sel new_only ab))" for eid
    by (rule bucket_entries [OF inv _ that]) (simp add: select_bucket_def)
  from select_loop_returns [where ab = ab, OF d this] show ?thesis
    using exI [of "\<lambda>recent. ab = ab\<lparr>ab_recently_selected := recent\<rparr>" "ab_recently_selected ab"]
    by (auto simp: select_random_def Let_def selected_ok_def)
qed

lemma book_step_inv:
  assumes "book_step env ab ab'" "book_inv env ab"
  shows "book_inv env ab'"
  using assms
proof cases
  case (insert_many now draws services source penalty added kept)
  then show ?thesis using insert_many_inv [OF assms(2)] by blast
next
  case (insert_single now draw service source penalty added)
  then show ?thesis
    using insert_one [OF assms(2)] no_wrap [of "ab_last_used_id ab"] by (auto simp: insert_or_update_def inserted_one_def)
next
  case (random_services now picks max_count max_percentage type ret)
  obtain ret' ab'' where "get_random_services now picks max_count max_percentage type ab = Some (ret', ab'')" "book_inv env ab''"
    by (rule sample_book [OF assms(2) random_services(2)])
  then show ?thesis using random_services(1) by simp
next
  case (random_endpoint now sel new_only type r)
  from select_returns [OF assms(2) random_endpoint(2), of now type] random_endpoint(1) assms(2) show ?thesis
    by (auto simp: book_inv_recent)
qed (blast intro: connection_recordedD(2) record_results [OF assms(2)])+

section \<open>Properties\<close>

definition book_env :: ab_env where
  "book_env = \<lparr>env_asio = documented_asio, env_mac = \<lambda>key data. replicate 8 0\<rparr>"

definition advertised :: node_service where
  "advertised = \<lparr>ns_time = 1700000000, ns_services = 1, ns_endpoint = \<lparr>ep_address = V4 0x08080808, ep_port = 9033\<rparr>\<rparr>"

definition one_entry_book :: address_book where
  "one_entry_book = snd (the (insert_or_update book_env 1700000100 0 advertised (V4 0x08080404) 0 (address_book_new (replicate 16 7))))"

lemma example_addresses: "word_to_be (0x08080404 :: 32 word) = [8, 8, 4, 4]" "word_to_be (0x08080808 :: 32 word) = [8, 8, 8, 8]"
proof -
  have "be_to_word [8, 8, 4, 4] = (0x08080404 :: 32 word)" "be_to_word [8, 8, 8, 8] = (0x08080808 :: 32 word)"
    by (simp_all add: be_to_word_def le_to_word_def)
  then show "word_to_be (0x08080404 :: 32 word) = [8, 8, 4, 4]" "word_to_be (0x08080808 :: 32 word) = [8, 8, 8, 8]"
    using word_to_be_be_to_word [of "[8, 8, 4, 4]", where 'a = 32] word_to_be_be_to_word [of "[8, 8, 8, 8]", where 'a = 32] by simp_all
qed

lemma routable_examples: "ip_is_routable (env_asio book_env) (V4 0x08080404)" "routable_service book_env advertised"
  by (simp_all add: book_env_def documented_asio_def routable_service_def advertised_def ip_is_routable_def ip_is_valid_def address_reservation_def
    address_v4_reservation_def example_addresses Let_def drop_bit_eq_div)

lemma one_entry_book: "book_inv book_env one_entry_book" "ab_contains (ns_endpoint advertised) one_entry_book" "ab_last_used_id one_entry_book = 2"
  "insert_or_update book_env 1700000100 0 advertised (V4 0x08080404) 0 (address_book_new (replicate 16 7)) = Some (True, one_entry_book)"
proof -
  have new: "book_inv book_env (address_book_new (replicate 16 7))" "ab_last_used_id (address_book_new (replicate 16 7)) = 1"
    "\<not> ab_contains e (address_book_new (replicate 16 7))" for e
    by (rule book_inv_new) (simp_all add: address_book_new_def ab_contains_def)
  obtain added ab' where r: "insert_or_update_impl book_env 1700000100 0 advertised (V4 0x08080404) 0 (address_book_new (replicate 16 7)) = Some (added, ab')"
    by (rule insert_one_succeeds [OF new(1) _ routable_examples(2,1)]) (simp add: new(2), rule that)
  have "inserted_one book_env (ns_endpoint advertised) (address_book_new (replicate 16 7)) added ab'"
    by (rule insert_one [OF new(1) _ r]) (simp add: new(2))
  moreover have "one_entry_book = ab'"
    by (simp add: one_entry_book_def insert_or_update_def r)
  ultimately show "book_inv book_env one_entry_book" "ab_contains (ns_endpoint advertised) one_entry_book" "ab_last_used_id one_entry_book = 2"
    "insert_or_update book_env 1700000100 0 advertised (V4 0x08080404) 0 (address_book_new (replicate 16 7)) = Some (True, one_entry_book)"
    using new(2,3) r by (auto simp: inserted_one_def insert_or_update_def)
qed

lemma one_entry_book_ids: "ab_randomly_ordered_ids one_entry_book \<noteq> []"
proof -
  obtain eid where "ab_by_endpoint one_entry_book (ns_endpoint advertised) = Some eid"
    using one_entry_book(2) by (auto simp: ab_contains_def)
  then obtain i where "ab_by_id one_entry_book eid = Some i"
    using book_invD(3) [OF one_entry_book(1) [unfolded book_inv_def]] cores_entry unfolding index_ok_def by blast
  then have "eid \<in> set (ab_randomly_ordered_ids one_entry_book)"
    using book_invD(4) [OF one_entry_book(1) [unfolded book_inv_def]] by (auto simp: order_ok_def positions_of_def)
  then show ?thesis by auto
qed

lemmas one_entry_bucket = select_bucket_nonempty [OF one_entry_book(1) one_entry_book_ids, where new_only = False]

text \<open>C8. In every book that the public operations reach the indexes, the buckets, the counters and the vector of ids
  agree: an entry is in one to eight new slots or in one tried slot, never in both.\<close>

theorem reachable_books_consistent:
  assumes "book_reachable env ab"
  shows "book_inv env ab"
  using assms by induction (blast intro: book_inv_new book_step_inv)+

theorem reachable_books_consistent_witness:
  "book_inv book_env one_entry_book"
  by (rule reachable_books_consistent, rule step [OF start insert_single [OF one_entry_book(4)]]) (simp_all add: address_book_new_def)





text \<open>C12. A connection result of a known endpoint makes its entry a tried one, evicting another entry to the new buckets if
  its slot is taken; that of an unknown endpoint is refused and changes nothing. A failed attempt does the same as a good
  one.\<close>

theorem connection_results_make_tried:
  assumes "book_inv env ab"
  shows "connection_recorded env remote ab (set_good env remote version time ab) \<and>
    connection_recorded env remote ab (set_failed env remote time ab) \<and> connection_recorded env remote ab (set_tried env remote time ab)"
  using record_results [OF assms] by simp

theorem connection_results_make_tried_witness:
  "\<exists>ab' eid i. set_failed book_env (ns_endpoint advertised) 1700000200 one_entry_book = Some (True, ab') \<and>
    lookup_entry_by_endpoint (ns_endpoint advertised) ab' = Some (i, eid) \<and> nsi_tried_ref i \<noteq> None"
  using connection_results_make_tried [OF one_entry_book(1), of "ns_endpoint advertised" version_payload_new 1700000200] one_entry_book(2)
  by (auto simp: connection_recorded_def)

text \<open>C13. A random sample for a peer has each eligible service at most once, no service that is bad or of another address
  type, no more than the allowed number, and every eligible service when it has fewer; the entries stay the same.\<close>

theorem random_services_are_a_sample:
  assumes "book_inv env ab" "\<And>k. k < length (ab_randomly_ordered_ids ab) \<Longrightarrow> k + picks k < length (ab_randomly_ordered_ids ab)"
  shows "\<exists>ret ab'. get_random_services now picks max_count max_percentage type ab = Some (ret, ab') \<and> book_inv env ab' \<and>
    sample now type (services_count (length (ab_randomly_ordered_ids ab)) max_count max_percentage) ab ret \<and> same_entries ab ab'"
proof -
  obtain ret ab' where "get_random_services now picks max_count max_percentage type ab = Some (ret, ab')" "book_inv env ab'" "same_entries ab ab'"
    "sample now type (services_count (length (ab_randomly_ordered_ids ab)) max_count max_percentage) ab ret"
    by (rule sample_book [OF assms])
  then show ?thesis by (intro exI conjI)
qed

theorem random_services_are_a_sample_witness:
  "\<exists>ret ab'. get_random_services 1700000100 (\<lambda>_. 0) 1000 100 None one_entry_book = Some (ret, ab') \<and> book_inv book_env ab' \<and>
    sample 1700000100 None (services_count (length (ab_randomly_ordered_ids one_entry_book)) 1000 100) one_entry_book ret \<and>
    same_entries one_entry_book ab'"
  by (rule random_services_are_a_sample [OF one_entry_book(1)]) simp



text \<open>C15. A peer that advertises one network service with an address that is not routable fails an assertion of the receiver:
  the message handler gives the services to the book as they came.\<close>

theorem unroutable_advertisement_aborts:
  assumes inv: "book_inv env ab" and s: "\<not> routable_service env s" "ns_services s AND kNodeNetwork \<noteq> 0"
  shows "insert_or_update_services env now draws [s] source penalty ab = None"
proof -
  let ?s = "adjust_martian_date now s"
  have e: "ns_endpoint ?s = ns_endpoint s" by (simp add: adjust_martian_date_def)
  have "lookup_entry_by_endpoint (ns_endpoint s) ab = None"
  proof (cases "lookup_entry_by_endpoint (ns_endpoint s) ab")
    case (Some p)
    then have "routable_service env s"
      using lookup_endpoint(1) [OF inv, of "ns_endpoint s"] routable_info(1) [OF inv [unfolded book_inv_def]]
      by (cases p) (fastforce simp: routable_service_def)
    with s(1) show ?thesis by simp
  qed
  moreover have "insert_entry env ?s source p ab = None" for p
    using insert_routable(1) [of env ?s source p ab] s(1) e by (cases "insert_entry env ?s source p ab") (auto simp: routable_service_def)
  ultimately have "insert_or_update_impl env now (draws 0) ?s source penalty ab = None"
    by (simp add: insert_or_update_impl_def e Let_def)
  then show ?thesis
    using s(2) by (simp add: insert_or_update_services_def Let_def)
qed

theorem unroutable_advertisement_aborts_witness:
  "insert_or_update_services book_env 1700000100 (\<lambda>_. 0) [advertised\<lparr>ns_endpoint := \<lparr>ep_address = V4 0, ep_port = 9033\<rparr>\<rparr>] (V4 0x08080404) 7200
    one_entry_book = None"
  by (rule unroutable_advertisement_aborts [OF one_entry_book(1)])
    (simp_all add: routable_service_def ip_is_routable_def ip_is_valid_def advertised_def kNodeNetwork_def)

text \<open>An advertisement that is newer than the entry never adds a reference to a further new slot, whatever the draw.\<close>

theorem newer_advertisement_adds_no_reference:
  assumes "ab_by_id ab eid = Some i" "ns_time (nsi_service (refresh_entry now s penalty i)) < ns_time s"
    and "update_entry env now draw eid s source penalty ab = Some ab'"
  shows "ab' = modify_entry eid (refresh_entry now s penalty) ab"
  using assms by (simp add: update_entry_def Let_def split: if_splits)

end
