(* ===== verification/Meters.thy ===== *)
theory Meters
  imports Complex_Main Prelude
begin

text \<open>
  infra/network/ping_meter.cpp, infra/network/traffic_meter.cpp and infra/concurrency/stoppable.cpp. The clock is a
  parameter of every operation that reads it, in nanoseconds; a smoothed average is a \<open>float\<close> in the source and the
  rational number it approximates here. Locks and the waiting for a stop are not modelled.
\<close>

section \<open>Stoppable components\<close>

datatype component_status = kNotStarted | kStarted | kStopping

definition stoppable_start :: "component_status \<Rightarrow> bool \<times> component_status" where
  "stoppable_start s = (if s = kNotStarted then (True, kStarted) else (False, s))"

definition stoppable_stop :: "component_status \<Rightarrow> bool \<times> component_status" where
  "stoppable_stop s = (if s = kNotStarted then (False, s) else if s = kStarted then (True, kStopping) else (False, s))"

definition is_running :: "component_status \<Rightarrow> bool" where
  "is_running s = (s = kStarted)"

definition set_stopped :: "component_status \<Rightarrow> component_status" where
  "set_stopped s = kNotStarted"

section \<open>Ping meter\<close>

definition kNanosPerMilli :: int where "kNanosPerMilli = 1000000"
definition kNanosPerSecond :: int where "kNanosPerSecond = 1000000000"

record ping_meter =
  pm_alpha :: rat
  pm_in_progress :: bool
  pm_start :: int
  pm_nonce :: "64 word option"
  pm_ema :: int
  pm_min :: int
  pm_max :: int

text \<open>\<open>None\<close> is the failed assertion of the constructor; the least time point is never a start.\<close>

definition ping_meter_new :: "rat \<Rightarrow> ping_meter option" where
  "ping_meter_new alpha =
    (if 0 < alpha \<and> alpha < 1
     then Some \<lparr>pm_alpha = alpha, pm_in_progress = False, pm_start = 0, pm_nonce = None, pm_ema = 0, pm_min = 0, pm_max = 0\<rparr>
     else None)"

definition start_sample :: "int \<Rightarrow> ping_meter \<Rightarrow> ping_meter" where
  "start_sample now pm = (if pm_in_progress pm then pm else pm\<lparr>pm_start := now, pm_in_progress := True\<rparr>)"

text \<open>The clock is read at the beginning and again for the duration. A negative duration is truncated towards zero.\<close>

definition duration_ms :: "int \<Rightarrow> int" where
  "duration_ms d = (if d < 0 then - (- d div kNanosPerMilli) else d div kNanosPerMilli)"

definition end_sample :: "int \<Rightarrow> int \<Rightarrow> ping_meter \<Rightarrow> ping_meter option" where
  "end_sample time_now now pm =
    (if \<not> pm_in_progress pm then Some pm
     else if time_now < pm_start pm then None
     else
      let d = duration_ms (now - pm_start pm);
          pm = pm\<lparr>pm_in_progress := False, pm_start := 0, pm_nonce := None\<rparr>
      in if d < 0 then Some pm
         else if pm_ema pm = 0 then Some (pm\<lparr>pm_ema := d, pm_min := d, pm_max := d\<rparr>)
         else Some (pm\<lparr>pm_ema := \<lfloor>pm_alpha pm * of_int d + (1 - pm_alpha pm) * of_int (pm_ema pm)\<rfloor>,
           pm_min := min d (pm_min pm), pm_max := max d (pm_max pm)\<rparr>))"

definition set_nonce :: "64 word \<Rightarrow> ping_meter \<Rightarrow> ping_meter" where
  "set_nonce nonce pm = pm\<lparr>pm_nonce := Some nonce\<rparr>"

definition pending_sample :: "ping_meter \<Rightarrow> bool" where
  "pending_sample pm = pm_in_progress pm"

definition pending_sample_duration :: "int \<Rightarrow> ping_meter \<Rightarrow> int option" where
  "pending_sample_duration now pm =
    (if \<not> pm_in_progress pm then Some 0 else if now < pm_start pm then None else Some (duration_ms (now - pm_start pm)))"

section \<open>Traffic meter\<close>

record traffic_meter =
  tm_start_time :: int
  tm_interval_time :: int
  tm_cumulative_inbound :: "64 word"
  tm_cumulative_outbound :: "64 word"
  tm_interval_inbound :: "64 word"
  tm_interval_outbound :: "64 word"

definition traffic_meter_new :: "int \<Rightarrow> traffic_meter" where
  "traffic_meter_new now =
    \<lparr>tm_start_time = now, tm_interval_time = now, tm_cumulative_inbound = 0, tm_cumulative_outbound = 0,
     tm_interval_inbound = 0, tm_interval_outbound = 0\<rparr>"

definition update_inbound :: "64 word \<Rightarrow> traffic_meter \<Rightarrow> traffic_meter" where
  "update_inbound n tm = tm\<lparr>tm_cumulative_inbound := tm_cumulative_inbound tm + n, tm_interval_inbound := tm_interval_inbound tm + n\<rparr>"

definition update_outbound :: "64 word \<Rightarrow> traffic_meter \<Rightarrow> traffic_meter" where
  "update_outbound n tm = tm\<lparr>tm_cumulative_outbound := tm_cumulative_outbound tm + n, tm_interval_outbound := tm_interval_outbound tm + n\<rparr>"

definition get_cumulative_bytes :: "traffic_meter \<Rightarrow> 64 word \<times> 64 word" where
  "get_cumulative_bytes tm = (tm_cumulative_inbound tm, tm_cumulative_outbound tm)"

text \<open>A duration in whole seconds, as an unsigned number.\<close>

definition elapsed_seconds :: "int \<Rightarrow> int \<Rightarrow> 64 word" where
  "elapsed_seconds now since = of_int (if now - since < 0 then - ((since - now) div kNanosPerSecond) else (now - since) div kNanosPerSecond)"

definition bytes_per_second :: "64 word \<Rightarrow> 64 word \<Rightarrow> 64 word" where
  "bytes_per_second n seconds = (if seconds \<noteq> 0 then n div seconds else n)"

definition get_cumulative_speed :: "int \<Rightarrow> traffic_meter \<Rightarrow> 64 word \<times> 64 word" where
  "get_cumulative_speed now tm =
    (let s = elapsed_seconds now (tm_start_time tm)
     in (bytes_per_second (tm_cumulative_inbound tm) s, bytes_per_second (tm_cumulative_outbound tm) s))"

definition reset_interval :: "int \<Rightarrow> traffic_meter \<Rightarrow> traffic_meter" where
  "reset_interval now tm = tm\<lparr>tm_interval_time := now, tm_interval_inbound := 0, tm_interval_outbound := 0\<rparr>"

definition get_interval_bytes :: "int \<Rightarrow> bool \<Rightarrow> traffic_meter \<Rightarrow> (64 word \<times> 64 word) \<times> traffic_meter" where
  "get_interval_bytes now reset tm =
    ((tm_interval_inbound tm, tm_interval_outbound tm), if reset then reset_interval now tm else tm)"

definition get_interval_speed :: "int \<Rightarrow> bool \<Rightarrow> traffic_meter \<Rightarrow> (64 word \<times> 64 word) \<times> traffic_meter" where
  "get_interval_speed now reset tm =
    (let s = elapsed_seconds now (tm_interval_time tm)
     in ((bytes_per_second (tm_interval_inbound tm) s, bytes_per_second (tm_interval_outbound tm) s),
         if reset then reset_interval now tm else tm))"

definition traffic_meter_reset :: "int \<Rightarrow> traffic_meter \<Rightarrow> traffic_meter" where
  "traffic_meter_reset now tm = traffic_meter_new now"

section \<open>Correctness\<close>

text \<open>The statistics of a ping meter: the average lies between the extremes, once there is a sample that is not zero.\<close>

definition ping_meter_inv :: "ping_meter \<Rightarrow> bool" where
  "ping_meter_inv pm \<longleftrightarrow> 0 < pm_alpha pm \<and> pm_alpha pm < 1 \<and> 0 \<le> pm_min pm \<and> pm_min pm \<le> pm_ema pm \<and> pm_ema pm \<le> pm_max pm"

lemma smoothed_between:
  fixes a :: rat and d e :: int
  assumes "0 < a" "a < 1" "l \<le> d" "l \<le> e" "d \<le> u" "e \<le> u"
  shows "l \<le> \<lfloor>a * of_int d + (1 - a) * of_int e\<rfloor>" "\<lfloor>a * of_int d + (1 - a) * of_int e\<rfloor> \<le> u"
proof -
  have "a * of_int l \<le> a * of_int d" "(1 - a) * of_int l \<le> (1 - a) * of_int e"
    using assms by (simp_all add: mult_left_mono)
  then have "of_int l \<le> a * of_int d + (1 - a) * of_int e"
    by (simp add: algebra_simps)
  then show "l \<le> \<lfloor>a * of_int d + (1 - a) * of_int e\<rfloor>"
    by (simp add: le_floor_iff)
  have "a * of_int d \<le> a * of_int u" "(1 - a) * of_int e \<le> (1 - a) * of_int u"
    using assms by (simp_all add: mult_left_mono)
  then have "a * of_int d + (1 - a) * of_int e \<le> of_int u"
    by (simp add: algebra_simps)
  then show "\<lfloor>a * of_int d + (1 - a) * of_int e\<rfloor> \<le> u"
    by (simp add: floor_le_iff)
qed

lemma end_sample_inv:
  assumes "ping_meter_inv pm" "end_sample time_now now pm = Some pm'"
  shows "ping_meter_inv pm' \<and> \<not> pm_in_progress pm'"
proof (cases "pm_in_progress pm \<and> 0 \<le> duration_ms (now - pm_start pm) \<and> pm_ema pm \<noteq> 0")
  case True
  let ?d = "duration_ms (now - pm_start pm)"
  note b = smoothed_between [of "pm_alpha pm" "min ?d (pm_min pm)" ?d "pm_ema pm" "max ?d (pm_max pm)"]
  have "min ?d (pm_min pm) \<le> pm_ema pm" "pm_ema pm \<le> max ?d (pm_max pm)"
    using assms(1) by (auto simp: ping_meter_inv_def)
  with assms b True show ?thesis
    by (auto simp: end_sample_def ping_meter_inv_def Let_def split: if_splits)
next
  case False
  with assms show ?thesis
    by (auto simp: end_sample_def ping_meter_inv_def Let_def split: if_splits)
qed

text \<open>A ping meter keeps its average between the least and the greatest sample; a sample ends only when one was started,
  starting a second one does nothing, and no assertion fails with a clock that does not go back.\<close>

theorem ping_meter_statistics:
  assumes "ping_meter_inv pm"
  shows "ping_meter_inv (start_sample now pm) \<and> ping_meter_inv (set_nonce nonce pm) \<and>
    start_sample later (start_sample now pm) = start_sample now pm \<and>
    (pm_in_progress pm \<longrightarrow> pm_start pm \<le> time_now \<longrightarrow>
      (\<exists>pm'. end_sample time_now now pm = Some pm' \<and> ping_meter_inv pm' \<and> \<not> pending_sample pm'))"
proof -
  have "\<exists>pm'. end_sample time_now now pm = Some pm'" if "pm_start pm \<le> time_now"
    using that by (simp add: end_sample_def Let_def)
  then show ?thesis
    using assms end_sample_inv [OF assms] by (auto simp: ping_meter_inv_def start_sample_def set_nonce_def pending_sample_def)
qed

definition example_meter :: ping_meter where
  "example_meter = \<lparr>pm_alpha = 65 / 100, pm_in_progress = True, pm_start = 0, pm_nonce = Some 7, pm_ema = 12, pm_min = 10, pm_max = 20\<rparr>"

theorem ping_meter_statistics_witness:
  "\<exists>pm'. end_sample 30000000 30000000 example_meter = Some pm' \<and> ping_meter_inv pm' \<and> \<not> pending_sample pm'"
  using ping_meter_statistics [of example_meter 30000000 0 1 30000000] by (simp add: ping_meter_inv_def example_meter_def)

end
