(* ===== verification/Address_Book_Store.thy ===== *)
theory Address_Book_Store
  imports Address_Book_Ops Meters
begin

text \<open>
  infra/network/addressbook.cpp, \<open>load\<close> and \<open>save\<close>: the address book in the tables of a database. A table is what the
  database is told and what it returns: saving gives the list of records that are upserted in a cleared table, in the
  order of the calls, and loading gets the records that a cursor returns from the first to the last. The database is a
  parameter, with the law \<open>cursor_reads\<close> between the two. Failures of the database, which abandon the operation, logging
  and the locks are not modelled.
\<close>

section \<open>Saving\<close>

type_synonym table_record = "bytes \<times> bytes"

record saved_book =
  sv_seed :: bytes
  sv_services :: "table_record list"
  sv_random_order :: "table_record list"
  sv_buckets :: "table_record list"

text \<open>The ordered containers are iterated from the least key to the greatest one.\<close>

definition keys_of :: "('k::linorder \<rightharpoonup> 'v) \<Rightarrow> 'k list" where
  "keys_of m = sorted_list_of_set (dom m)"

definition book_size :: "address_book \<Rightarrow> nat" where
  "book_size ab = length (keys_of (ab_by_id ab))"

definition book_empty :: "address_book \<Rightarrow> bool" where
  "book_empty ab = (keys_of (ab_by_id ab) = [])"

text \<open>Serialization writes the times of an entry back to it. A failure ends the loop, and the outer \<open>None\<close> is the exception of
  an outcome without a value.\<close>

fun save_services :: "entry_id list \<Rightarrow> sdata_stream \<Rightarrow> address_book \<Rightarrow> (table_record list \<times> address_book) option" where
  "save_services [] s ab = Some ([], ab)"
| "save_services (eid # ids) s ab =
    (case ab_by_id ab eid of
      None \<Rightarrow> Some ([], ab)
    | Some i \<Rightarrow>
        (case node_service_info_serialization kSerialize (i, sstream_clear s) of
          (Some e, i, s) \<Rightarrow> Some ([], modify_entry eid (\<lambda>_. i) ab)
        | (None, i, s) \<Rightarrow>
            (case stream_read None s of
              (Failure e, s) \<Rightarrow> None
            | (Success v, s) \<Rightarrow>
                map_option (\<lambda>(rs, ab). ((word_to_be eid, v) # rs, ab)) (save_services ids s (modify_entry eid (\<lambda>_. i) ab)))))"

definition save_random_order :: "entry_id list \<Rightarrow> table_record list" where
  "save_random_order ids = map (\<lambda>(ordinal, eid). (word_to_be (of_nat ordinal :: 32 word), word_to_be eid)) (enumerate 0 ids)"

definition save_bucket :: "char \<Rightarrow> (32 word \<rightharpoonup> entry_id) \<Rightarrow> table_record list" where
  "save_bucket c bucket = map (\<lambda>slot. (char_byte c # word_to_be slot, word_to_be (the (bucket slot)))) (keys_of bucket)"

text \<open>Nothing is saved of an empty book, or while another saving is in progress.\<close>

definition book_save :: "bool \<Rightarrow> address_book \<Rightarrow> saved_book option \<times> address_book" where
  "book_save is_saving ab =
    (if book_empty ab \<or> is_saving then (None, ab)
     else
      (case save_services (keys_of (ab_by_id ab)) (sdata_stream_of [] kStorage 0) ab of
        None \<Rightarrow> (None, ab)
      | Some (services, ab) \<Rightarrow>
          (Some \<lparr>sv_seed = ab_key ab, sv_services = services, sv_random_order = save_random_order (ab_randomly_ordered_ids ab),
             sv_buckets = save_bucket CHR ''N'' (ab_new_buckets ab) @ save_bucket CHR ''T'' (ab_tried_buckets ab)\<rparr>, ab)))"

text \<open>The service timer saves the book of a running component.\<close>

definition book_service_timer :: "component_status \<Rightarrow> bool \<Rightarrow> address_book \<Rightarrow> saved_book option \<times> address_book" where
  "book_service_timer status is_saving ab = (if \<not> is_running status then (None, ab) else book_save is_saving ab)"

section \<open>Loading\<close>

definition default_service_info :: node_service_info where
  "default_service_info = node_service_info_new node_service_new (ep_address ip_endpoint_new)"

fun load_services :: "table_record list \<Rightarrow> sdata_stream \<Rightarrow> entry_id \<Rightarrow> address_book \<Rightarrow> entry_id \<times> address_book" where
  "load_services [] s eid ab = (eid, ab)"
| "load_services ((key, value) # records) s eid ab =
    (let s = snd (stream_write value (sstream_clear s)); eid = be_to_word (take 4 key)
     in case node_service_info_serialization kDeserialize (default_service_info, s) of
         (None, i, s) \<Rightarrow> load_services records s eid (snd (index_insert eid (info_endpoint i) i ab))
       | (Some e, i, s) \<Rightarrow> load_services records s eid ab)"

definition load_random_order :: "table_record list \<Rightarrow> address_book \<Rightarrow> address_book" where
  "load_random_order records ab =
    ab\<lparr>ab_randomly_ordered_ids := ab_randomly_ordered_ids ab @ map (\<lambda>(key, value). be_to_word (take 4 value)) records\<rparr>"

definition load_new_slot :: "32 word \<Rightarrow> entry_id \<Rightarrow> node_service_info \<Rightarrow> address_book \<Rightarrow> address_book option" where
  "load_new_slot slot eid i ab =
    do {
      assert_that (slot \<notin> nsi_new_refs i);
      let refs = insert slot (nsi_new_refs i);
      let ab = modify_entry eid (nsi_new_refs_update (\<lambda>_. refs)) ab;
      assert_that (ab_new_buckets ab slot = None);
      let ab = ab\<lparr>ab_new_buckets := (ab_new_buckets ab)(slot \<mapsto> eid)\<rparr>;
      Some (if card refs = 1 then ab\<lparr>ab_new_entries_size := ab_new_entries_size ab + 1\<rparr> else ab)
    }"

definition load_tried_slot :: "32 word \<Rightarrow> entry_id \<Rightarrow> node_service_info \<Rightarrow> address_book \<Rightarrow> address_book option" where
  "load_tried_slot slot eid i ab =
    do {
      assert_that (nsi_tried_ref i = None);
      let ab = modify_entry eid (nsi_tried_ref_update (\<lambda>_. Some slot)) ab;
      assert_that (ab_tried_buckets ab slot = None);
      let ab = ab\<lparr>ab_tried_buckets := (ab_tried_buckets ab)(slot \<mapsto> eid)\<rparr>;
      Some (ab\<lparr>ab_tried_entries_size := ab_tried_entries_size ab + 1\<rparr>)
    }"

fun load_buckets :: "table_record list \<Rightarrow> address_book \<Rightarrow> address_book option" where
  "load_buckets [] ab = Some ab"
| "load_buckets ((key, value) # records) ab =
    (let slot = be_to_word (take 4 (drop 1 key)); eid = be_to_word (take 4 value)
     in case lookup_entry_by_id eid ab of
         None \<Rightarrow> None
       | Some (i, _) \<Rightarrow>
           (case if key ! 0 = char_byte CHR ''N'' then load_new_slot slot eid i ab
                 else if key ! 0 = char_byte CHR ''T'' then load_tried_slot slot eid i ab
                 else None of
             None \<Rightarrow> None
           | Some ab \<Rightarrow> load_buckets records ab))"

definition book_load :: "bytes option \<Rightarrow> table_record list \<Rightarrow> table_record list \<Rightarrow> table_record list \<Rightarrow> address_book \<Rightarrow> address_book option" where
  "book_load seed services random_order buckets ab =
    (let ab = (case seed of Some key \<Rightarrow> if length key = 16 then ab\<lparr>ab_key := key\<rparr> else ab | None \<Rightarrow> ab);
         (eid, ab) = load_services services (sdata_stream_of [] kStorage 0) 1 ab;
         ab = ab\<lparr>ab_last_used_id := eid + 1\<rparr>
     in load_buckets buckets (load_random_order random_order ab))"

section \<open>The tables of the database\<close>

text \<open>A cursor over a table returns its records in the order of their keys, each key once, with the value of the last upsert.\<close>

definition cursor_reads :: "table_record list \<Rightarrow> table_record list \<Rightarrow> bool" where
  "cursor_reads upserts records \<longleftrightarrow> sorted_wrt (ord_class.lexordp :: bytes \<Rightarrow> bytes \<Rightarrow> bool) (map fst records) \<and> map_of records = map_of (rev upserts)"

lemma lexordp_be:
  "length xs = length ys \<Longrightarrow> ord_class.lexordp xs (ys :: bytes) \<longleftrightarrow> le_to_nat (rev xs) < le_to_nat (rev ys)"
proof (induction xs ys rule: list_induct2)
  case (Cons x xs y ys)
  let ?b = "256 ^ length ys :: nat"
  have l: "le_to_nat (rev xs) < ?b" "le_to_nat (rev ys) < ?b"
    using le_to_nat_less [of "rev xs"] le_to_nat_less [of "rev ys"] Cons.hyps by simp_all
  have e: "le_to_nat (rev (x # xs)) = le_to_nat (rev xs) + ?b * unat x" "le_to_nat (rev (y # ys)) = le_to_nat (rev ys) + ?b * unat y"
    using Cons.hyps by (simp_all add: le_to_nat_append)
  have less: "a + ?b * u < c + ?b * v" if "u < v" "a < ?b" for a c u v :: nat
  proof -
    have "a + ?b * u < ?b * Suc u" using that(2) by simp
    also have "\<dots> \<le> ?b * v" using that(1) by (intro mult_le_mono2) simp
    finally show ?thesis by simp
  qed
  consider "x < y" | "y < x" | "x = y" by (rule linorder_cases)
  then show ?case
  proof cases
    case 1
    then have "unat x < unat y" by (simp add: word_less_nat_alt)
    from less [OF this l(1)] 1 show ?thesis unfolding e by simp
  next
    case 2
    then have "unat y < unat x" by (simp add: word_less_nat_alt)
    from less [OF this l(2), of "le_to_nat (rev xs)"] 2 show ?thesis unfolding e by (auto simp: not_less)
  next
    case 3
    with Cons.IH show ?thesis unfolding e by simp
  qed
qed simp

lemma lexordp_word_to_be: "ord_class.lexordp (word_to_be a) (word_to_be (b :: 32 word)) \<longleftrightarrow> a < b"
  by (simp add: lexordp_be word_to_be_def word_to_le_def le_to_nat_nat_to_le word_less_nat_alt power_256 [of 32, simplified] unsigned_less [where ?'b = 32, simplified])

lemma cursor_reads_map:
  assumes "cursor_reads (map (\<lambda>x. (f x, g x)) xs) rs" "inj_on f (set xs)"
  obtains ys where "set ys = set xs" "distinct ys" "sorted_wrt (\<lambda>x y. ord_class.lexordp (f x) (f y)) ys" "rs = map (\<lambda>x. (f x, g x)) ys"
proof -
  define h where "h = (\<lambda>r :: bytes \<times> bytes. inv_into (set xs) f (fst r))"
  have s: "sorted_wrt ord_class.lexordp (map fst rs)" and m: "map_of rs = map_of (rev (map (\<lambda>x. (f x, g x)) xs))"
    using assms(1) by (simp_all add: cursor_reads_def)
  have d: "distinct (map fst rs)"
    using s by (induction rs) (auto simp: lexordp_irreflexive')
  have e: "\<exists>x \<in> set xs. r = (f x, g x)" if "r \<in> set rs" for r
  proof -
    have "map_of rs (fst r) = Some (snd r)"
      using that d by (simp add: map_of_eq_Some_iff)
    then have "(fst r, snd r) \<in> set (rev (map (\<lambda>x. (f x, g x)) xs))" unfolding m by (rule map_of_SomeD)
    then show ?thesis by auto
  qed
  have i: "h r \<in> set xs \<and> (f (h r), g (h r)) = r" if "r \<in> set rs" for r
    using e [OF that] assms(2) by (auto simp: h_def)
  have r: "map (\<lambda>x. (f x, g x)) (map h rs) = rs"
    unfolding map_map by (rule map_idI) (use i in simp)
  have f: "map f (map h rs) = map fst rs"
    using arg_cong [OF r, of "map fst"] by (simp add: o_def)
  have "set (map h rs) = set xs"
  proof (intro equalityI subsetI)
    fix x assume "x \<in> set (map h rs)" then show "x \<in> set xs" using i by auto
  next
    fix x assume x: "x \<in> set xs"
    then have "f x \<in> fst ` set (rev (map (\<lambda>x. (f x, g x)) xs))" by (simp add: image_image)
    then have "f x \<in> fst ` set rs" by (simp only: dom_map_of_conv_image_fst [symmetric] m)
    then obtain q where q: "q \<in> set rs" "fst q = f x" by force
    then have "h q = x" using x assms(2) by (simp add: h_def)
    then show "x \<in> set (map h rs)" using q(1) by auto
  qed
  moreover have "sorted_wrt (\<lambda>x y. ord_class.lexordp (f x) (f y)) (map h rs)"
    using s f by (metis sorted_wrt_map)
  moreover have "distinct (map h rs)"
    using d f by (metis distinct_map)
  ultimately show ?thesis using r [symmetric] by (intro that)
qed

section \<open>Services\<close>

lemma modify_same: "ab_by_id ab eid = Some i \<Longrightarrow> modify_entry eid (\<lambda>_. i) ab = ab"
  by (simp add: modify_entry_def fun_upd_idem)

definition storable :: "node_service_info \<Rightarrow> bool" where
  "storable i \<longleftrightarrow> node_service_info_ok i \<and> length (node_service_info_bytes i) \<le> kMaxStreamSize"

lemma save_services_stores:
  assumes "\<forall>eid \<in> set ids. \<exists>i. ab_by_id ab eid = Some i \<and> storable i"
  shows "save_services ids s ab = Some (map (\<lambda>eid. (word_to_be eid, node_service_info_bytes (the (ab_by_id ab eid)))) ids, ab)"
  using assms
proof (induction ids arbitrary: s)
  case (Cons eid ids)
  then obtain i where i: "ab_by_id ab eid = Some i" "storable i" by auto
  let ?t = "append_bytes (node_service_info_bytes i) (sstream_clear s)"
  have c: "stream_inv (sstream_clear s)" "unread (sstream_clear s) = []" "ds_buffer (sstream_clear s) = []"
    by (simp_all add: sstream_clear_def stream_clear_def stream_inv_def unread_def)
  have "node_service_info_serialization kSerialize (i, sstream_clear s) = (None, i, ?t)"
    using i(2) c(3) by (intro node_service_info_codec.writes) (simp_all add: storable_def)
  moreover have "fst (stream_read None ?t) = Success (node_service_info_bytes i)"
    using c by (simp add: read_None)
  ultimately show ?case
    using Cons i by (auto simp: modify_same split: prod.splits)
qed simp

definition unreferenced :: "node_service_info \<Rightarrow> node_service_info" where
  "unreferenced i = i\<lparr>nsi_tried_ref := None, nsi_new_refs := {}\<rparr>"

definition loaded_entries :: "entry_id list \<Rightarrow> (entry_id \<Rightarrow> node_service_info) \<Rightarrow> address_book \<Rightarrow> address_book" where
  "loaded_entries ids m ab = ab\<lparr>ab_by_id := ab_by_id ab ++ map_of (map (\<lambda>eid. (eid, unreferenced (m eid))) ids),
    ab_by_endpoint := ab_by_endpoint ab ++ map_of (map (\<lambda>eid. (info_endpoint (m eid), eid)) ids)\<rparr>"

lemma load_services_loads:
  assumes "distinct ids" "inj_on (\<lambda>eid. info_endpoint (m eid)) (set ids)" "\<forall>eid \<in> set ids. storable (m eid)"
    and "\<forall>eid \<in> set ids. ab_by_id ab eid = None \<and> ab_by_endpoint ab (info_endpoint (m eid)) = None"
  shows "load_services (map (\<lambda>eid. (word_to_be eid, node_service_info_bytes (m eid))) ids) s e ab = (last (e # ids), loaded_entries ids m ab)"
  using assms
proof (induction ids arbitrary: s e ab)
  case Nil
  then show ?case by (simp add: loaded_entries_def)
next
  case (Cons eid ids)
  let ?i = "m eid" and ?u = "unreferenced (m eid)"
  let ?t = "snd (stream_write (node_service_info_bytes ?i) (sstream_clear s))"
  let ?ab = "ab\<lparr>ab_by_id := (ab_by_id ab)(eid \<mapsto> ?u), ab_by_endpoint := (ab_by_endpoint ab)(info_endpoint ?i \<mapsto> eid)\<rparr>"
  have ok: "node_service_info_ok ?i" "length (node_service_info_bytes ?i) \<le> kMaxStreamSize"
    using Cons.prems(3) by (simp_all add: storable_def)
  have t: "stream_inv ?t" "unread ?t = node_service_info_bytes ?i @ []"
    using ok(2) write_ok [of "sstream_clear s" "node_service_info_bytes ?i"]
    by (simp_all add: sstream_clear_def stream_clear_def stream_inv_def unread_def)
  have "node_service_info_upd ?i default_service_info = ?u"
    by (simp add: node_service_info_upd_def unreferenced_def default_service_info_def node_service_info_new_def)
  with node_service_info_codec.reads [OF ok(1) t, of default_service_info]
  have r: "node_service_info_serialization kDeserialize (default_service_info, ?t) = (None, ?u, advance (length (node_service_info_bytes ?i)) ?t)"
    by simp
  have e: "info_endpoint ?u = info_endpoint ?i" by (simp add: unreferenced_def info_endpoint_def)
  have "snd (index_insert eid (info_endpoint ?u) ?u ab) = ?ab"
    using Cons.prems(4) by (simp add: index_insert_def e)
  then have "load_services (map (\<lambda>eid. (word_to_be eid, node_service_info_bytes (m eid))) (eid # ids)) s e ab =
      load_services (map (\<lambda>eid. (word_to_be eid, node_service_info_bytes (m eid))) ids) (advance (length (node_service_info_bytes ?i)) ?t) eid ?ab"
    using r by simp
  also have "\<dots> = (last (eid # ids), loaded_entries ids m ?ab)"
    by (rule Cons.IH) (use Cons.prems in \<open>auto simp: inj_on_def\<close>)
  also have "loaded_entries ids m ?ab = loaded_entries (eid # ids) m ab"
  proof -
    have "eid \<notin> dom (map_of (map (\<lambda>eid. (eid, unreferenced (m eid))) ids))" "info_endpoint ?i \<notin> dom (map_of (map (\<lambda>eid. (info_endpoint (m eid), eid)) ids))"
      using Cons.prems(1,2) by (auto simp: dom_map_of_conv_image_fst image_image)
    then show ?thesis by (simp add: loaded_entries_def map_add_upd_left)
  qed
  finally show ?case by simp
qed

section \<open>Buckets\<close>

text \<open>A book of which the slots \<open>P\<close> have been loaded, tried ones marked with \<open>False\<close>.\<close>

definition entry_at :: "(bool \<times> 32 word) set \<Rightarrow> node_service_info \<Rightarrow> node_service_info" where
  "entry_at P i = i\<lparr>nsi_tried_ref := (case nsi_tried_ref i of Some a \<Rightarrow> if (False, a) \<in> P then Some a else None | None \<Rightarrow> None),
    nsi_new_refs := {a \<in> nsi_new_refs i. (True, a) \<in> P}\<rparr>"

definition book_at :: "(bool \<times> 32 word) set \<Rightarrow> address_book \<Rightarrow> address_book" where
  "book_at P ab = ab\<lparr>ab_by_id := (\<lambda>eid. map_option (entry_at P) (ab_by_id ab eid)),
    ab_new_buckets := ab_new_buckets ab |` {a. (True, a) \<in> P}, ab_tried_buckets := ab_tried_buckets ab |` {a. (False, a) \<in> P},
    ab_new_entries_size := of_nat (card (ran (ab_new_buckets ab |` {a. (True, a) \<in> P}))),
    ab_tried_entries_size := of_nat (card (ran (ab_tried_buckets ab |` {a. (False, a) \<in> P})))\<rparr>"

text \<open>The relation between the entries and the buckets that the steps of loading rely on.\<close>

definition slots_agree :: "address_book \<Rightarrow> bool" where
  "slots_agree ab \<longleftrightarrow> (\<forall>a eid. ab_new_buckets ab a = Some eid \<longleftrightarrow> (\<exists>i. ab_by_id ab eid = Some i \<and> a \<in> nsi_new_refs i)) \<and>
    (\<forall>a eid. ab_tried_buckets ab a = Some eid \<longleftrightarrow> (\<exists>i. ab_by_id ab eid = Some i \<and> nsi_tried_ref i = Some a)) \<and>
    (\<forall>eid i. ab_by_id ab eid = Some i \<longrightarrow> finite (nsi_new_refs i))"

lemma book_inv_slots: "book_inv env ab \<Longrightarrow> slots_agree ab"
  unfolding book_inv_def book_inv_moving_def buckets_ok_def slots_agree_def cores_of_def
  by (auto simp: core_of_def)

lemma ran_insert_slot:
  fixes nb :: "32 word \<rightharpoonup> entry_id"
  assumes "nb a = Some eid" "(b, a) \<notin> P"
  shows "nb |` {a'. (b, a') \<in> insert (b, a) P} = (nb |` {a'. (b, a') \<in> P})(a \<mapsto> eid)"
    "ran (nb |` {a'. (b, a') \<in> insert (b, a) P}) = insert eid (ran (nb |` {a'. (b, a') \<in> P}))"
proof -
  show e: "nb |` {a'. (b, a') \<in> insert (b, a) P} = (nb |` {a'. (b, a') \<in> P})(a \<mapsto> eid)"
    using assms(1) by (auto simp: restrict_map_def fun_eq_iff)
  show "ran (nb |` {a'. (b, a') \<in> insert (b, a) P}) = insert eid (ran (nb |` {a'. (b, a') \<in> P}))"
    unfolding e by (rule ran_map_upd) (use assms(2) in simp)
qed

lemma insert_slot_set: "{a'. (b, a') \<in> insert (b, a) P} = insert a {a'. (b, a') \<in> P}" "b \<noteq> c \<Longrightarrow> {a'. (c, a') \<in> insert (b, a) P} = {a'. (c, a') \<in> P}"
  by auto

lemma load_new_slot_step:
  assumes ag: "slots_agree ab" and a: "ab_new_buckets ab a = Some eid" "(True, a) \<notin> P" and i: "ab_by_id ab eid = Some i"
  shows "load_new_slot a eid (entry_at P i) (book_at P ab) = Some (book_at (insert (True, a) P) ab)"
proof -
  let ?R = "{b \<in> nsi_new_refs i. (True, b) \<in> P}" and ?S = "{b. (True, b) \<in> P}"
  have ar: "a \<in> nsi_new_refs i" and fin: "finite (nsi_new_refs i)"
    using ag a(1) i by (auto simp: slots_agree_def)
  have other: "a \<notin> nsi_new_refs j" if "ab_by_id ab e = Some j" "e \<noteq> eid" for e j
    using ag a(1) that unfolding slots_agree_def by (metis option.inject)
  have R: "?R = {} \<longleftrightarrow> eid \<notin> ran (ab_new_buckets ab |` ?S)"
    using ag i by (auto simp: ran_def restrict_map_def slots_agree_def)
  have card: "card (insert a ?R) = 1 \<longleftrightarrow> ?R = {}"
    using fin a(2) by (simp add: card_insert_if)
  have size: "(of_nat (card (insert eid (ran (ab_new_buckets ab |` ?S)))) :: 32 word) =
      of_nat (card (ran (ab_new_buckets ab |` ?S))) + (if card (insert a ?R) = 1 then 1 else 0)"
    unfolding card R by (simp add: insert_absorb)
  have "(\<lambda>e. map_option (entry_at P) (ab_by_id ab e))(eid \<mapsto> (entry_at P i)\<lparr>nsi_new_refs := insert a ?R\<rparr>) =
      (\<lambda>e. map_option (entry_at (insert (True, a) P)) (ab_by_id ab e))"
  proof
    fix e
    show "((\<lambda>e. map_option (entry_at P) (ab_by_id ab e))(eid \<mapsto> (entry_at P i)\<lparr>nsi_new_refs := insert a ?R\<rparr>)) e =
      map_option (entry_at (insert (True, a) P)) (ab_by_id ab e)"
    proof (cases "e = eid")
      case True
      have "insert a ?R = {b \<in> nsi_new_refs i. (True, b) \<in> insert (True, a) P}" using ar by auto
      with True i show ?thesis by (simp add: entry_at_def split: option.split)
    next
      case False
      have "entry_at (insert (True, a) P) j = entry_at P j" if "ab_by_id ab e = Some j" for j
      proof -
        have "{b \<in> nsi_new_refs j. (True, b) \<in> insert (True, a) P} = {b \<in> nsi_new_refs j. (True, b) \<in> P}"
          using other [OF that False] by auto
        then show ?thesis by (simp add: entry_at_def split: option.split)
      qed
      with False show ?thesis by (cases "ab_by_id ab e") simp_all
    qed
  qed
  note by_id = this
  have refs: "nsi_new_refs (entry_at P i) = ?R" by (simp add: entry_at_def)
  have "load_new_slot a eid (entry_at P i) (book_at P ab) =
      Some ((book_at P ab)\<lparr>ab_by_id := (ab_by_id (book_at P ab))(eid \<mapsto> (entry_at P i)\<lparr>nsi_new_refs := insert a ?R\<rparr>),
        ab_new_buckets := (ab_new_buckets ab |` ?S)(a \<mapsto> eid),
        ab_new_entries_size := of_nat (card (insert eid (ran (ab_new_buckets ab |` ?S))))\<rparr>)"
    unfolding size using a i
    by (simp add: load_new_slot_def refs assert_that_def modify_entry_def book_at_def restrict_map_def Let_def)
  also have "\<dots> = Some (book_at (insert (True, a) P) ab)"
    using by_id ran_insert_slot [where nb = "ab_new_buckets ab" and b = True and P = P, OF a]
    by (simp add: book_at_def insert_slot_set)
  finally show ?thesis .
qed

lemma load_tried_slot_step:
  assumes ag: "slots_agree ab" and a: "ab_tried_buckets ab a = Some eid" "(False, a) \<notin> P" and i: "ab_by_id ab eid = Some i"
  shows "load_tried_slot a eid (entry_at P i) (book_at P ab) = Some (book_at (insert (False, a) P) ab)"
proof -
  let ?S = "{b. (False, b) \<in> P}"
  have at: "nsi_tried_ref i = Some a"
    using ag a(1) i by (auto simp: slots_agree_def)
  have other: "nsi_tried_ref j \<noteq> Some a" if "ab_by_id ab e = Some j" "e \<noteq> eid" for e j
    using ag a(1) that unfolding slots_agree_def by (metis option.inject)
  have "eid \<notin> ran (ab_tried_buckets ab |` ?S)"
  proof
    assume "eid \<in> ran (ab_tried_buckets ab |` ?S)"
    then obtain b where "ab_tried_buckets ab b = Some eid" "(False, b) \<in> P" by (auto simp: ran_def restrict_map_def split: if_splits)
    then have "nsi_tried_ref i = Some b" using ag i by (auto simp: slots_agree_def)
    with at a(2) \<open>(False, b) \<in> P\<close> show False by simp
  qed
  then have size: "(of_nat (card (insert eid (ran (ab_tried_buckets ab |` ?S)))) :: 32 word) = of_nat (card (ran (ab_tried_buckets ab |` ?S))) + 1"
    by simp
  have by_id: "(\<lambda>e. map_option (entry_at P) (ab_by_id ab e))(eid \<mapsto> (entry_at P i)\<lparr>nsi_tried_ref := Some a\<rparr>) =
      (\<lambda>e. map_option (entry_at (insert (False, a) P)) (ab_by_id ab e))"
  proof
    fix e
    show "((\<lambda>e. map_option (entry_at P) (ab_by_id ab e))(eid \<mapsto> (entry_at P i)\<lparr>nsi_tried_ref := Some a\<rparr>)) e =
      map_option (entry_at (insert (False, a) P)) (ab_by_id ab e)"
    proof (cases "e = eid")
      case True
      with i at show ?thesis by (simp add: entry_at_def)
    next
      case False
      have "entry_at (insert (False, a) P) j = entry_at P j" if "ab_by_id ab e = Some j" for j
        using other [OF that False] by (auto simp: entry_at_def split: option.split)
      with False show ?thesis by (cases "ab_by_id ab e") simp_all
    qed
  qed
  have "nsi_tried_ref (entry_at P i) = None" using at a(2) by (simp add: entry_at_def)
  then have "load_tried_slot a eid (entry_at P i) (book_at P ab) =
      Some ((book_at P ab)\<lparr>ab_by_id := (ab_by_id (book_at P ab))(eid \<mapsto> (entry_at P i)\<lparr>nsi_tried_ref := Some a\<rparr>),
        ab_tried_buckets := (ab_tried_buckets ab |` ?S)(a \<mapsto> eid),
        ab_tried_entries_size := of_nat (card (insert eid (ran (ab_tried_buckets ab |` ?S))))\<rparr>)"
    unfolding size using a i
    by (simp add: load_tried_slot_def assert_that_def modify_entry_def book_at_def restrict_map_def Let_def)
  also have "\<dots> = Some (book_at (insert (False, a) P) ab)"
    using by_id ran_insert_slot [where nb = "ab_tried_buckets ab" and b = False and P = P, OF a]
    by (simp add: book_at_def insert_slot_set)
  finally show ?thesis .
qed

text \<open>The record of a slot.\<close>

definition slot_holder :: "address_book \<Rightarrow> bool \<times> 32 word \<Rightarrow> entry_id option" where
  "slot_holder ab x = (if fst x then ab_new_buckets ab (snd x) else ab_tried_buckets ab (snd x))"

definition slot_key :: "bool \<times> 32 word \<Rightarrow> bytes" where
  "slot_key x = char_byte (if fst x then CHR ''N'' else CHR ''T'') # word_to_be (snd x)"

lemma slot_key_inj: "inj slot_key"
  by (rule injI) (auto simp: slot_key_def char_byte_def word_to_be_def split: if_splits prod.splits)

lemma load_buckets_loads:
  assumes ag: "slots_agree ab"
  shows "distinct xs \<Longrightarrow> \<forall>x \<in> set xs. slot_holder ab x \<noteq> None \<and> x \<notin> P \<Longrightarrow>
    load_buckets (map (\<lambda>x. (slot_key x, word_to_be (the (slot_holder ab x)))) xs) (book_at P ab) = Some (book_at (P \<union> set xs) ab)"
proof (induction xs arbitrary: P)
  case (Cons x xs)
  obtain b a where x: "x = (b, a)" by (cases x)
  obtain eid where eid: "slot_holder ab x = Some eid" using Cons.prems(2) by auto
  then obtain i where i: "ab_by_id ab eid = Some i"
    using ag by (cases b) (auto simp: slots_agree_def slot_holder_def x)
  have look: "lookup_entry_by_id eid (book_at P ab) = Some (entry_at P i, eid)"
    using i by (simp add: lookup_entry_by_id_def book_at_def)
  have n: "x \<notin> P" using Cons.prems(2) by simp
  have step: "(if b then load_new_slot a eid (entry_at P i) (book_at P ab) else load_tried_slot a eid (entry_at P i) (book_at P ab)) = Some (book_at (insert x P) ab)"
    using load_new_slot_step [OF ag _ _ i, of a P] load_tried_slot_step [OF ag _ _ i, of a P] eid n by (cases b) (simp_all add: slot_holder_def x)
  have "load_buckets (map (\<lambda>x. (slot_key x, word_to_be (the (slot_holder ab x)))) (x # xs)) (book_at P ab) =
      load_buckets (map (\<lambda>x. (slot_key x, word_to_be (the (slot_holder ab x)))) xs) (book_at (insert x P) ab)"
    using step look eid by (cases b) (simp_all add: slot_key_def x char_byte_def)
  also have "\<dots> = Some (book_at (insert x P \<union> set xs) ab)"
    by (rule Cons.IH) (use Cons.prems in auto)
  finally show ?case by simp
qed simp

section \<open>The whole book\<close>

lemma read_services:
  assumes "cursor_reads (map (\<lambda>eid. (word_to_be eid, g eid)) (keys_of m)) rs"
  obtains ys where "set ys = dom m" "distinct ys" "sorted_wrt (<) ys" "rs = map (\<lambda>eid. (word_to_be (eid :: 32 word), g eid)) ys"
proof -
  have "inj_on (word_to_be :: 32 word \<Rightarrow> bytes) (set (keys_of m))" 
    by (rule inj_on_inverseI [where g = be_to_word]) simp
  from cursor_reads_map [OF assms this] obtain ys where "set ys = set (keys_of m)" "distinct ys"
    "sorted_wrt (\<lambda>x y. ord_class.lexordp (word_to_be x) (word_to_be y)) ys" "rs = map (\<lambda>eid. (word_to_be eid, g eid)) ys" .
  then show ?thesis
    by (intro that) (simp_all add: keys_of_def lexordp_word_to_be)
qed

lemma read_random_order:
  assumes "cursor_reads (save_random_order ids) rs" "length ids < 2 ^ 32"
  shows "map (\<lambda>(key, value). be_to_word (take 4 value)) rs = ids"
proof -
  let ?f = "\<lambda>x :: nat \<times> entry_id. word_to_be (of_nat (fst x) :: 32 word)"
  have u: "unat (of_nat (fst x) :: 32 word) = fst x" if "x \<in> set (enumerate 0 ids)" for x
    using that assms(2) by (auto simp: in_set_enumerate_eq unat_of_nat)
  have less: "ord_class.lexordp (?f x) (?f y) \<longleftrightarrow> fst x < fst y" if "x \<in> set (enumerate 0 ids)" "y \<in> set (enumerate 0 ids)" for x y
    using u [OF that(1)] u [OF that(2)] by (simp add: lexordp_word_to_be word_less_nat_alt)
  have "inj_on ?f (set (enumerate 0 ids))"
  proof (rule inj_onI)
    fix x y assume x: "x \<in> set (enumerate 0 ids)" "y \<in> set (enumerate 0 ids)" "?f x = ?f y"
    then have "\<not> fst x < fst y" "\<not> fst y < fst x" using less [OF x(1,2)] less [OF x(2,1)] lexordp_irreflexive' by metis+
    with x(1,2) show "x = y" by (auto simp: in_set_enumerate_eq prod_eq_iff)
  qed
  moreover have "cursor_reads (map (\<lambda>x. (?f x, word_to_be (snd x))) (enumerate 0 ids)) rs"
    using assms(1) by (simp add: save_random_order_def case_prod_beta')
  ultimately obtain ys where ys: "set ys = set (enumerate 0 ids)" "sorted_wrt (\<lambda>x y. ord_class.lexordp (?f x) (?f y)) ys" "rs = map (\<lambda>x. (?f x, word_to_be (snd x))) ys"
    by (elim cursor_reads_map)
  have "sorted_wrt (\<lambda>x y. fst x < fst y) ys"
    using ys(2) by (rule sorted_wrt_mono_rel [rotated]) (use less ys(1) in blast)
  moreover have "fst ` set (enumerate 0 ids) = {0..<length ids}"
    using map_fst_enumerate [of 0 ids] by (metis add_0 set_map set_upt)
  ultimately have "map fst ys = [0..<length ids]"
    by (intro strict_sorted_equal) (simp_all add: sorted_wrt_map ys(1))
  moreover have "snd x = ids ! fst x" if "x \<in> set ys" for x
    using that ys(1) by (auto simp: in_set_enumerate_eq)
  ultimately have "map snd ys = map ((!) ids) [0..<length ids]"
    by (metis (no_types, lifting) comp_apply map_eq_conv map_map)
  then show ?thesis
    by (simp add: ys(3) o_def map_nth)
qed

lemma book_at_none: "book_at {} ab = ab\<lparr>ab_by_id := (\<lambda>eid. map_option unreferenced (ab_by_id ab eid)), ab_new_buckets := Map.empty, ab_tried_buckets := Map.empty,
    ab_new_entries_size := 0, ab_tried_entries_size := 0\<rparr>"
proof -
  have "entry_at {} = unreferenced"
    by (rule ext) (simp add: entry_at_def unreferenced_def split: option.split)
  then show ?thesis
    by (simp add: book_at_def restrict_map_def)
qed

lemma book_at_all:
  assumes ag: "slots_agree ab" and P: "\<And>x. slot_holder ab x \<noteq> None \<Longrightarrow> x \<in> P" and s: "sizes_ok (cores_of ab) (ab_new_entries_size ab) (ab_tried_entries_size ab)"
  shows "book_at P ab = ab"
proof -
  have r: "ab_new_buckets ab |` {a. (True, a) \<in> P} = ab_new_buckets ab" "ab_tried_buckets ab |` {a. (False, a) \<in> P} = ab_tried_buckets ab"
    using P [of "(True, a)" for a] P [of "(False, a)" for a]
    by (auto simp: restrict_map_def fun_eq_iff slot_holder_def) (metis not_Some_eq)+
  have "ran (ab_new_buckets ab) = new_ids (cores_of ab)" "ran (ab_tried_buckets ab) = tried_ids (cores_of ab)"
    using ag by (fastforce simp: ran_def new_ids_def tried_ids_def cores_of_def core_of_def slots_agree_def)+
  moreover have "map_option (entry_at P) (ab_by_id ab eid) = ab_by_id ab eid" for eid
  proof (cases "ab_by_id ab eid")
    case (Some i)
    have "(True, a) \<in> P" if "a \<in> nsi_new_refs i" for a
      using ag Some that by (intro P) (auto simp: slot_holder_def slots_agree_def)
    moreover have "(False, a) \<in> P" if "nsi_tried_ref i = Some a" for a
      using ag Some that by (intro P) (auto simp: slot_holder_def slots_agree_def)
    ultimately have "{a \<in> nsi_new_refs i. (True, a) \<in> P} = nsi_new_refs i"
      "(case nsi_tried_ref i of Some a \<Rightarrow> if (False, a) \<in> P then Some a else None | None \<Rightarrow> None) = nsi_tried_ref i"
      by (auto split: option.split)
    with Some show ?thesis by (simp add: entry_at_def)
  qed simp
  ultimately show ?thesis
    using s by (simp add: book_at_def r sizes_ok_def)
qed

lemma keys_of_set: "set (keys_of (m :: 32 word \<rightharpoonup> 'a)) = dom m" "distinct (keys_of m)"
  by (simp_all add: keys_of_def)

lemma save_bucket_slots:
  "save_bucket CHR ''N'' (ab_new_buckets ab) @ save_bucket CHR ''T'' (ab_tried_buckets ab) =
    map (\<lambda>x. (slot_key x, word_to_be (the (slot_holder ab x)))) (map (Pair True) (keys_of (ab_new_buckets ab)) @ map (Pair False) (keys_of (ab_tried_buckets ab)))"
  by (simp add: save_bucket_def slot_key_def slot_holder_def)

lemma saved_form:
  assumes "\<not> book_empty ab" "\<forall>eid i. ab_by_id ab eid = Some i \<longrightarrow> storable i"
  shows "book_save False ab = (Some \<lparr>sv_seed = ab_key ab,
    sv_services = map (\<lambda>eid. (word_to_be eid, node_service_info_bytes (the (ab_by_id ab eid)))) (keys_of (ab_by_id ab)),
    sv_random_order = save_random_order (ab_randomly_ordered_ids ab),
    sv_buckets = map (\<lambda>x. (slot_key x, word_to_be (the (slot_holder ab x))))
      (map (Pair True) (keys_of (ab_new_buckets ab)) @ map (Pair False) (keys_of (ab_tried_buckets ab)))\<rparr>, ab)"
proof -
  have "\<forall>eid \<in> set (keys_of (ab_by_id ab)). \<exists>i. ab_by_id ab eid = Some i \<and> storable i"
    using assms(2) by (auto simp: keys_of_set)
  from save_services_stores [OF this] assms(1) show ?thesis
    by (simp add: book_save_def save_bucket_slots)
qed

lemma option_eq_iff: "(\<And>y. x = Some y \<longleftrightarrow> z = Some y) \<Longrightarrow> x = z"
  by (cases x; cases z) auto

lemma loaded_index:
  assumes inv: "book_inv env ab" and ys: "set ys = dom (ab_by_id ab)" "distinct ys"
  shows "map_of (map (\<lambda>eid. (eid, unreferenced (the (ab_by_id ab eid)))) ys) = (\<lambda>eid. map_option unreferenced (ab_by_id ab eid))"
    "map_of (map (\<lambda>eid. (info_endpoint (the (ab_by_id ab eid)), eid)) ys) = ab_by_endpoint ab"
    "inj_on (\<lambda>eid. info_endpoint (the (ab_by_id ab eid))) (set ys)"
proof -
  have ix: "ab_by_endpoint ab e = Some eid \<longleftrightarrow> (\<exists>i. ab_by_id ab eid = Some i \<and> info_endpoint i = e)" for e eid
    using book_invD(3) [OF inv [unfolded book_inv_def]] by (auto simp: index_ok_def cores_of_def)
  show "map_of (map (\<lambda>eid. (eid, unreferenced (the (ab_by_id ab eid)))) ys) = (\<lambda>eid. map_option unreferenced (ab_by_id ab eid))"
  proof
    fix eid show "map_of (map (\<lambda>eid. (eid, unreferenced (the (ab_by_id ab eid)))) ys) eid = map_option unreferenced (ab_by_id ab eid)"
      by (cases "ab_by_id ab eid") (simp_all add: map_of_map_restrict restrict_map_def ys(1) domIff)
  qed
  show inj: "inj_on (\<lambda>eid. info_endpoint (the (ab_by_id ab eid))) (set ys)"
  proof (rule inj_onI)
    fix x y assume "x \<in> set ys" "y \<in> set ys" "info_endpoint (the (ab_by_id ab x)) = info_endpoint (the (ab_by_id ab y))"
    then have "ab_by_endpoint ab (info_endpoint (the (ab_by_id ab x))) = Some x" "ab_by_endpoint ab (info_endpoint (the (ab_by_id ab x))) = Some y"
      using ix ys(1) by auto
    then show "x = y" by simp
  qed
  have d: "distinct (map fst (map (\<lambda>eid. (info_endpoint (the (ab_by_id ab eid)), eid)) ys))"
    using inj ys(2) by (simp add: o_def distinct_map)
  show "map_of (map (\<lambda>eid. (info_endpoint (the (ab_by_id ab eid)), eid)) ys) = ab_by_endpoint ab"
  proof
    fix e
    have "map_of (map (\<lambda>eid. (info_endpoint (the (ab_by_id ab eid)), eid)) ys) e = Some eid \<longleftrightarrow> ab_by_endpoint ab e = Some eid" for eid
    proof -
      have "(e, eid) \<in> set (map (\<lambda>eid. (info_endpoint (the (ab_by_id ab eid)), eid)) ys) \<longleftrightarrow> eid \<in> dom (ab_by_id ab) \<and> info_endpoint (the (ab_by_id ab eid)) = e"
        unfolding ys(1) [symmetric] by auto
      also have "\<dots> \<longleftrightarrow> ab_by_endpoint ab e = Some eid"
        unfolding ix by auto
      finally show ?thesis by (simp only: map_of_eq_Some_iff [OF d])
    qed
    then show "map_of (map (\<lambda>eid. (info_endpoint (the (ab_by_id ab eid)), eid)) ys) e = ab_by_endpoint ab e"
      by (rule option_eq_iff)
  qed
qed

definition reloaded :: "address_book \<Rightarrow> address_book" where
  "reloaded ab = ab\<lparr>ab_last_used_id := last (keys_of (ab_by_id ab)) + 1, ab_recently_selected := lru_new 64\<rparr>"

lemma no_wrap_below:
  assumes "x < (y :: 32 word)"
  shows "x < x + 1" "0 < x + 1"
proof -
  have "unat x < unat y" "unat y < 2 ^ 32"
    using assms unsigned_less [of y, where ?'a = nat] by (simp_all add: word_less_nat_alt)
  then have "unat (x + 1) = unat x + 1" by (simp add: unat_word_ariths)
  then show "x < x + 1" "0 < x + 1" by (simp_all add: word_less_nat_alt)
qed

lemma sorted_last: "sorted xs \<Longrightarrow> x \<in> set xs \<Longrightarrow> x \<le> last (xs :: 32 word list)"
  by (induction xs) auto

lemma book_ids:
  assumes "book_inv env ab"
  shows "set (ab_randomly_ordered_ids ab) = dom (ab_by_id ab)" "book_empty ab \<longleftrightarrow> ab_randomly_ordered_ids ab = []" "book_size ab = length (ab_randomly_ordered_ids ab)"
proof -
  have o: "distinct (ab_randomly_ordered_ids ab)" "set (ab_randomly_ordered_ids ab) = dom (ab_by_id ab)"
    using book_invD(4) [OF assms [unfolded book_inv_def]] by (auto simp: order_ok_def positions_of_def dom_def)
  then show "set (ab_randomly_ordered_ids ab) = dom (ab_by_id ab)" by simp
  show s: "book_size ab = length (ab_randomly_ordered_ids ab)"
    using o by (metis book_size_def distinct_card keys_of_set)
  then show "book_empty ab \<longleftrightarrow> ab_randomly_ordered_ids ab = []"
    by (simp add: book_empty_def book_size_def length_0_conv [symmetric] del: length_0_conv)
qed

lemma reloaded_inv:
  assumes inv: "book_inv env ab" and ne: "\<not> book_empty ab"
  shows "book_inv env (reloaded ab)"
proof -
  note b = inv [unfolded book_inv_def]
  let ?l = "last (keys_of (ab_by_id ab))"
  have cores: "cores_of (reloaded ab) = cores_of ab" "positions_of (reloaded ab) = positions_of ab"
    by (simp_all add: reloaded_def cores_of_def positions_of_def fun_eq_iff)
  have k: "keys_of (ab_by_id ab) \<noteq> []" "sorted (keys_of (ab_by_id ab))"
    using ne by (simp_all add: book_empty_def keys_of_def)
  then have l: "?l \<in> dom (ab_by_id ab)" using keys_of_set(1) by (metis last_in_set)
  then have "?l < ab_last_used_id ab" using book_invD(7) [OF b] by (auto simp: cores_of_def)
  note wrap = no_wrap_below [OF this]
  have "eid \<le> ?l" if "eid \<in> dom (ab_by_id ab)" for eid
    using that k(2) keys_of_set(1) [of "ab_by_id ab"] by (intro sorted_last) simp_all
  then have "eid < ?l + 1" if "cores_of ab eid = Some c" for eid c
    using that wrap(1) by (fastforce simp: cores_of_def domIff)
  moreover note wrap(2)
  ultimately show ?thesis
    using b unfolding book_inv_def book_inv_moving_def cores by (simp add: reloaded_def)
qed

lemma last_sorted:
  assumes "set ys = dom m" "sorted_wrt (<) ys"
  shows "ys = keys_of (m :: 32 word \<rightharpoonup> 'a)"
  using assms by (intro strict_sorted_equal) (simp_all add: keys_of_def)

lemma read_buckets:
  assumes "cursor_reads (map (\<lambda>x. (slot_key x, word_to_be (the (slot_holder ab x))))
      (map (Pair True) (keys_of (ab_new_buckets ab)) @ map (Pair False) (keys_of (ab_tried_buckets ab)))) rs"
  obtains xs where "distinct xs" "\<And>x. x \<in> set xs \<longleftrightarrow> slot_holder ab x \<noteq> None" "rs = map (\<lambda>x. (slot_key x, word_to_be (the (slot_holder ab x)))) xs"
proof -
  from cursor_reads_map [OF assms inj_on_subset [OF slot_key_inj subset_UNIV]] obtain xs where
    xs: "set xs = set (map (Pair True) (keys_of (ab_new_buckets ab)) @ map (Pair False) (keys_of (ab_tried_buckets ab)))" "distinct xs"
      "rs = map (\<lambda>x. (slot_key x, word_to_be (the (slot_holder ab x)))) xs" .
  have "x \<in> set xs \<longleftrightarrow> slot_holder ab x \<noteq> None" for x
    by (cases x; cases "fst x") (auto simp: xs(1) keys_of_set slot_holder_def)
  then show ?thesis by (intro that [OF xs(2) _ xs(3)])
qed

section \<open>Properties\<close>

text \<open>C11. What is saved of a consistent address book is loaded again into a new one, whatever key the new one had: the seed, the
  entries with their references, the indexes, the buckets, the counters and the order of the ids are the same, and the book is
  consistent; the last used id is the one after the greatest id in use, and the recently selected endpoints are forgotten.\<close>

theorem saved_book_loads:
  assumes inv: "book_inv env ab" and ne: "\<not> book_empty ab" and ok: "\<forall>eid i. ab_by_id ab eid = Some i \<longrightarrow> storable i"
    and save: "book_save False ab = (Some sv, ab')"
    and reads: "cursor_reads (sv_services sv) services" "cursor_reads (sv_random_order sv) order" "cursor_reads (sv_buckets sv) buckets"
  shows "ab' = ab \<and> book_load (Some (sv_seed sv)) services order buckets (address_book_new key) = Some (reloaded ab) \<and> book_inv env (reloaded ab)"
proof -
  note b = inv [unfolded book_inv_def]
  note sv = saved_form [OF ne ok]
  have ab': "ab' = ab" "sv_seed sv = ab_key ab" using sv save by auto
  obtain ys where ys: "set ys = dom (ab_by_id ab)" "distinct ys" "sorted_wrt (<) ys"
      "services = map (\<lambda>eid. (word_to_be eid, node_service_info_bytes (the (ab_by_id ab eid)))) ys"
    using read_services [of "\<lambda>eid. node_service_info_bytes (the (ab_by_id ab eid))" "ab_by_id ab" services] reads(1) sv save by auto
  have order: "map (\<lambda>(key, value). be_to_word (take 4 value)) order = ab_randomly_ordered_ids ab"
  proof (rule read_random_order)
    show "cursor_reads (save_random_order (ab_randomly_ordered_ids ab)) order" using reads(2) sv save by auto
    have "distinct (ab_randomly_ordered_ids ab)" "0 \<notin> set (ab_randomly_ordered_ids ab)"
      using book_invD(4) [OF b] by (auto simp: order_ok_def)
    then have "length (ab_randomly_ordered_ids ab) = card (set (ab_randomly_ordered_ids ab))" "set (ab_randomly_ordered_ids ab) \<subset> (UNIV :: 32 word set)"
      by (auto simp: distinct_card)
    then show "length (ab_randomly_ordered_ids ab) < 2 ^ 32"
      using psubset_card_mono [of "UNIV :: 32 word set" "set (ab_randomly_ordered_ids ab)"] by (simp add: card_word)
  qed
  obtain xs where xs: "distinct xs" "\<And>x. x \<in> set xs \<longleftrightarrow> slot_holder ab x \<noteq> None"
      "buckets = map (\<lambda>x. (slot_key x, word_to_be (the (slot_holder ab x)))) xs"
    using read_buckets [of ab buckets] reads(3) sv save by auto
  let ?r = "reloaded ab"
  have r: "slot_holder ?r = slot_holder ab" "slots_agree ?r" "cores_of ?r = cores_of ab"
    "ab_new_entries_size ?r = ab_new_entries_size ab" "ab_tried_entries_size ?r = ab_tried_entries_size ab"
    using book_inv_slots [OF inv] by (simp_all add: reloaded_def slot_holder_def slots_agree_def cores_of_def fun_eq_iff)
  note ix = loaded_index [OF inv ys(1,2)]
  let ?new = "(address_book_new key)\<lparr>ab_key := ab_key ab\<rparr>"
  have "load_services services (sdata_stream_of [] kStorage 0) 1 ?new = (last (1 # ys), loaded_entries ys (\<lambda>eid. the (ab_by_id ab eid)) ?new)"
    unfolding ys(4) by (rule load_services_loads) (use ys(1,2) ok ix(3) in \<open>auto simp: address_book_new_def\<close>)
  moreover have "last (1 # ys) = last (keys_of (ab_by_id ab))"
    using last_sorted [OF ys(1,3)] ne by (simp add: book_empty_def)
  moreover have "load_random_order order (loaded_entries ys (\<lambda>eid. the (ab_by_id ab eid)) ?new\<lparr>ab_last_used_id := last (keys_of (ab_by_id ab)) + 1\<rparr>) = book_at {} ?r"
    unfolding book_at_none by (simp add: load_random_order_def order loaded_entries_def ix(1,2) address_book_new_def reloaded_def)
  moreover have "load_buckets buckets (book_at {} ?r) = Some (book_at (set xs) ?r)"
    using load_buckets_loads [OF r(2) xs(1), of "{}"] xs(2,3) by (simp add: r(1))
  moreover have "book_at (set xs) ?r = ?r"
    by (rule book_at_all) (use r xs(2) book_invD(2) [OF b] in simp_all)
  ultimately show ?thesis
    using ab' book_invD(5) [OF b] reloaded_inv [OF inv ne] by (simp add: book_load_def)
qed

definition small_entry :: node_service_info where
  "small_entry = (node_service_info_new advertised (V4 0x08080404))\<lparr>nsi_new_refs := {0}\<rparr>"

definition small_book :: address_book where
  "small_book = (address_book_new (replicate 16 7))\<lparr>ab_last_used_id := 2, ab_new_entries_size := 1, ab_randomly_ordered_ids := [1],
    ab_new_buckets := [0 \<mapsto> 1], ab_by_id := [1 \<mapsto> small_entry], ab_by_endpoint := [ns_endpoint advertised \<mapsto> 1]\<rparr>"

lemma small_entry_storable: "storable small_entry"
proof -
  have "length (node_service_info_bytes small_entry) = 63"
    by (simp add: small_entry_def advertised_def node_service_info_bytes_def node_service_info_new_def node_service_bytes_def endpoint_bytes_def
        string_bytes_def length_compact_bytes ser_compact_sizeof_def)
  then show ?thesis
    by (simp add: storable_def kMaxStreamSize_eq node_service_info_ok_def small_entry_def advertised_def node_service_info_new_def
        node_service_ok_def seconds_ok_def address_ok_def)
qed

lemma small_book_inv: "book_inv book_env small_book"
proof -
  have c: "cores_of small_book = [1 \<mapsto> core_of small_entry]" "positions_of small_book = [1 \<mapsto> 0]"
    by (auto simp: cores_of_def positions_of_def small_book_def small_entry_def node_service_info_new_def fun_eq_iff)
  have e: "core_of small_entry = \<lparr>ec_new = {0}, ec_tried = None, ec_endpoint = ns_endpoint advertised, ec_origin = V4 0x08080404\<rparr>"
    by (simp add: small_entry_def node_service_info_new_def core_of_def info_endpoint_def)
  have "new_ids [1 \<mapsto> core_of small_entry] = {1}" "tried_ids [1 \<mapsto> core_of small_entry] = {}"
    by (auto simp: new_ids_def tried_ids_def e)
  note ids = this
  have f: "ab_new_entries_size small_book = 1" "ab_tried_entries_size small_book = 0" "ab_new_buckets small_book = [0 \<mapsto> 1]" "ab_tried_buckets small_book = Map.empty"
    "ab_by_endpoint small_book = [ns_endpoint advertised \<mapsto> 1]" "ab_randomly_ordered_ids small_book = [1]" "ab_last_used_id small_book = 2" "length (ab_key small_book) = 16"
    by (simp_all add: small_book_def address_book_new_def)
  have "sizes_ok (cores_of small_book) (ab_new_entries_size small_book) (ab_tried_entries_size small_book)"
    by (simp add: sizes_ok_def c f ids)
  moreover have "buckets_ok {} (cores_of small_book) (ab_new_buckets small_book) (ab_tried_buckets small_book)"
    by (simp add: buckets_ok_def c e f valid_slot_def kBucketSize_def kNewBucketsCount_def kMaxNewBucketReferences_def)
  moreover have "index_ok (cores_of small_book) (ab_by_endpoint small_book)" "order_ok (ab_randomly_ordered_ids small_book) (positions_of small_book)"
    by (auto simp: index_ok_def order_ok_def c e f)
  moreover have "routable_core book_env (core_of small_entry)"
    using routable_examples by (simp add: routable_core_def e routable_service_def)
  ultimately show ?thesis
    by (simp add: book_inv_def book_inv_moving_def c f)
qed

theorem saved_book_loads_witness:
  "\<exists>sv. book_save False small_book = (Some sv, small_book) \<and>
    book_load (Some (sv_seed sv)) (sv_services sv) (sv_random_order sv) (sv_buckets sv) (address_book_new []) = Some (reloaded small_book)"
proof -
  have ne: "\<not> book_empty small_book" and ok: "\<forall>eid i. ab_by_id small_book eid = Some i \<longrightarrow> storable i"
    using small_entry_storable by (simp_all add: small_book_def book_empty_def keys_of_def)
  obtain sv where sv: "book_save False small_book = (Some sv, small_book)"
    using saved_form [OF ne ok] by blast
  have one: "cursor_reads [r] [r]" for r
    by (simp add: cursor_reads_def)
  have "cursor_reads (sv_services sv) (sv_services sv)" "cursor_reads (sv_random_order sv) (sv_random_order sv)" "cursor_reads (sv_buckets sv) (sv_buckets sv)"
    using sv saved_form [OF ne ok] by (auto simp: small_book_def address_book_new_def keys_of_def save_random_order_def one)
  from saved_book_loads [OF small_book_inv ne ok sv this, of "[]"] sv show ?thesis by blast
qed

end
