(* ===== verification/Node.thy ===== *)
theory Node
  imports Message Meters "HOL-Library.Monad_Syntax"
begin

text \<open>
  node/network/node.hpp and node.cpp: a connection to a peer. The state is a record; a handler that the source posts to
  its strand is a task of the queue \<open>nd_tasks\<close>, and an asynchronous read or write is a flag that its completion
  handler answers. The socket, the digest, the clock and the random numbers are parameters: one reading of the clock
  for each handler. A result \<open>None\<close> is a failed assertion. Logging, the texts of errors and the TLS stream are not
  modelled.
\<close>

section \<open>State\<close>

datatype connection_type = kNone | kInbound | kOutbound | kManualOutbound | kSeedOutbound

datatype data_direction_mode = OutboundData | InboundData

definition direction_value :: "data_direction_mode \<Rightarrow> nat" where
  "direction_value d = (case d of OutboundData \<Rightarrow> 0 | InboundData \<Rightarrow> 1)"

datatype node_idle_result =
    kNotIdle | kProtocolHandshakeTimeout | kInboundTimeout | kOutboundTimeout | kPingTimeout | kGlobalTimeout

datatype message_priority = kHigh | kNormal | kLow

definition priority_value :: "message_priority \<Rightarrow> int" where
  "priority_value p = (case p of kHigh \<Rightarrow> 0 | kNormal \<Rightarrow> 1 | kLow \<Rightarrow> 2)"

definition kMaxMessagesPerRead :: nat where "kMaxMessagesPerRead = 32"
definition kMaxBytesPerIO :: nat where "kMaxBytesPerIO = 16 * kKiB"

text \<open>The flags of the protocol handshake.\<close>

definition kNotInitiated :: "32 word" where "kNotInitiated = 0"
definition kVersionSent :: "32 word" where "kVersionSent = push_bit (direction_value OutboundData) 1"
definition kVersionReceived :: "32 word" where "kVersionReceived = push_bit (direction_value InboundData) 1"
definition kVerAckSent :: "32 word" where "kVerAckSent = push_bit (direction_value OutboundData) 4"
definition kVerAckReceived :: "32 word" where "kVerAckReceived = push_bit (direction_value InboundData) 4"
definition kVersionExchanged :: "32 word" where "kVersionExchanged = kVersionSent OR kVersionReceived"
definition kVerAckExchanged :: "32 word" where "kVerAckExchanged = kVerAckSent OR kVerAckReceived"
definition kCompleted :: "32 word" where "kCompleted = kVersionExchanged OR kVerAckExchanged"

lemmas handshake_flag_defs = kNotInitiated_def kVersionSent_def kVersionReceived_def kVerAckSent_def kVerAckReceived_def
  kVersionExchanged_def kVerAckExchanged_def kCompleted_def direction_value_def

text \<open>The handlers that are posted to the strand of a node.\<close>

datatype node_task = StartRead | StartWrite | StartSslHandshake | StopNode | OnStopCompleted | OnHandshakeCompleted

record node_env =
  nev_sha256 :: "bytes \<Rightarrow> bytes option"
  nev_magic :: bytes
  nev_ping_timeout_milliseconds :: int
  nev_handshake_timeout_seconds :: int
  nev_inbound_timeout_seconds :: int
  nev_outbound_timeout_seconds :: int
  nev_idle_timeout_seconds :: "32 word"

record message_metrics =
  mm_count :: "32 word"
  mm_bytes :: "64 word"

type_synonym message_queue_item = "message \<times> message_priority"

record node =
  nd_state :: component_status
  nd_socket_open :: bool
  nd_connection_type :: connection_type
  nd_secure :: bool
  nd_handshake :: "32 word"
  nd_version :: int
  nd_local_version :: version_payload
  nd_remote_version :: version_payload
  nd_connected_time :: int
  nd_last_message_received_time :: int
  nd_last_message_sent_time :: int
  nd_inbound_message_start_time :: "int option"
  nd_outbound_message_start_time :: "int option"
  nd_inbound_message :: "message option"
  nd_is_writing :: bool
  nd_outbound_messages_queue :: "message_queue_item list"
  nd_outbound_message :: "message option"
  nd_send_buffer :: bytes
  nd_inbound_metrics :: "message_type \<Rightarrow> message_metrics"
  nd_outbound_metrics :: "message_type \<Rightarrow> message_metrics"
  nd_ping_meter :: ping_meter
  nd_traffic_meter :: traffic_meter
  nd_ping_timer :: bool
  nd_tasks :: "node_task list"
  nd_reading :: bool
  nd_write_pending :: bool
  nd_delivered :: "message_payload list"
  nd_disconnected :: nat

definition post :: "node_task \<Rightarrow> node \<Rightarrow> node" where
  "post t n = n\<lparr>nd_tasks := nd_tasks n @ [t]\<rparr>"

definition count_message :: "nat \<Rightarrow> message_metrics \<Rightarrow> message_metrics" where
  "count_message bytes m = m\<lparr>mm_count := mm_count m + 1, mm_bytes := mm_bytes m + of_nat bytes\<rparr>"

section \<open>Queries\<close>

definition fully_connected :: "node \<Rightarrow> bool" where
  "fully_connected n = (is_running (nd_state n) \<and> nd_socket_open n \<and> nd_handshake n = kCompleted)"

definition has_service :: "64 word \<Rightarrow> node \<Rightarrow> bool" where
  "has_service service n = (fully_connected n \<and> vp_services (nd_local_version n) AND service \<noteq> 0)"

definition is_relayer :: "node \<Rightarrow> bool" where
  "is_relayer n = (fully_connected n \<and> vp_relay (nd_local_version n))"

section \<open>Sending\<close>

text \<open>The queue of messages is a \<open>std::priority_queue\<close> ordered by the value of the priority: its top is some item with the
  greatest value, which one of several is the choice \<open>pick\<close> of the library.\<close>

definition queue_tops :: "message_queue_item list \<Rightarrow> nat list" where
  "queue_tops q = filter (\<lambda>i. list_all (\<lambda>x. \<not> priority_value (snd (q ! i)) < priority_value (snd x)) q) [0..<length q]"

definition queue_top :: "nat \<Rightarrow> message_queue_item list \<Rightarrow> nat" where
  "queue_top pick q = queue_tops q ! (pick mod length (queue_tops q))"

definition queue_pop :: "nat \<Rightarrow> message_queue_item list \<Rightarrow> message_queue_item list" where
  "queue_pop pick q = take (queue_top pick q) q @ drop (Suc (queue_top pick q)) q"

definition push_message :: "node_env \<Rightarrow> message_payload \<Rightarrow> message_priority \<Rightarrow> node \<Rightarrow> (error_code status \<times> node) option" where
  "push_message env payload priority n =
    (case message_push (nev_sha256 env) payload (message_new (nd_version n) (nev_magic env)) of
      None \<Rightarrow> None
    | Some (Some e, _, _) \<Rightarrow> Some (Some e, n)
    | Some (None, _, m) \<Rightarrow>
        Some (None, post StartWrite (n\<lparr>nd_outbound_messages_queue := nd_outbound_messages_queue n @ [(m, priority)]\<rparr>)))"

definition push_message_type :: "node_env \<Rightarrow> message_type \<Rightarrow> message_priority \<Rightarrow> node \<Rightarrow> (error_code status \<times> node) option" where
  "push_message_type env t priority n =
    (case null_payload t of None \<Rightarrow> None | Some p \<Rightarrow> push_message env p priority n)"

section \<open>Protocol handshake\<close>

definition handshake_flag :: "data_direction_mode \<Rightarrow> message_type \<Rightarrow> 32 word" where
  "handshake_flag direction t =
    (case t of kVersion \<Rightarrow> push_bit (direction_value direction) 1 | kVerAck \<Rightarrow> push_bit (direction_value direction) 4 | _ \<Rightarrow> 0)"

definition validate_message_for_protocol_handshake ::
  "data_direction_mode \<Rightarrow> message_type \<Rightarrow> node \<Rightarrow> error_code status \<times> node" where
  "validate_message_for_protocol_handshake direction t n =
    (let current_status = nd_handshake n
     in if current_status = kNotInitiated \<and> t \<noteq> kVersion then (Some (NetError kInvalidProtocolHandShake), n)
        else if current_status = kCompleted
        then (if t = kVersion \<or> t = kVerAck then (Some (NetError kDuplicateProtocolHandShake), n) else (None, n))
        else
         let new_status_flag = handshake_flag direction t
         in if new_status_flag \<noteq> 0 \<and> current_status AND new_status_flag = new_status_flag
            then (Some (NetError kDuplicateProtocolHandShake), n)
            else if new_status_flag \<noteq> 0
            then
              (let new_status = current_status OR new_status_flag; n = n\<lparr>nd_handshake := new_status\<rparr>
               in (None, if new_status = kCompleted then post OnHandshakeCompleted n else n))
            else if current_status < kVersionExchanged then (Some (NetError kInvalidProtocolHandShake), n)
            else (None, n))"

section \<open>Writing\<close>

text \<open>The message in the barrel: its validity when it is at its beginning, and the next piece of its data.\<close>

definition begin_message :: "int \<Rightarrow> message \<Rightarrow> node \<Rightarrow> error_code status \<times> node" where
  "begin_message now m n =
    (if stream_tellg (msg_stream m) \<noteq> 0 then (None, n)
     else
      let t = message_get_type m
      in case validate_message_for_protocol_handshake OutboundData t n of
          (Some e, n) \<Rightarrow> (Some e, n)
        | (None, n) \<Rightarrow>
            (None, n\<lparr>nd_outbound_metrics := (nd_outbound_metrics n)(t := count_message (stream_size (msg_stream m)) (nd_outbound_metrics n t)),
              nd_ping_meter := (if t = kPing then start_sample now (nd_ping_meter n) else nd_ping_meter n),
              nd_outbound_message_start_time := Some now\<rparr>))"

definition write_piece :: "int \<Rightarrow> message \<Rightarrow> node \<Rightarrow> node option" where
  "write_piece now m n =
    (case begin_message now m n of
      (Some e, n) \<Rightarrow> Some (post StopNode (n\<lparr>nd_outbound_message := None, nd_is_writing := False\<rparr>))
    | (None, n) \<Rightarrow>
        (case stream_read (Some (min kMaxBytesPerIO (stream_avail (msg_stream m)))) (msg_stream m) of
          (Failure e, s) \<Rightarrow> None
        | (Success data, s) \<Rightarrow>
            Some (n\<lparr>nd_outbound_message := Some (m\<lparr>msg_stream := s\<rparr>), nd_send_buffer := nd_send_buffer n @ data, nd_write_pending := True\<rparr>)))"

definition retire_message :: "int \<Rightarrow> node \<Rightarrow> node" where
  "retire_message now n =
    (case nd_outbound_message n of
      None \<Rightarrow> n
    | Some m \<Rightarrow>
        if \<not> stream_eof (msg_stream m) then n
        else
         let n = (if message_get_type m \<noteq> kPing \<and> message_get_type m \<noteq> kPong then n\<lparr>nd_last_message_sent_time := now\<rparr> else n)
         in n\<lparr>nd_outbound_message_start_time := None, nd_outbound_message := None\<rparr>)"

definition start_write :: "int \<Rightarrow> nat \<Rightarrow> node \<Rightarrow> node option" where
  "start_write now pick n =
    (if \<not> nd_socket_open n \<or> nd_is_writing n then Some n
     else
      let n = retire_message now (n\<lparr>nd_is_writing := True\<rparr>)
      in case nd_outbound_message n of
          Some m \<Rightarrow> write_piece now m n
        | None \<Rightarrow>
            if nd_outbound_messages_queue n = [] then Some (n\<lparr>nd_is_writing := False\<rparr>)
            else
             let q = nd_outbound_messages_queue n;
                 m = fst (q ! queue_top pick q);
                 m = m\<lparr>msg_stream := snd (stream_seekg 0 (msg_stream m))\<rparr>
             in write_piece now m (n\<lparr>nd_outbound_message := Some m, nd_outbound_messages_queue := queue_pop pick q\<rparr>))"

text \<open>The completion of a write: \<open>failed\<close> is an error code, and the socket has taken \<open>bytes_transferred\<close> bytes.\<close>

definition handle_write :: "bool \<Rightarrow> nat \<Rightarrow> node \<Rightarrow> node" where
  "handle_write failed bytes_transferred n =
    (let n = n\<lparr>nd_write_pending := False\<rparr>
     in if \<not> is_running (nd_state n) then n\<lparr>nd_is_writing := False\<rparr>
        else if failed then post StopNode (n\<lparr>nd_is_writing := False\<rparr>)
        else
         let n = (if bytes_transferred > 0
                  then n\<lparr>nd_send_buffer := drop bytes_transferred (nd_send_buffer n),
                         nd_traffic_meter := update_outbound (of_nat bytes_transferred) (nd_traffic_meter n)\<rparr>
                  else n)
         in if nd_send_buffer n \<noteq> [] then n\<lparr>nd_write_pending := True\<rparr>
            else post StartWrite (n\<lparr>nd_is_writing := False\<rparr>))"

section \<open>Processing of inbound messages\<close>

text \<open>The payload that the node hub receives is the one that was read, but for a version: it has been swapped with the version
  that the node held before.\<close>

definition deliver :: "message_payload \<Rightarrow> node \<Rightarrow> node" where
  "deliver p n = n\<lparr>nd_delivered := nd_delivered n @ [p]\<rparr>"

definition process_version :: "node_env \<Rightarrow> version_payload \<Rightarrow> node \<Rightarrow> (error_code status \<times> message_payload option \<times> node) option" where
  "process_version env v n =
    (if max (min (sint (vp_protocol_version v)) kMaxSupportedProtocolVersion) kMinSupportedProtocolVersion \<noteq> sint (vp_protocol_version v)
     then Some (Some (NetError kInvalidProtocolVersion), None, n)
     else if vp_nonce v = vp_nonce (nd_local_version n) then Some (Some (NetError kConnectedToSelf), None, n)
     else
       do {
         let held = nd_remote_version n;
         let n = n\<lparr>nd_remote_version := v,
           nd_version := min (sint (vp_protocol_version (nd_local_version n))) (sint (vp_protocol_version v))\<rparr>;
         (_, n) \<leftarrow> (if nd_handshake n AND kVersionSent = 0 then push_message env (VersionPayload (nd_local_version n)) kHigh n else Some (None, n));
         (_, n) \<leftarrow> push_message_type env kVerAck kHigh n;
         Some (None, Some (VersionPayload held), n)
       })"

definition process_pong :: "int \<Rightarrow> 64 word \<Rightarrow> node \<Rightarrow> (error_code status \<times> node) option" where
  "process_pong now nonce n =
    (case pm_nonce (nd_ping_meter n) of
      None \<Rightarrow> Some (Some (NetError kUnsolicitedPong), n)
    | Some expected \<Rightarrow>
        if \<not> pending_sample (nd_ping_meter n) then Some (Some (NetError kUnsolicitedPong), n)
        else if nonce \<noteq> expected then Some (Some (NetError kInvalidPingPongNonce), n)
        else map_option (\<lambda>pm. (None, n\<lparr>nd_ping_meter := pm\<rparr>)) (end_sample now now (nd_ping_meter n)))"

text \<open>The result, the payload for the node hub and the node.\<close>

definition dispatch_message :: "node_env \<Rightarrow> int \<Rightarrow> message_payload \<Rightarrow> node \<Rightarrow> (error_code status \<times> message_payload option \<times> node) option" where
  "dispatch_message env now p n =
    (case p of
      VersionPayload v \<Rightarrow> process_version env v n
    | NullPayload t \<Rightarrow>
        if t = kVerAck then Some (None, None, n)
        else if t = kGetAddr
        then Some (None, if nd_connection_type n = kInbound \<and> mm_count (nd_inbound_metrics n kGetAddr) > 1 then None else Some p, n)
        else Some (None, Some p, n)
    | PingPongPayload t nonce \<Rightarrow>
        if t = kPing
        then
          (case ping_pong_payload kPong nonce of
            None \<Rightarrow> None
          | Some pong \<Rightarrow> map_option (\<lambda>(r, n). (r, None, n)) (push_message env pong kHigh n))
        else map_option (\<lambda>(r, n). (r, None, n)) (process_pong now nonce n)
    | _ \<Rightarrow> Some (None, Some p, n))"

definition process_inbound_message :: "node_env \<Rightarrow> int \<Rightarrow> message_payload \<Rightarrow> node \<Rightarrow> (error_code status \<times> node) option" where
  "process_inbound_message env now p n =
    (case dispatch_message env now p n of
      None \<Rightarrow> None
    | Some (Some e, _, n) \<Rightarrow> Some (Some e, n)
    | Some (None, notify, n) \<Rightarrow>
        let n = (if payload_type p \<noteq> kPing \<and> payload_type p \<noteq> kPong then n\<lparr>nd_last_message_received_time := now\<rparr> else n)
        in Some (None, case notify of None \<Rightarrow> n | Some q \<Rightarrow> deliver q n))"

section \<open>Reading\<close>

definition reset_inbound :: "node \<Rightarrow> node" where
  "reset_inbound n = n\<lparr>nd_inbound_message := None, nd_inbound_message_start_time := None\<rparr>"

text \<open>A message whose bytes are complete.\<close>

definition receive_message :: "node_env \<Rightarrow> int \<Rightarrow> message \<Rightarrow> nat \<Rightarrow> node \<Rightarrow> (error_code status \<times> nat \<times> node) option" where
  "receive_message env now m messages_parsed n =
    (let t = message_get_type m
     in case validate_message_for_protocol_handshake InboundData t n of
         (Some e, n) \<Rightarrow> Some (Some e, messages_parsed, n)
       | (None, n) \<Rightarrow>
           if t = kMissingOrUnknown then None
           else
            (case payload_from_type t of
              None \<Rightarrow> None
            | Some None \<Rightarrow> Some (Some (NetError kMessagePayLoadUnhandleable), messages_parsed, n)
            | Some (Some p) \<Rightarrow>
                (case payload_serialization kDeserialize (p, msg_stream m) of
                  (Some e, _, _) \<Rightarrow> Some (Some e, messages_parsed, n)
                | (None, p, s) \<Rightarrow>
                    if \<not> stream_eof s then Some (Some (NetError kMessagePayloadExtraData), messages_parsed, n)
                    else if messages_parsed + 1 > kMaxMessagesPerRead
                    then Some (Some (NetError kMessageFloodingDetected), messages_parsed + 1, n)
                    else
                     (case process_inbound_message env now p n of
                       None \<Rightarrow> None
                     | Some (Some e, n) \<Rightarrow> Some (Some e, messages_parsed + 1, n)
                     | Some (None, n) \<Rightarrow>
                         Some (None, messages_parsed + 1, reset_inbound (n\<lparr>nd_inbound_metrics :=
                           (nd_inbound_metrics n)(t := count_message (stream_size s) (nd_inbound_metrics n t))\<rparr>))))))"

text \<open>One iteration of the loop over the received bytes; the outer \<open>None\<close> is a write that does not return.\<close>

definition parse_step ::
  "node_env \<Rightarrow> int \<Rightarrow> bytes \<Rightarrow> nat \<Rightarrow> node \<Rightarrow> (error_code status \<times> bytes \<times> nat \<times> node) option option" where
  "parse_step env now data messages_parsed n =
    (let (m, n) = (case nd_inbound_message n of
            Some m \<Rightarrow> (m, n)
          | None \<Rightarrow> (message_new (nd_version n) (nev_magic env), n\<lparr>nd_inbound_message_start_time := Some now\<rparr>))
     in case message_write (nev_sha256 env) data m of
         None \<Rightarrow> None
       | Some None \<Rightarrow> Some None
       | Some (Some (Some e, data, m)) \<Rightarrow> Some (Some (Some e, data, messages_parsed, n\<lparr>nd_inbound_message := Some m\<rparr>))
       | Some (Some (None, data, m)) \<Rightarrow>
           Some (map_option (\<lambda>(r, k, n). (r, data, k, n)) (receive_message env now m messages_parsed (n\<lparr>nd_inbound_message := Some m\<rparr>))))"

partial_function (option) parse_loop ::
  "node_env \<Rightarrow> int \<Rightarrow> bytes \<Rightarrow> nat \<Rightarrow> node \<Rightarrow> (error_code status \<times> node) option option" where
  "parse_loop env now data messages_parsed n =
    (if data = [] then Some (Some (None, n))
     else
      (case parse_step env now data messages_parsed n of
        None \<Rightarrow> None
      | Some None \<Rightarrow> Some None
      | Some (Some (r, data, k, n)) \<Rightarrow>
          if r = None \<or> is_incomplete r then parse_loop env now data k n else Some (Some (r, reset_inbound n))))"

definition parse_messages :: "node_env \<Rightarrow> int \<Rightarrow> bytes \<Rightarrow> node \<Rightarrow> (error_code status \<times> node) option option" where
  "parse_messages env now data n = parse_loop env now data 0 n"

definition start_read :: "node \<Rightarrow> node" where
  "start_read n = (if \<not> nd_socket_open n then n else n\<lparr>nd_reading := True\<rparr>)"

text \<open>The completion of a read.\<close>

definition handle_read :: "node_env \<Rightarrow> int \<Rightarrow> bool \<Rightarrow> bytes \<Rightarrow> node \<Rightarrow> node option option" where
  "handle_read env now failed data n =
    (let n = n\<lparr>nd_reading := False\<rparr>
     in if \<not> is_running (nd_state n) then Some (Some n)
        else if failed then Some (Some (post StopNode n))
        else if data = [] then Some (Some (post StartRead n))
        else
         (case parse_messages env now data (n\<lparr>nd_traffic_meter := update_inbound (of_nat (length data)) (nd_traffic_meter n)\<rparr>) of
           None \<Rightarrow> None
         | Some None \<Rightarrow> Some None
         | Some (Some (Some e, n)) \<Rightarrow> Some (Some (post StopNode n))
         | Some (Some (None, n)) \<Rightarrow> Some (Some (post StartRead n))))"

section \<open>Life of a node\<close>

definition kNodeGetUTXO :: "64 word" where "kNodeGetUTXO = 2"

text \<open>The version that a node presents: \<open>listen_port\<close> is the port of the configured local endpoint.\<close>

definition local_version_of :: "int \<Rightarrow> ip_endpoint \<Rightarrow> ip_endpoint \<Rightarrow> 16 word \<Rightarrow> 16 word \<Rightarrow> 64 word \<Rightarrow> bytes \<Rightarrow> version_payload" where
  "local_version_of unix_now remote local listen_port default_port nonce agent =
    \<lparr>vp_protocol_version = of_int kDefaultProtocolVersion, vp_services = 1 OR kNodeGetUTXO, vp_timestamp = of_int unix_now,
     vp_recipient_service = node_service_new\<lparr>ns_endpoint := remote\<rparr>,
     vp_sender_service = node_service_new\<lparr>ns_endpoint := local\<lparr>ep_port := if listen_port = 0 then default_port else listen_port\<rparr>\<rparr>,
     vp_nonce = nonce, vp_user_agent = agent, vp_last_block_height = 0, vp_relay = True\<rparr>"

definition no_metrics :: message_metrics where
  "no_metrics = \<lparr>mm_count = 0, mm_bytes = 0\<rparr>"

definition kDefaultAlpha :: rat where "kDefaultAlpha = 65 / 100"

definition node_new :: "connection_type \<Rightarrow> bool \<Rightarrow> version_payload \<Rightarrow> int \<Rightarrow> node" where
  "node_new type secure local_version now =
    \<lparr>nd_state = kNotStarted, nd_socket_open = True, nd_connection_type = type, nd_secure = secure, nd_handshake = kNotInitiated,
     nd_version = kDefaultProtocolVersion, nd_local_version = local_version, nd_remote_version = version_payload_new,
     nd_connected_time = 0, nd_last_message_received_time = 0, nd_last_message_sent_time = 0,
     nd_inbound_message_start_time = None, nd_outbound_message_start_time = None, nd_inbound_message = None,
     nd_is_writing = False, nd_outbound_messages_queue = [], nd_outbound_message = None, nd_send_buffer = [],
     nd_inbound_metrics = (\<lambda>_. no_metrics), nd_outbound_metrics = (\<lambda>_. no_metrics), nd_ping_meter = the (ping_meter_new kDefaultAlpha),
     nd_traffic_meter = traffic_meter_new now, nd_ping_timer = False, nd_tasks = [], nd_reading = False,
     nd_write_pending = False, nd_delivered = [], nd_disconnected = 0\<rparr>"

text \<open>Unless the connection is inbound, the node presents itself first; the outcome of the push is ignored.\<close>

definition present_itself :: "node_env \<Rightarrow> node \<Rightarrow> node option" where
  "present_itself env n =
    (if nd_connection_type n \<noteq> kInbound then map_option snd (push_message env (VersionPayload (nd_local_version n)) kNormal n) else Some n)"

definition node_start :: "node_env \<Rightarrow> int \<Rightarrow> node \<Rightarrow> (bool \<times> node) option" where
  "node_start env now n =
    (let (started, state) = stoppable_start (nd_state n)
     in if \<not> started then Some (False, n)
        else
         let n = n\<lparr>nd_state := state, nd_last_message_received_time := now, nd_last_message_sent_time := now, nd_connected_time := now\<rparr>
         in if nd_secure n then Some (True, post StartSslHandshake n)
            else map_option (Pair True) (present_itself env (post StartRead n)))"

definition node_stop :: "node \<Rightarrow> bool \<times> node" where
  "node_stop n =
    (let (stopped, state) = stoppable_stop (nd_state n)
     in if stopped then (True, post OnStopCompleted (n\<lparr>nd_state := state, nd_ping_timer := False\<rparr>)) else (False, n))"

definition on_stop_completed :: "node \<Rightarrow> node" where
  "on_stop_completed n = n\<lparr>nd_socket_open := False, nd_disconnected := nd_disconnected n + 1, nd_state := set_stopped (nd_state n)\<rparr>"

definition handle_ssl_handshake :: "node_env \<Rightarrow> bool \<Rightarrow> node \<Rightarrow> node option" where
  "handle_ssl_handshake env failed n =
    (if failed then Some (post StopNode n) else present_itself env (start_read n))"

text \<open>The interval of the timer after a ping; the nonce and the interval are random numbers.\<close>

definition on_ping_timer_expired :: "node_env \<Rightarrow> 64 word \<Rightarrow> nat \<Rightarrow> nat \<Rightarrow> node \<Rightarrow> (nat \<times> node) option" where
  "on_ping_timer_expired env nonce random_milliseconds interval n =
    (if \<not> is_running (nd_state n) \<or> pending_sample (nd_ping_meter n) then Some (interval, n)
     else
       do {
         ping_payload \<leftarrow> ping_pong_payload kPing nonce;
         (r, n) \<leftarrow> push_message env ping_payload kHigh n;
         if r \<noteq> None then Some (0, snd (node_stop n))
         else Some (random_milliseconds, n\<lparr>nd_ping_meter := set_nonce nonce (nd_ping_meter n)\<rparr>)
       })"

definition on_handshake_completed :: "node_env \<Rightarrow> 64 word \<Rightarrow> nat \<Rightarrow> node \<Rightarrow> node option" where
  "on_handshake_completed env nonce random_milliseconds n =
    (if \<not> is_running (nd_state n) then Some n
     else
       do {
         (_, n) \<leftarrow> on_ping_timer_expired env nonce random_milliseconds random_milliseconds n;
         let n = n\<lparr>nd_ping_timer := True\<rparr>;
         if nd_connection_type n \<noteq> kInbound then map_option snd (push_message_type env kGetAddr kNormal n) else Some n
       })"

section \<open>Idle connections\<close>

definition seconds_between :: "int \<Rightarrow> int \<Rightarrow> int" where
  "seconds_between now since = (if now < since then - ((since - now) div kNanosPerSecond) else (now - since) div kNanosPerSecond)"

definition overdue :: "int \<Rightarrow> int \<Rightarrow> int option \<Rightarrow> bool" where
  "overdue now timeout since = (case since of None \<Rightarrow> False | Some t \<Rightarrow> seconds_between now t > timeout)"

definition is_idle :: "node_env \<Rightarrow> int \<Rightarrow> node \<Rightarrow> node_idle_result option" where
  "is_idle env now n =
    (if \<not> is_running (nd_state n) \<or> \<not> nd_socket_open n then Some kNotIdle
     else
      (case pending_sample_duration now (nd_ping_meter n) of
        None \<Rightarrow> None
      | Some ping_duration \<Rightarrow>
          if ping_duration > nev_ping_timeout_milliseconds env then Some kPingTimeout
          else if nd_handshake n \<noteq> kCompleted \<and> seconds_between now (nd_connected_time n) > nev_handshake_timeout_seconds env
          then Some kProtocolHandshakeTimeout
          else if overdue now (nev_inbound_timeout_seconds env) (nd_inbound_message_start_time n) then Some kInboundTimeout
          else if overdue now (nev_outbound_timeout_seconds env) (nd_outbound_message_start_time n) then Some kOutboundTimeout
          else if (of_int (seconds_between now (max (nd_last_message_received_time n) (nd_last_message_sent_time n))) :: 32 word) \<ge>
            nev_idle_timeout_seconds env
          then Some kGlobalTimeout else Some kNotIdle))"

section \<open>Steps\<close>

text \<open>What the library decides: the time, the choice among equal priorities and the random numbers.\<close>

record node_choice =
  ch_now :: int
  ch_pick :: nat
  ch_nonce :: "64 word"
  ch_interval :: nat

definition run_task :: "node_env \<Rightarrow> node_choice \<Rightarrow> node_task \<Rightarrow> node \<Rightarrow> node option" where
  "run_task env ch t n =
    (case t of
      StartRead \<Rightarrow> Some (start_read n)
    | StartWrite \<Rightarrow> start_write (ch_now ch) (ch_pick ch) n
    | StartSslHandshake \<Rightarrow> Some n
    | StopNode \<Rightarrow> Some (snd (node_stop n))
    | OnStopCompleted \<Rightarrow> Some (on_stop_completed n)
    | OnHandshakeCompleted \<Rightarrow> on_handshake_completed env (ch_nonce ch) (ch_interval ch) n)"

text \<open>The strand runs the posted handlers one after another, in the order in which they were posted.\<close>

definition run_next :: "node_env \<Rightarrow> node_choice \<Rightarrow> node \<Rightarrow> node option" where
  "run_next env ch n =
    (case nd_tasks n of [] \<Rightarrow> Some n | t # ts \<Rightarrow> run_task env ch t (n\<lparr>nd_tasks := ts\<rparr>))"

inductive node_step :: "node_env \<Rightarrow> node \<Rightarrow> node \<Rightarrow> bool" for env where
  task: "run_next env ch n = Some n' \<Longrightarrow> node_step env n n'"
| read: "nd_reading n \<Longrightarrow> handle_read env now failed data n = Some (Some n') \<Longrightarrow> node_step env n n'"
| written: "nd_write_pending n \<Longrightarrow> k \<le> length (nd_send_buffer n) \<Longrightarrow> handle_write failed k n = n' \<Longrightarrow> node_step env n n'"
| ssl: "handle_ssl_handshake env failed n = Some n' \<Longrightarrow> node_step env n n'"
| push: "push_message env p priority n = Some (r, n') \<Longrightarrow> node_step env n n'"
| ping: "nd_ping_timer n \<Longrightarrow> on_ping_timer_expired env nonce ms interval n = Some (i, n') \<Longrightarrow> node_step env n n'"
| stop: "node_stop n = (r, n') \<Longrightarrow> node_step env n n'"

inductive node_reachable :: "node_env \<Rightarrow> node \<Rightarrow> bool" for env where
  start: "node_start env now (node_new type secure v now) = Some (r, n) \<Longrightarrow> node_reachable env n"
| step: "node_reachable env n \<Longrightarrow> node_step env n n' \<Longrightarrow> node_reachable env n'"

end
