(* ===== verification/Node_Handshake.thy ===== *)
theory Node_Handshake
  imports Node
begin

text \<open>
  The protocol handshake, the sending side and the idle check of a node (node/network/node.cpp): which sequences of
  messages the handshake lets pass, that the socket takes whole messages in the order in which they leave the queue,
  and when a silent peer is reported.
\<close>

section \<open>Sequences of messages\<close>

fun accept_all :: "(data_direction_mode \<times> message_type) list \<Rightarrow> node \<Rightarrow> node option" where
  "accept_all [] n = Some n"
| "accept_all ((d, t) # es) n =
    (case validate_message_for_protocol_handshake d t n of (None, n) \<Rightarrow> accept_all es n | (Some e, n) \<Rightarrow> None)"

lemma accept_all_append:
  "accept_all (es @ fs) n = (case accept_all es n of None \<Rightarrow> None | Some n \<Rightarrow> accept_all fs n)"
  by (induction es n rule: accept_all.induct) (auto split: prod.splits option.splits)

text \<open>The status as the set of the four messages that were exchanged.\<close>

definition status_of :: "(data_direction_mode \<times> message_type) set \<Rightarrow> 32 word" where
  "status_of S =
    (if (OutboundData, kVersion) \<in> S then 1 else 0) + (if (InboundData, kVersion) \<in> S then 2 else 0) +
    (if (OutboundData, kVerAck) \<in> S then 4 else 0) + (if (InboundData, kVerAck) \<in> S then 8 else 0)"

definition handshake_messages :: "(data_direction_mode \<times> message_type) set" where
  "handshake_messages = {OutboundData, InboundData} \<times> {kVersion, kVerAck}"

lemma flags: "kNotInitiated = 0" "kVersionExchanged = 3" "kCompleted = 15" "kVersionSent = 1"
  "handshake_flag OutboundData kVersion = 1" "handshake_flag InboundData kVersion = 2"
  "handshake_flag OutboundData kVerAck = 4" "handshake_flag InboundData kVerAck = 8"
  "t \<noteq> kVersion \<Longrightarrow> t \<noteq> kVerAck \<Longrightarrow> handshake_flag d t = 0"
  by (simp_all add: handshake_flag_defs handshake_flag_def push_bit_eq_mult split: message_type.split)

lemma status_cases:
  obtains "status_of S = 0" "S \<inter> handshake_messages = {}" | "status_of S = 15" "handshake_messages \<subseteq> S"
  | "status_of S \<noteq> 0" "status_of S \<noteq> 15" "S \<inter> handshake_messages \<noteq> {}" "\<not> handshake_messages \<subseteq> S"
  by (cases "(OutboundData, kVersion) \<in> S"; cases "(InboundData, kVersion) \<in> S"; cases "(OutboundData, kVerAck) \<in> S";
    cases "(InboundData, kVerAck) \<in> S") (auto simp: status_of_def handshake_messages_def)

lemma status_completed: "status_of S = kCompleted \<longleftrightarrow> handshake_messages \<subseteq> S" "status_of S = kNotInitiated \<longleftrightarrow> S \<inter> handshake_messages = {}"
proof -
  have "(status_of S = kCompleted \<longleftrightarrow> handshake_messages \<subseteq> S) \<and> (status_of S = kNotInitiated \<longleftrightarrow> S \<inter> handshake_messages = {})"
    by (rule status_cases [of S]) (auto simp: flags handshake_messages_def)
  then show "status_of S = kCompleted \<longleftrightarrow> handshake_messages \<subseteq> S" "status_of S = kNotInitiated \<longleftrightarrow> S \<inter> handshake_messages = {}" by blast+
qed

lemma status_flag:
  assumes "(d, t) \<in> handshake_messages"
  shows "handshake_flag d t \<noteq> 0" "status_of S AND handshake_flag d t = handshake_flag d t \<longleftrightarrow> (d, t) \<in> S"
    "(d, t) \<notin> S \<Longrightarrow> status_of S OR handshake_flag d t = status_of (insert (d, t) S)"
proof -
  consider "d = OutboundData" "t = kVersion" | "d = InboundData" "t = kVersion" | "d = OutboundData" "t = kVerAck" | "d = InboundData" "t = kVerAck"
    using assms by (auto simp: handshake_messages_def)
  then have "handshake_flag d t \<noteq> 0 \<and> (status_of S AND handshake_flag d t = handshake_flag d t \<longleftrightarrow> (d, t) \<in> S) \<and>
      ((d, t) \<notin> S \<longrightarrow> status_of S OR handshake_flag d t = status_of (insert (d, t) S))"
    by cases (cases "(OutboundData, kVersion) \<in> S"; cases "(InboundData, kVersion) \<in> S"; cases "(OutboundData, kVerAck) \<in> S";
      cases "(InboundData, kVerAck) \<in> S"; simp add: flags status_of_def)+
  then show "handshake_flag d t \<noteq> 0" "status_of S AND handshake_flag d t = handshake_flag d t \<longleftrightarrow> (d, t) \<in> S"
    "(d, t) \<notin> S \<Longrightarrow> status_of S OR handshake_flag d t = status_of (insert (d, t) S)" by blast+
qed

text \<open>What the handshake decides, for a status that stands for the set \<open>S\<close> of exchanged messages.\<close>

lemma validate_handshake_message:
  assumes n: "nd_handshake n = status_of S" and m: "(d, t) \<in> handshake_messages"
  shows "validate_message_for_protocol_handshake d t n =
    (if S \<inter> handshake_messages = {} \<and> t \<noteq> kVersion then (Some (NetError kInvalidProtocolHandShake), n)
     else if (d, t) \<in> S then (Some (NetError kDuplicateProtocolHandShake), n)
     else (None, (if handshake_messages \<subseteq> insert (d, t) S then post OnHandshakeCompleted else id) (n\<lparr>nd_handshake := status_of (insert (d, t) S)\<rparr>)))"
proof -
  have t: "t = kVersion \<or> t = kVerAck" using m by (auto simp: handshake_messages_def)
  show ?thesis
  proof (cases "handshake_messages \<subseteq> S")
    case True
    then show ?thesis
      using m t status_completed [of S] by (auto simp: validate_message_for_protocol_handshake_def n)
  next
    case False
    then show ?thesis
      using status_flag(1) [OF m] status_flag(2,3) [OF m, of S] status_completed by (auto simp: validate_message_for_protocol_handshake_def n Let_def)
  qed
qed

lemma validate_other_message:
  assumes n: "nd_handshake n = status_of S" and t: "t \<noteq> kVersion" "t \<noteq> kVerAck"
  shows "validate_message_for_protocol_handshake d t n =
    (if status_of S < kVersionExchanged then (Some (NetError kInvalidProtocolHandShake), n) else (None, n))"
  using t by (auto simp: validate_message_for_protocol_handshake_def n Let_def flags)

lemma validate_handshake:
  assumes n: "nd_handshake n = status_of S" and v: "validate_message_for_protocol_handshake d t n = (None, n')"
  shows "nd_handshake n' = status_of (insert (d, t) S)" "(d, t) \<in> handshake_messages \<Longrightarrow> (d, t) \<notin> S"
    "S \<inter> handshake_messages = {} \<Longrightarrow> t = kVersion"
    "nd_tasks n' = nd_tasks n @ (if handshake_messages \<subseteq> insert (d, t) S \<and> \<not> handshake_messages \<subseteq> S then [OnHandshakeCompleted] else [])"
proof -
  have "nd_handshake n' = status_of (insert (d, t) S) \<and> ((d, t) \<in> handshake_messages \<longrightarrow> (d, t) \<notin> S) \<and>
    (S \<inter> handshake_messages = {} \<longrightarrow> t = kVersion) \<and>
    nd_tasks n' = nd_tasks n @ (if handshake_messages \<subseteq> insert (d, t) S \<and> \<not> handshake_messages \<subseteq> S then [OnHandshakeCompleted] else [])"
  proof (cases "t = kVersion \<or> t = kVerAck")
    case True
    then have m: "(d, t) \<in> handshake_messages"
      by (cases d) (auto simp: handshake_messages_def)
    show ?thesis
      using v m unfolding validate_handshake_message [OF n m] by (auto simp: post_def split: if_splits)
  next
    case False
    then have t: "t \<noteq> kVersion" "t \<noteq> kVerAck" by simp_all
    have "status_of (insert (d, t) S) = status_of S" "(d, t) \<notin> handshake_messages"
      using t by (simp_all add: status_of_def handshake_messages_def)
    then show ?thesis
      using v n t status_completed(2) [of S] unfolding validate_other_message [OF n t] by (auto simp: flags split: if_splits)
  qed
  then show "nd_handshake n' = status_of (insert (d, t) S)" "(d, t) \<in> handshake_messages \<Longrightarrow> (d, t) \<notin> S"
    "S \<inter> handshake_messages = {} \<Longrightarrow> t = kVersion"
    "nd_tasks n' = nd_tasks n @ (if handshake_messages \<subseteq> insert (d, t) S \<and> \<not> handshake_messages \<subseteq> S then [OnHandshakeCompleted] else [])"
    by blast+
qed

lemma accepted_sequence:
  assumes "nd_handshake n = kNotInitiated" "accept_all es n = Some n'"
  shows "nd_handshake n' = status_of (set es) \<and> (\<forall>m \<in> handshake_messages. count_list es m \<le> 1) \<and> (es \<noteq> [] \<longrightarrow> snd (hd es) = kVersion) \<and>
    nd_tasks n' = nd_tasks n @ (if handshake_messages \<subseteq> set es then [OnHandshakeCompleted] else [])"
  using assms(2)
proof (induction es arbitrary: n' rule: rev_induct)
  case Nil
  then show ?case using assms(1) by (auto simp: status_of_def flags handshake_messages_def)
next
  case (snoc e es)
  obtain d t where e: "e = (d, t)" by fastforce
  obtain n1 where n1: "accept_all es n = Some n1" "validate_message_for_protocol_handshake d t n1 = (None, n')"
    using snoc.prems by (auto simp: accept_all_append e split: option.splits prod.splits)
  note ih = snoc.IH [OF n1(1)]
  note v = validate_handshake [OF conjunct1 [OF ih] n1(2)]
  have c: "\<forall>m \<in> handshake_messages. count_list (es @ [e]) m \<le> 1"
    using ih v(2) by (auto simp: e count_list_0_iff)
  have hd: "snd (hd (es @ [e])) = kVersion"
    using ih v(3) by (cases es) (auto simp: e)
  have "set (es @ [e]) = insert (d, t) (set es)" by (simp add: e)
  then show ?case
    using ih v(1,4) c hd by auto
qed

section \<open>The bytes of a connection\<close>

text \<open>The bytes that a node has still to hand to the socket for the messages it has begun.\<close>

definition pipeline :: "node \<Rightarrow> bytes" where
  "pipeline n = nd_send_buffer n @ (case nd_outbound_message n of None \<Rightarrow> [] | Some m \<Rightarrow> unread (msg_stream m))"

text \<open>The message that a call of \<open>start_write\<close> begins, if it begins one that the handshake lets pass.\<close>

definition begun :: "int \<Rightarrow> nat \<Rightarrow> node \<Rightarrow> bytes list" where
  "begun now pick n =
    (let r = retire_message now (n\<lparr>nd_is_writing := True\<rparr>); q = nd_outbound_messages_queue r; m = fst (q ! queue_top pick q)
     in if \<not> nd_socket_open n \<or> nd_is_writing n \<or> nd_outbound_message r \<noteq> None \<or> q = [] then []
        else
         let m = m\<lparr>msg_stream := snd (stream_seekg 0 (msg_stream m))\<rparr>
         in if fst (begin_message now m (r\<lparr>nd_outbound_message := Some m, nd_outbound_messages_queue := queue_pop pick q\<rparr>)) \<noteq> None then []
            else [ds_buffer (msg_stream m)])"

definition taken :: "bool \<Rightarrow> nat \<Rightarrow> node \<Rightarrow> bytes" where
  "taken failed k n = (if is_running (nd_state n) \<and> \<not> failed then take k (nd_send_buffer n) else [])"

lemma unread_read:
  assumes "stream_read (Some k) s = (Success data, t)"
  shows "data @ unread t = unread s"
  using assms by (auto simp: stream_read_def unread_def Let_def drop_drop split: if_splits) (metis add.commute append_take_drop_id drop_drop)

lemma begin_message_frame:
  assumes "begin_message now m n = (r, n')"
  shows "nd_send_buffer n' = nd_send_buffer n" "nd_outbound_message n' = nd_outbound_message n"
  using assms
  by (auto simp: begin_message_def validate_message_for_protocol_handshake_def post_def Let_def split: if_splits prod.splits option.splits)

text \<open>Nothing of a message that was begun is lost when the handshake refuses it: it is refused at its first byte.\<close>

lemma write_piece_pipeline:
  assumes "write_piece now m n = Some n'" "nd_outbound_message n = Some m"
  shows "pipeline n' = (if fst (begin_message now m n) = None then pipeline n else nd_send_buffer n)"
proof (cases "begin_message now m n")
  case (Pair r n1)
  note f = begin_message_frame [OF Pair]
  show ?thesis
  proof (cases r)
    case None
    then obtain data s where "stream_read (Some (min kMaxBytesPerIO (stream_avail (msg_stream m)))) (msg_stream m) = (Success data, s)"
      "n' = n1\<lparr>nd_outbound_message := Some (m\<lparr>msg_stream := s\<rparr>), nd_send_buffer := nd_send_buffer n1 @ data, nd_write_pending := True\<rparr>"
      using assms(1) Pair by (auto simp: write_piece_def split: prod.splits outcome.splits)
    then show ?thesis
      using unread_read Pair None f assms(2) by (auto simp: pipeline_def)
  next
    case (Some e)
    then show ?thesis
      using assms(1) Pair f by (auto simp: write_piece_def pipeline_def post_def)
  qed
qed

lemma retire_pipeline: "pipeline (retire_message now n) = pipeline n"
  by (cases "nd_outbound_message n")
    (simp_all add: retire_message_def pipeline_def unread_def stream_eof_def stream_size_def Let_def)

text \<open>A message in the barrel has been begun: the handshake has let it pass.\<close>

definition barrel_ok :: "node \<Rightarrow> bool" where
  "barrel_ok n \<longleftrightarrow> (\<forall>m. nd_outbound_message n = Some m \<longrightarrow> stream_tellg (msg_stream m) = 0 \<longrightarrow> ds_buffer (msg_stream m) = [])"

lemma retire_barrel: "barrel_ok n \<Longrightarrow> barrel_ok (retire_message now n)"
  by (auto simp: barrel_ok_def retire_message_def Let_def split: option.splits if_splits)

lemma write_piece_barrel:
  assumes "write_piece now m n = Some n'"
  shows "barrel_ok n'"
proof (cases "begin_message now m n")
  case (Pair r n1)
  show ?thesis
    using assms unfolding write_piece_def Pair
    by (auto simp: barrel_ok_def post_def stream_read_def stream_tellg_def stream_avail_def kMaxBytesPerIO_def kKiB_def stream_size_def min_def Let_def
      split: option.splits outcome.splits prod.splits if_splits)
qed

lemma start_write_pipeline:
  assumes "start_write now pick n = Some n'" "barrel_ok n"
  shows "pipeline n' = pipeline n @ concat (begun now pick n) \<and> barrel_ok n'"
proof (cases "\<not> nd_socket_open n \<or> nd_is_writing n")
  case True
  then show ?thesis using assms by (simp add: start_write_def begun_def Let_def)
next
  case False
  let ?r = "retire_message now (n\<lparr>nd_is_writing := True\<rparr>)"
  let ?q = "nd_outbound_messages_queue ?r"
  have p: "pipeline ?r = pipeline n"
    by (simp add: retire_pipeline) (simp add: pipeline_def)
  have b: "barrel_ok ?r"
    by (rule retire_barrel) (use assms(2) in \<open>simp add: barrel_ok_def\<close>)
  show ?thesis
  proof (cases "nd_outbound_message ?r")
    case (Some m)
    then have w: "write_piece now m ?r = Some n'"
      using assms(1) False by (simp add: start_write_def Let_def)
    have "unread (msg_stream m) = []" if "fst (begin_message now m ?r) \<noteq> None"
      using that b Some by (auto simp: begin_message_def barrel_ok_def unread_def split: if_splits)
    then show ?thesis
      using write_piece_pipeline [OF w Some] write_piece_barrel [OF w] p Some by (auto simp: begun_def pipeline_def Let_def)
  next
    case None
    show ?thesis
    proof (cases "?q = []")
      case True
      then show ?thesis
        using assms(1) False None p b by (auto simp: start_write_def begun_def pipeline_def barrel_ok_def Let_def)
    next
      case q: False
      let ?m = "(fst (?q ! queue_top pick ?q))\<lparr>msg_stream := snd (stream_seekg 0 (msg_stream (fst (?q ! queue_top pick ?q))))\<rparr>"
      let ?s = "?r\<lparr>nd_outbound_message := Some ?m, nd_outbound_messages_queue := queue_pop pick ?q\<rparr>"
      have w: "write_piece now ?m ?s = Some n'"
        using assms(1) False None q by (simp add: start_write_def Let_def)
      have "pipeline ?s = pipeline n @ ds_buffer (msg_stream ?m)" "nd_send_buffer ?s = pipeline n"
        using p None by (simp_all add: pipeline_def unread_def stream_seekg_def)
      then show ?thesis
        using write_piece_pipeline [OF w] write_piece_barrel [OF w] False None q by (auto simp: begun_def Let_def)
    qed
  qed
qed

lemma handle_write_pipeline:
  assumes "k \<le> length (nd_send_buffer n)" "barrel_ok n"
  shows "pipeline n = taken failed k n @ pipeline (handle_write failed k n) \<and> barrel_ok (handle_write failed k n)"
  using assms by (auto simp: handle_write_def taken_def pipeline_def barrel_ok_def post_def Let_def)

text \<open>A run of a connection: the bytes the socket has taken and the messages begun, while other handlers leave the barrel and
  the buffer alone.\<close>

inductive wire_run :: "node \<Rightarrow> bytes \<Rightarrow> bytes list \<Rightarrow> node \<Rightarrow> bool" for n0 where
  begin_run: "wire_run n0 [] [] n0"
| begin_write: "wire_run n0 out ms n \<Longrightarrow> start_write now pick n = Some n' \<Longrightarrow> wire_run n0 out (ms @ begun now pick n) n'"
| end_write: "wire_run n0 out ms n \<Longrightarrow> k \<le> length (nd_send_buffer n) \<Longrightarrow> wire_run n0 (out @ taken failed k n) ms (handle_write failed k n)"
| no_write: "wire_run n0 out ms n \<Longrightarrow> nd_send_buffer n' = nd_send_buffer n \<Longrightarrow> nd_outbound_message n' = nd_outbound_message n \<Longrightarrow> wire_run n0 out ms n'"

lemma wire_run_pipeline:
  assumes "wire_run n0 out ms n" "barrel_ok n0" "pipeline n0 = []"
  shows "out @ pipeline n = concat ms \<and> barrel_ok n"
  using assms(1)
proof induction
  case begin_run
  then show ?case using assms(2,3) by simp
next
  case (begin_write out ms n now pick n')
  then show ?case using start_write_pipeline [OF begin_write.hyps(2)] by (metis append_assoc concat_append)
next
  case (end_write out ms n k failed)
  then show ?case using handle_write_pipeline [OF end_write.hyps(2), of failed] by simp
next
  case (no_write out ms n n')
  then show ?case by (simp add: pipeline_def barrel_ok_def)
qed

section \<open>Priorities and idle connections\<close>

lemma queue_tops_nonempty:
  assumes "q \<noteq> []"
  shows "queue_tops q \<noteq> []"
proof -
  let ?p = "\<lambda>i. priority_value (snd (q ! i))"
  have f: "finite (?p ` {..<length q})" "?p ` {..<length q} \<noteq> {}" using assms by auto
  obtain i where i: "i < length q" "?p i = Max (?p ` {..<length q})"
    using Max_in [OF f] by auto
  have "\<not> ?p i < priority_value (snd x)" if "x \<in> set q" for x
    using that Max_ge [OF f(1)] i(2) by (auto simp: in_set_conv_nth not_less)
  with i(1) have "i \<in> set (queue_tops q)"
    by (simp add: queue_tops_def list_all_iff)
  then show ?thesis by auto
qed

lemma queue_top_max:
  assumes "q \<noteq> []"
  shows "queue_top pick q < length q" "x \<in> set q \<Longrightarrow> priority_value (snd x) \<le> priority_value (snd (q ! queue_top pick q))"
proof -
  have "queue_top pick q \<in> set (queue_tops q)"
    using queue_tops_nonempty [OF assms] by (simp add: queue_top_def)
  then show "queue_top pick q < length q" "x \<in> set q \<Longrightarrow> priority_value (snd x) \<le> priority_value (snd (q ! queue_top pick q))"
    by (auto simp: queue_tops_def list_all_iff not_less)
qed

lemma seconds_between_ge:
  assumes "0 \<le> k" "since + k * kNanosPerSecond \<le> now"
  shows "k \<le> seconds_between now since"
proof -
  have "k * kNanosPerSecond \<le> now - since" "since \<le> now"
    using assms by (auto simp: kNanosPerSecond_def)
  then show ?thesis
    by (simp add: seconds_between_def kNanosPerSecond_def zdiv_mono1 [of "k * 1000000000" "now - since" 1000000000, simplified])
qed

section \<open>Properties\<close>

text \<open>C17. A session lets pass each of the four handshake messages at most once, and a \<open>version\<close> message first. The status
  is the set of the handshake messages that passed, and the completion is posted exactly once, by the last of them.\<close>

theorem handshake_sequences:
  assumes "nd_handshake n = kNotInitiated" "accept_all es n = Some n'"
  shows "nd_handshake n' = status_of (set es) \<and> (\<forall>m \<in> handshake_messages. count_list es m \<le> 1) \<and> (es \<noteq> [] \<longrightarrow> snd (hd es) = kVersion) \<and>
    (nd_handshake n' = kCompleted \<longleftrightarrow> handshake_messages \<subseteq> set es) \<and>
    nd_tasks n' = nd_tasks n @ (if nd_handshake n' = kCompleted then [OnHandshakeCompleted] else [])"
  using accepted_sequence [OF assms] status_completed(1) [of "set es"] by simp

theorem handshake_sequences_witness:
  "\<exists>n'. accept_all [(OutboundData, kVersion), (InboundData, kVersion), (OutboundData, kVerAck), (InboundData, kVerAck)]
      (node_new kOutbound False version_payload_new 0) = Some n' \<and> nd_handshake n' = kCompleted \<and> nd_tasks n' = [OnHandshakeCompleted]"
proof -
  let ?es = "[(OutboundData, kVersion), (InboundData, kVersion), (OutboundData, kVerAck), (InboundData, kVerAck)]"
  let ?n = "node_new kOutbound False version_payload_new 0"
  have n: "nd_handshake ?n = kNotInitiated" "nd_tasks ?n = []"
    by (simp_all add: node_new_def)
  have "\<exists>n'. accept_all ?es ?n = Some n'"
    by (simp add: node_new_def validate_message_for_protocol_handshake_def flags Let_def post_def)
  then obtain n' where n': "accept_all ?es ?n = Some n'" by blast
  have "handshake_messages \<subseteq> set ?es" by (auto simp: handshake_messages_def)
  then have "nd_handshake n' = kCompleted" "nd_tasks n' = [OnHandshakeCompleted]"
    using handshake_sequences [OF n(1) n'] n(2) by (blast, metis append_Nil)
  with n' show ?thesis by blast
qed


definition example_message :: message where
  "example_message = (message_new 170002 [1, 2, 3, 4])\<lparr>msg_header := message_header_new\<lparr>mh_message_type := kVersion\<rparr>,
    msg_stream := sdata_stream_of [1, 2, 3] kNetwork 170002\<rparr>"


text \<open>C28. The queue of outbound messages gives out a message of the greatest priority number: one of high priority only when
  there is no other.\<close>

theorem high_priority_waits:
  assumes "q \<noteq> []"
  shows "queue_top pick q < length q \<and> (\<forall>x \<in> set q. priority_value (snd x) \<le> priority_value (snd (q ! queue_top pick q))) \<and>
    (snd (q ! queue_top pick q) = kHigh \<longrightarrow> (\<forall>x \<in> set q. snd x = kHigh))"
proof -
  have "x = kHigh" if "priority_value x \<le> priority_value kHigh" for x
    using that by (cases x) (simp_all add: priority_value_def)
  then show ?thesis
    using queue_top_max(1) [OF assms, of pick] queue_top_max(2) [OF assms, of _ pick] by auto
qed

theorem high_priority_waits_witness:
  "snd ([(example_message, kHigh), (example_message, kLow)] ! queue_top 0 [(example_message, kHigh), (example_message, kLow)]) \<noteq> kHigh"
  using high_priority_waits [of "[(example_message, kHigh), (example_message, kLow)]" 0] by auto

text \<open>A connection on which no message is completed for the idle timeout, whose handshake is not completed in time, or that
  stalls inside a message, is reported as idle by the next check.\<close>

theorem stalled_peer_is_reported:
  assumes run: "is_running (nd_state n)" "nd_socket_open n" "pm_in_progress (nd_ping_meter n) \<longrightarrow> pm_start (nd_ping_meter n) \<le> now"
    and stalled: "(max (nd_last_message_received_time n) (nd_last_message_sent_time n) + uint (nev_idle_timeout_seconds env) * kNanosPerSecond \<le> now \<and>
        seconds_between now (max (nd_last_message_received_time n) (nd_last_message_sent_time n)) < 2 ^ 32) \<or>
      (nd_handshake n \<noteq> kCompleted \<and> nev_handshake_timeout_seconds env < seconds_between now (nd_connected_time n)) \<or>
      (\<exists>t. nd_inbound_message_start_time n = Some t \<and> nev_inbound_timeout_seconds env < seconds_between now t) \<or>
      (\<exists>t. nd_outbound_message_start_time n = Some t \<and> nev_outbound_timeout_seconds env < seconds_between now t)"
  shows "\<exists>r. is_idle env now n = Some r \<and> r \<noteq> kNotIdle"
proof -
  have "pending_sample_duration now (nd_ping_meter n) \<noteq> None"
    using run(3) by (auto simp: pending_sample_duration_def)
  then obtain d where d: "pending_sample_duration now (nd_ping_meter n) = Some d" by blast
  let ?s = "seconds_between now (max (nd_last_message_received_time n) (nd_last_message_sent_time n))"
  have "nev_idle_timeout_seconds env \<le> (of_int ?s :: 32 word)"
    if "max (nd_last_message_received_time n) (nd_last_message_sent_time n) + uint (nev_idle_timeout_seconds env) * kNanosPerSecond \<le> now" "?s < 2 ^ 32"
  proof -
    have "uint (nev_idle_timeout_seconds env) \<le> ?s"
      using seconds_between_ge [OF _ that(1)] by simp
    moreover from this have "uint (of_int ?s :: 32 word) = ?s"
      using that(2) by (simp add: unsigned_of_int take_bit_int_eq_self order_trans [OF unsigned_greater_eq])
    ultimately show ?thesis by (simp add: word_le_def)
  qed
  with stalled show ?thesis
    using run(1,2) d by (auto simp: is_idle_def overdue_def)
qed

definition idle_env :: node_env where
  "idle_env = \<lparr>nev_sha256 = (\<lambda>x. Some (replicate 32 0)), nev_magic = [1, 2, 3, 4], nev_ping_timeout_milliseconds = 500,
    nev_handshake_timeout_seconds = 10, nev_inbound_timeout_seconds = 10, nev_outbound_timeout_seconds = 10, nev_idle_timeout_seconds = 300\<rparr>"

theorem stalled_peer_is_reported_witness:
  "\<exists>r. is_idle idle_env (400 * kNanosPerSecond) ((node_new kInbound False version_payload_new 0)\<lparr>nd_state := kStarted\<rparr>) = Some r \<and> r \<noteq> kNotIdle"
  by (rule stalled_peer_is_reported)
    (simp_all add: is_running_def node_new_def idle_env_def ping_meter_new_def kDefaultAlpha_def kNanosPerSecond_def seconds_between_def)

text \<open>The check that versions were exchanged before any other message compares numbers: with our version and the
  acknowledgement of the peer, sent without a version of its own, other messages pass.\<close>

theorem messages_pass_before_version:
  "\<exists>n'. accept_all [(OutboundData, kVersion), (InboundData, kVerAck), (InboundData, kAddr)] (node_new kOutbound False v now) = Some n'"
  by (simp add: node_new_def validate_message_for_protocol_handshake_def flags Let_def)

end
