(* ===== verification/Node_Reading.thy ===== *)
theory Node_Reading
  imports Node_Handshake
begin

text \<open>
  The receiving side of a node (node/network/node.cpp): every sequence of bytes of a peer is parsed to an end without a
  failed assertion, the messages of a read are processed in order and bounded in number, and two nodes complete the
  handshake.
\<close>

section \<open>Pushing\<close>

definition env_ok :: "node_env \<Rightarrow> bool" where
  "env_ok env \<longleftrightarrow> digest32 (nev_sha256 env) \<and> length (nev_magic env) = 4"

definition pushed :: "node_env \<Rightarrow> message_payload \<Rightarrow> message_priority \<Rightarrow> node \<Rightarrow> node" where
  "pushed env p priority n = post StartWrite (n\<lparr>nd_outbound_messages_queue := nd_outbound_messages_queue n @
    [(complete_stage (nd_version n) (nev_magic env) (frame (nev_sha256 env) (nd_version n) (nev_magic env) p), priority)]\<rparr>)"

lemma push_sendable:
  assumes "env_ok env" "sendable (nd_version n) p"
  shows "push_message env p priority n = Some (None, pushed env p priority n)"
  using push_frame [OF _ _ assms(2), of "nev_sha256 env" "nev_magic env"] assms(1)
  by (simp add: push_message_def env_ok_def pushed_def)

lemma small_sendable:
  "sendable v (PingPongPayload kPing nonce)" "sendable v (PingPongPayload kPong nonce)" "sendable v (NullPayload kVerAck)" "sendable v (NullPayload kGetAddr)"
  by (simp_all add: sendable_def payload_ok_def ping_pong_payload_def null_payload_def payload_bytes_def message_definition_defs
      kMaxProtocolMessageLength_def kMiB_def Let_def)

section \<open>Processing\<close>

definition clock_ok :: "int \<Rightarrow> node \<Rightarrow> bool" where
  "clock_ok now n \<longleftrightarrow> (pm_in_progress (nd_ping_meter n) \<longrightarrow> pm_start (nd_ping_meter n) \<le> now)"

text \<open>The version of a node can be sent.\<close>

definition presentable :: "node \<Rightarrow> bool" where
  "presentable n \<longleftrightarrow> (\<forall>v. sendable v (VersionPayload (nd_local_version n)))"

lemma pushed_fields [simp]:
  "nd_local_version (pushed env p pr n) = nd_local_version n" "nd_ping_meter (pushed env p pr n) = nd_ping_meter n"
  "nd_inbound_message (pushed env p pr n) = nd_inbound_message n" "nd_version (pushed env p pr n) = nd_version n"
  "nd_remote_version (pushed env p pr n) = nd_remote_version n" "nd_handshake (pushed env p pr n) = nd_handshake n"
  "nd_connection_type (pushed env p pr n) = nd_connection_type n" "nd_delivered (pushed env p pr n) = nd_delivered n"
  "nd_state (pushed env p pr n) = nd_state n" "nd_socket_open (pushed env p pr n) = nd_socket_open n"
  by (simp_all add: pushed_def post_def)

text \<open>What reading relies on and keeps: the version, the clock, and the message that is being received.\<close>

definition reader_ok :: "int \<Rightarrow> node \<Rightarrow> bool" where
  "reader_ok now n \<longleftrightarrow> presentable n \<and> clock_ok now n"

lemma process_version_returns:
  assumes "env_ok env" "reader_ok now n"
  shows "\<exists>r q n'. process_version env v n = Some (r, q, n') \<and> reader_ok now n' \<and> nd_inbound_message n' = nd_inbound_message n"
proof -
  have s: "sendable w (VersionPayload (nd_local_version n))" for w
    using assms(2) by (simp add: reader_ok_def presentable_def)
  show ?thesis
    using assms(2) s
    by (simp add: process_version_def push_message_type_def null_payload_def push_sendable [OF assms(1)] small_sendable Let_def
      reader_ok_def presentable_def clock_ok_def)
qed

lemma process_pong_returns:
  assumes "reader_ok now n"
  shows "\<exists>r n'. process_pong now nonce n = Some (r, n') \<and> reader_ok now n' \<and> nd_inbound_message n' = nd_inbound_message n"
proof (cases "pm_nonce (nd_ping_meter n)")
  case None
  then show ?thesis using assms by (simp add: process_pong_def)
next
  case (Some e)
  have "\<exists>pm. end_sample now now (nd_ping_meter n) = Some pm \<and> \<not> pm_in_progress pm" if "pending_sample (nd_ping_meter n)"
    using assms that by (simp add: reader_ok_def clock_ok_def pending_sample_def end_sample_def Let_def)
  then show ?thesis
    using Some assms by (auto simp: process_pong_def reader_ok_def presentable_def clock_ok_def)
qed

lemma dispatch_returns:
  assumes "env_ok env" "reader_ok now n"
  shows "\<exists>r q n'. dispatch_message env now p n = Some (r, q, n') \<and> reader_ok now n' \<and> nd_inbound_message n' = nd_inbound_message n"
proof (cases p)
  case (PingPongPayload t nonce)
  show ?thesis
  proof (cases "t = kPing")
    case True
    then show ?thesis
      using assms(2) PingPongPayload
      by (simp add: dispatch_message_def ping_pong_payload_def push_sendable [OF assms(1)] small_sendable reader_ok_def presentable_def clock_ok_def)
  next
    case False
    then show ?thesis
      using process_pong_returns [OF assms(2), of nonce] PingPongPayload by (auto simp: dispatch_message_def)
  qed
qed (use assms process_version_returns [OF assms] in \<open>auto simp: dispatch_message_def\<close>)

lemma process_returns:
  assumes "env_ok env" "reader_ok now n"
  obtains r n' where "process_inbound_message env now p n = Some (r, n')" "reader_ok now n'" "nd_inbound_message n' = nd_inbound_message n"
proof -
  obtain r q n' where "dispatch_message env now p n = Some (r, q, n')" "reader_ok now n'" "nd_inbound_message n' = nd_inbound_message n"
    using dispatch_returns [OF assms] by blast
  then have "\<exists>r n'. process_inbound_message env now p n = Some (r, n') \<and> reader_ok now n' \<and> nd_inbound_message n' = nd_inbound_message n"
    by (auto simp: process_inbound_message_def deliver_def reader_ok_def presentable_def clock_ok_def Let_def split: option.splits)
  then show ?thesis using that by blast
qed

section \<open>Receiving\<close>

lemma validate_fields:
  assumes "validate_message_for_protocol_handshake d t n = (r, n')"
  shows "nd_local_version n' = nd_local_version n" "nd_ping_meter n' = nd_ping_meter n" "nd_inbound_message n' = nd_inbound_message n"
    "nd_version n' = nd_version n" "nd_connection_type n' = nd_connection_type n" "nd_delivered n' = nd_delivered n" "nd_state n' = nd_state n"
    "nd_remote_version n' = nd_remote_version n" "nd_outbound_messages_queue n' = nd_outbound_messages_queue n"
    "nd_inbound_metrics n' = nd_inbound_metrics n"
  using assms by (auto simp: validate_message_for_protocol_handshake_def post_def Let_def split: if_splits)

lemma validate_reader: "validate_message_for_protocol_handshake d t n = (r, n') \<Longrightarrow> reader_ok now n' = reader_ok now n"
  by (simp add: reader_ok_def presentable_def clock_ok_def validate_fields)

lemma known_payload: "t \<noteq> kMissingOrUnknown \<Longrightarrow> payload_from_type t \<noteq> None"
  by (cases t) (simp_all add: ping_pong_payload_def inventory_payload_def null_payload_def)

lemma receive_returns:
  assumes e: "env_ok env" and n: "reader_ok now n" and t: "message_get_type m \<noteq> kMissingOrUnknown"
  obtains r k n' where "receive_message env now m parsed n = Some (r, k, n')" "reader_ok now n'"
    "r \<noteq> None \<Longrightarrow> nd_inbound_message n' = nd_inbound_message n" "r = None \<Longrightarrow> nd_inbound_message n' = None"
proof (cases "validate_message_for_protocol_handshake InboundData (message_get_type m) n")
  case (Pair r n1)
  have n1: "reader_ok now n1" "nd_inbound_message n1 = nd_inbound_message n"
    using validate_reader [OF Pair] validate_fields(3) [OF Pair] n by simp_all
  obtain po where po: "payload_from_type (message_get_type m) = Some po"
    using known_payload [OF t] by blast
  consider (bad) e where "r = Some e" | (none) "r = None" "po = None" | (some) w where "r = None" "po = Some w" by (cases r; cases po) auto
  then show ?thesis
  proof cases
    case bad
    then show ?thesis using Pair n1 by (intro that [of r parsed n1]) (simp_all add: receive_message_def Let_def)
  next
    case none
    then show ?thesis
      using Pair n1 po t by (intro that [of "Some (NetError kMessagePayLoadUnhandleable)" parsed n1]) (simp_all add: receive_message_def Let_def)
  next
    case some
    obtain s p u where d: "payload_serialization kDeserialize (w, msg_stream m) = (s, p, u)" by (cases "payload_serialization kDeserialize (w, msg_stream m)") auto
    obtain x n2 where q: "process_inbound_message env now p n1 = Some (x, n2)" "reader_ok now n2" "nd_inbound_message n2 = nd_inbound_message n1"
      by (rule process_returns [OF e n1(1)])
    have ok: "reader_ok now (reset_inbound (n2\<lparr>nd_inbound_metrics := f\<rparr>))" for f
      using q(2) by (simp add: reader_ok_def presentable_def clock_ok_def reset_inbound_def)
    have eq: "receive_message env now m parsed n =
        (case s of Some e \<Rightarrow> Some (Some e, parsed, n1)
         | None \<Rightarrow> if \<not> stream_eof u then Some (Some (NetError kMessagePayloadExtraData), parsed, n1)
             else if parsed + 1 > kMaxMessagesPerRead then Some (Some (NetError kMessageFloodingDetected), parsed + 1, n1)
             else (case x of Some e \<Rightarrow> Some (Some e, parsed + 1, n2)
               | None \<Rightarrow> Some (None, parsed + 1, reset_inbound (n2\<lparr>nd_inbound_metrics :=
                   (nd_inbound_metrics n2)(message_get_type m := count_message (stream_size u) (nd_inbound_metrics n2 (message_get_type m)))\<rparr>))))"
      using Pair some po t d q(1) by (simp add: receive_message_def Let_def split: option.splits)
    show ?thesis
      using eq that n1 q(2,3) ok by (auto simp: reset_inbound_def split: option.splits if_splits)
  qed
qed

text \<open>The message that is being received waits for bytes, or is complete and takes no more.\<close>

definition inbound_ok :: "node_env \<Rightarrow> node \<Rightarrow> bool" where
  "inbound_ok env n \<longleftrightarrow> (\<forall>m. nd_inbound_message n = Some m \<longrightarrow>
    message_is_complete m \<or> (\<exists>v p. received (nev_sha256 env) v (nev_magic env) p m))"

lemma well_formed_type:
  "well_formed sha256 v magic p \<Longrightarrow> message_get_type (complete_stage v magic p) \<noteq> kMissingOrUnknown"
  using well_formed_accepted [of sha256 v magic p]
  by (simp add: message_get_type_def complete_stage_def body_stage_def definition_of_type header_accepted_def Let_def)

lemma complete_stage_complete: "message_is_complete (complete_stage v magic p)"
  by (simp add: message_is_complete_def complete_stage_def body_stage_def)

text \<open>A write to the message that is being received.\<close>

lemma inbound_write:
  assumes m: "message_is_complete m \<or> received sha256 v magic p m" and d: "data \<noteq> []"
  obtains (more) r m' where "message_write sha256 data m = Some (Some (r, [], m'))" "is_incomplete r" "received sha256 v magic (p @ data) m'"
  | (finished) k where "message_write sha256 data m = Some (Some (None, drop k data, complete_stage v magic (p @ take k data)))" "0 < k" "k \<le> length data"
      "well_formed sha256 v magic (p @ take k data)"
  | (bad) e rest m' where "message_write sha256 data m = Some (Some (Some e, rest, m'))" "\<not> is_incomplete (Some e)"
proof (cases "message_is_complete m")
  case True
  then show ?thesis
    using d by (intro bad) (auto simp: message_write_def is_incomplete_def)
next
  case False
  then have rcv: "received sha256 v magic p m" using m by simp
  obtain r k m' where w: "message_write sha256 data m = Some (Some (r, drop k data, m'))" and o: "write_outcome sha256 v magic p data r k m'"
    by (rule received_verdict [OF rcv])
  consider "is_incomplete r" | "r = None" | e where "r = Some e" "\<not> is_incomplete r" by (cases r) auto
  then show ?thesis
  proof cases
    case 1
    note k = write_outcomeD(2) [OF o 1]
    show ?thesis
      using w received.more [OF rcv w 1] k 1 by (intro more) simp_all
  next
    case 2
    note wf = write_outcomeD(5) [OF o 2]
    have "demand p \<le> length (take k data)" "0 < demand p"
      using pending_well_formed [OF _ wf] receiver_demand [of v magic p] received_pending [OF rcv] by simp_all
    then show ?thesis
      using w 2 write_outcomeD(1,6) [OF o] wf by (intro finished [of k]) auto
  next
    case 3
    then show ?thesis using w by (intro bad) auto
  qed
qed

lemma reader_upd [simp]:
  "reader_ok now (n\<lparr>nd_inbound_message := x\<rparr>) = reader_ok now n" "reader_ok now (n\<lparr>nd_inbound_message_start_time := y\<rparr>) = reader_ok now n"
  "reader_ok now (reset_inbound n) = reader_ok now n"
  by (simp_all add: reader_ok_def presentable_def clock_ok_def reset_inbound_def)

definition step_ok :: "node_env \<Rightarrow> int \<Rightarrow> bytes \<Rightarrow> (error_code status \<times> bytes \<times> nat \<times> node) \<Rightarrow> bool" where
  "step_ok env now data x \<longleftrightarrow> (case x of (r, data', k, n) \<Rightarrow> reader_ok now n \<and> (r = None \<or> is_incomplete r \<longrightarrow> length data' < length data \<and> inbound_ok env n))"

lemma parse_step_returns:
  assumes e: "env_ok env" and n: "reader_ok now n" "inbound_ok env n" and d: "data \<noteq> []"
  obtains x where "parse_step env now data parsed n = Some (Some x)" "step_ok env now data x"
proof -
  let ?p = "case nd_inbound_message n of Some m \<Rightarrow> (m, n) | None \<Rightarrow> (message_new (nd_version n) (nev_magic env), n\<lparr>nd_inbound_message_start_time := Some now\<rparr>)"
  obtain m n0 where mn: "?p = (m, n0)" by fastforce
  have n0: "reader_ok now n0" using mn n(1) by (auto split: option.splits)
  obtain v p where vp: "message_is_complete m \<or> received (nev_sha256 env) v (nev_magic env) p m"
    using mn n(2) received.start [of "nev_sha256 env" "nd_version n" "nev_magic env"] by (auto simp: inbound_ok_def split: option.splits)
  show ?thesis
  proof (rule inbound_write [OF vp d])
    fix r m'
    assume w: "message_write (nev_sha256 env) data m = Some (Some (r, [], m'))" "is_incomplete r" "received (nev_sha256 env) v (nev_magic env) (p @ data) m'"
    obtain e where "r = Some e" using w(2) by (cases r) simp_all
    then show ?thesis
      using w n0 d by (intro that [of "(r, [], parsed, n0\<lparr>nd_inbound_message := Some m'\<rparr>)"]) (auto simp: parse_step_def mn step_ok_def inbound_ok_def)
  next
    fix k
    assume w: "message_write (nev_sha256 env) data m = Some (Some (None, drop k data, complete_stage v (nev_magic env) (p @ take k data)))" "0 < k"
      "k \<le> length data" "well_formed (nev_sha256 env) v (nev_magic env) (p @ take k data)"
    let ?m = "complete_stage v (nev_magic env) (p @ take k data)"
    have n1: "reader_ok now (n0\<lparr>nd_inbound_message := Some ?m\<rparr>)" using n0 by simp
    obtain r j n' where r: "receive_message env now ?m parsed (n0\<lparr>nd_inbound_message := Some ?m\<rparr>) = Some (r, j, n')" "reader_ok now n'"
      "r \<noteq> None \<Longrightarrow> nd_inbound_message n' = nd_inbound_message (n0\<lparr>nd_inbound_message := Some ?m\<rparr>)" "r = None \<Longrightarrow> nd_inbound_message n' = None"
      by (rule receive_returns [OF e n1 well_formed_type [OF w(4)]]) (rule that)
    have "inbound_ok env n'"
      using r(3,4) complete_stage_complete by (cases r) (auto simp: inbound_ok_def)
    then show ?thesis
      using w r(1,2) by (intro that [of "(r, drop k data, j, n')"]) (auto simp: parse_step_def mn step_ok_def)
  next
    fix x rest m'
    assume w: "message_write (nev_sha256 env) data m = Some (Some (Some x, rest, m'))" "\<not> is_incomplete (Some x)"
    then show ?thesis
      using n0 by (intro that [of "(Some x, rest, parsed, n0\<lparr>nd_inbound_message := Some m'\<rparr>)"]) (auto simp: parse_step_def mn step_ok_def)
  qed
qed

lemma parse_loop_returns:
  assumes "env_ok env" "reader_ok now n" "inbound_ok env n"
  shows "\<exists>r n'. parse_loop env now data parsed n = Some (Some (r, n')) \<and> reader_ok now n' \<and> inbound_ok env n'"
  using assms(2,3)
proof (induction data arbitrary: parsed n rule: length_induct)
  case (1 data)
  show ?case
  proof (cases "data = []")
    case True
    then show ?thesis using "1.prems" by (simp add: parse_loop.simps)
  next
    case False
    obtain x where x: "parse_step env now data parsed n = Some (Some x)" "step_ok env now data x"
      by (rule parse_step_returns [OF assms(1) "1.prems" False])
    obtain r data' k n' where x': "x = (r, data', k, n')" by (cases x) auto
    have l: "parse_loop env now data parsed n =
        (if r = None \<or> is_incomplete r then parse_loop env now data' k n' else Some (Some (r, reset_inbound n')))"
      using x(1) False by (subst parse_loop.simps) (simp add: x')
    show ?thesis
    proof (cases "r = None \<or> is_incomplete r")
      case True
      then have "length data' < length data" "reader_ok now n'" "inbound_ok env n'"
        using x(2) by (auto simp: x' step_ok_def)
      with "1.IH" True show ?thesis unfolding l by simp
    next
      case False
      then show ?thesis
        using x(2) unfolding l by (auto simp: x' step_ok_def inbound_ok_def reset_inbound_def)
    qed
  qed
qed

section \<open>The messages of a read\<close>

lemma push_message_delivered: "push_message env p pr n = Some (r, n') \<Longrightarrow> nd_delivered n' = nd_delivered n"
  by (auto simp: push_message_def post_def split: option.splits prod.splits)

lemma dispatch_delivered:
  assumes "dispatch_message env now p n = Some (r, q, n')"
  shows "nd_delivered n' = nd_delivered n"
proof (cases p)
  case (VersionPayload v)
  have v: "nd_delivered n' = nd_delivered n" if "process_version env v n = Some (r, q, n')"
    using that by (auto simp: process_version_def push_message_type_def Let_def bind_eq_Some_conv split: if_splits option.splits
      dest!: push_message_delivered)
  then show ?thesis using assms VersionPayload by (simp add: dispatch_message_def)
next
  case (PingPongPayload t nonce)
  have "nd_delivered n' = nd_delivered n" if "process_pong now nonce n = Some (r, n')" for r n'
    using that by (auto simp: process_pong_def split: option.splits if_splits)
  then show ?thesis
    using assms PingPongPayload by (auto simp: dispatch_message_def ping_pong_payload_def split: if_splits dest: push_message_delivered)
qed (use assms in \<open>auto simp: dispatch_message_def split: if_splits\<close>)

lemma process_delivered:
  assumes "process_inbound_message env now p n = Some (r, n')"
  shows "length (nd_delivered n') \<le> length (nd_delivered n) + (if r = None then 1 else 0)"
proof -
  obtain s q n1 where d: "dispatch_message env now p n = Some (s, q, n1)"
    using assms by (auto simp: process_inbound_message_def split: option.splits)
  show ?thesis
    using assms dispatch_delivered [OF d] by (auto simp: process_inbound_message_def d deliver_def Let_def split: option.splits if_splits)
qed

text \<open>A step delivers at most one message, and only while the limit is not reached.\<close>

definition delivers :: "node \<Rightarrow> nat \<Rightarrow> error_code status \<Rightarrow> nat \<Rightarrow> node \<Rightarrow> bool" where
  "delivers n parsed r k n' \<longleftrightarrow> parsed \<le> k \<and> (parsed \<le> kMaxMessagesPerRead \<and> is_incomplete r \<longrightarrow> k \<le> kMaxMessagesPerRead) \<and>
    (if r = None then k = Suc parsed \<and> k \<le> kMaxMessagesPerRead \<and> length (nd_delivered n') \<le> length (nd_delivered n) + 1
     else length (nd_delivered n') \<le> length (nd_delivered n))"

lemma receive_delivers:
  assumes "receive_message env now m parsed n = Some (r, k, n')"
  shows "delivers n parsed r k n'"
proof -
  obtain s n1 where v: "validate_message_for_protocol_handshake InboundData (message_get_type m) n = (s, n1)" by fastforce
  have d: "nd_delivered n1 = nd_delivered n" by (rule validate_fields(6) [OF v])
  show ?thesis
  proof (cases "r = None")
    case True
    then obtain q n2 where "process_inbound_message env now q n1 = Some (None, n2)" "nd_delivered n' = nd_delivered n2" "k = Suc parsed"
      "k \<le> kMaxMessagesPerRead"
      using assms by (auto simp: receive_message_def v Let_def reset_inbound_def split: option.splits if_splits prod.splits)
    then show ?thesis
      using process_delivered [of env now q n1 None n2] d True by (simp add: delivers_def)
  next
    case False
    then have "n' = n1 \<or> (\<exists>q e. process_inbound_message env now q n1 = Some (Some e, n'))" "parsed \<le> k"
      "parsed \<le> kMaxMessagesPerRead \<and> is_incomplete r \<longrightarrow> k \<le> kMaxMessagesPerRead"
      using assms by (auto simp: receive_message_def v Let_def is_incomplete_def split: option.splits if_splits prod.splits)
    then show ?thesis
      using process_delivered [of env now _ n1] d False by (fastforce simp: delivers_def)
  qed
qed

lemma parse_step_delivers:
  assumes "parse_step env now data parsed n = Some (Some (r, data', k, n'))"
  shows "delivers n parsed r k n'"
proof -
  obtain m n0 where mn: "(case nd_inbound_message n of Some m \<Rightarrow> (m, n)
      | None \<Rightarrow> (message_new (nd_version n) (nev_magic env), n\<lparr>nd_inbound_message_start_time := Some now\<rparr>)) = (m, n0)" by fastforce
  have n0: "nd_delivered n0 = nd_delivered n" using mn by (auto split: option.splits)
  have "delivers (n0\<lparr>nd_inbound_message := x\<rparr>) parsed r k n' = delivers n parsed r k n'" for x
    by (simp add: delivers_def n0)
  moreover have "(\<exists>m1. receive_message env now m1 parsed (n0\<lparr>nd_inbound_message := Some m1\<rparr>) = Some (r, k, n')) \<or>
      (r \<noteq> None \<and> k = parsed \<and> nd_delivered n' = nd_delivered n)"
    using assms n0 by (auto simp: parse_step_def mn split: option.splits prod.splits)
  ultimately show ?thesis
    using receive_delivers by (fastforce simp: delivers_def)
qed

lemma parse_loop_delivers:
  assumes "env_ok env" "reader_ok now n" "inbound_ok env n" "parsed \<le> kMaxMessagesPerRead" "parse_loop env now data parsed n = Some (Some (r, n'))"
  shows "length (nd_delivered n') \<le> length (nd_delivered n) + (kMaxMessagesPerRead - parsed)"
  using assms(2-)
proof (induction data arbitrary: parsed n rule: length_induct)
  case (1 data)
  show ?case
  proof (cases "data = []")
    case True
    then show ?thesis using "1.prems" by (simp add: parse_loop.simps)
  next
    case False
    obtain x where x: "parse_step env now data parsed n = Some (Some x)" "step_ok env now data x"
      by (rule parse_step_returns [OF assms(1) "1.prems"(1,2) False])
    obtain q data' k n1 where x': "x = (q, data', k, n1)" by (cases x) auto
    have d: "delivers n parsed q k n1"
      by (rule parse_step_delivers) (use x(1) x' in simp)
    have l: "parse_loop env now data parsed n =
        (if q = None \<or> is_incomplete q then parse_loop env now data' k n1 else Some (Some (q, reset_inbound n1)))"
      using x(1) False by (subst parse_loop.simps) (simp add: x')
    show ?thesis
    proof (cases "q = None \<or> is_incomplete q")
      case True
      then have s: "length data' < length data" "reader_ok now n1" "inbound_ok env n1" "parse_loop env now data' k n1 = Some (Some (r, n'))"
        using x(2) "1.prems"(4) by (auto simp: x' step_ok_def l)
      show ?thesis
      proof (cases "k \<le> kMaxMessagesPerRead")
        case le: True
        from "1.IH" s le have "length (nd_delivered n') \<le> length (nd_delivered n1) + (kMaxMessagesPerRead - k)" by blast
        with d le show ?thesis by (auto simp: delivers_def split: if_splits)
      next
        case False
        then show ?thesis using d True "1.prems"(3) by (auto simp: delivers_def split: if_splits)
      qed
    next
      case False
      then show ?thesis
        using d "1.prems"(4) by (auto simp: l delivers_def reset_inbound_def split: if_splits)
    qed
  qed
qed

section \<open>Versions that can be sent\<close>

lemma version_sendable:
  assumes "version_payload_ok v" "length (vp_user_agent v) \<le> 256"
  shows "sendable w (VersionPayload v)"
proof -
  have "length (version_payload_bytes v) \<le> 350" "46 \<le> length (version_payload_bytes v)"
    using assms(2) by (simp_all add: version_payload_bytes_def version_node_service_bytes_def endpoint_bytes_def string_bytes_def
      length_compact_bytes ser_compact_sizeof_def)
  then show ?thesis
    using assms(1) by (simp add: sendable_def payload_ok_def payload_bytes_def message_definition_defs kMaxProtocolMessageLength_def kMiB_def kKiB_def Let_def)
qed

lemma example_node:
  "env_ok idle_env" "reader_ok 0 (node_new kInbound False version_payload_new 0)" "inbound_ok idle_env (node_new kInbound False version_payload_new 0)"
proof -
  have "sendable w (VersionPayload version_payload_new)" for w
    by (rule version_sendable) (simp_all add: version_payload_ok_def version_members_ok_def version_payload_new_def node_service_new_def
      ip_endpoint_new_def address_ok_def)
  then show "reader_ok 0 (node_new kInbound False version_payload_new 0)"
    by (simp add: reader_ok_def presentable_def clock_ok_def node_new_def ping_meter_new_def kDefaultAlpha_def)
  show "env_ok idle_env"
    by (simp add: env_ok_def idle_env_def digest32_def)
  show "inbound_ok idle_env (node_new kInbound False version_payload_new 0)"
    by (simp add: inbound_ok_def node_new_def)
qed

section \<open>Properties\<close>

text \<open>C16. Whatever bytes a peer sends, and however they are cut into reads, the parser of a node comes to an end and fails no
  assertion; it leaves a node that can read on.\<close>

theorem peer_bytes_never_abort:
  assumes "env_ok env" "reader_ok now n" "inbound_ok env n"
  shows "\<exists>r n'. parse_messages env now data n = Some (Some (r, n')) \<and> reader_ok now n' \<and> inbound_ok env n'"
  unfolding parse_messages_def by (rule parse_loop_returns [OF assms])

theorem peer_bytes_never_abort_witness:
  "\<exists>r n'. parse_messages idle_env 0 [1, 2, 3] (node_new kInbound False version_payload_new 0) = Some (Some (r, n')) \<and> reader_ok 0 n' \<and> inbound_ok idle_env n'"
  by (rule peer_bytes_never_abort [OF example_node])

text \<open>C27. However many messages a peer packs into the bytes of one read, at most 32 of them are delivered.\<close>

theorem read_delivers_bounded:
  assumes "env_ok env" "reader_ok now n" "inbound_ok env n" "parse_messages env now data n = Some (Some (r, n'))"
  shows "length (nd_delivered n') \<le> length (nd_delivered n) + kMaxMessagesPerRead"
  using parse_loop_delivers [OF assms(1-3) _ assms(4) [unfolded parse_messages_def]] by simp

theorem read_delivers_bounded_witness:
  "\<exists>r n'. parse_messages idle_env 0 [1, 2, 3] (node_new kInbound False version_payload_new 0) = Some (Some (r, n')) \<and> length (nd_delivered n') \<le> 32"
proof -
  obtain r n' where "parse_messages idle_env 0 [1, 2, 3] (node_new kInbound False version_payload_new 0) = Some (Some (r, n'))"
    using parse_loop_returns [OF example_node, of "[1, 2, 3]" 0] unfolding parse_messages_def by blast
  with read_delivers_bounded [OF example_node this] show ?thesis by (auto simp: node_new_def kMaxMessagesPerRead_def)
qed

end
