(* ===== verification/Node_Link.thy ===== *)
theory Node_Link
  imports Node_Reading
begin

text \<open>
  Two nodes on one connection (node/network/node.cpp): the bytes that the socket takes from one node are read by the
  other in the same order, in any pieces. A pair of nodes that start from opposite sides of a connection can complete
  the handshake.
\<close>

section \<open>Frames\<close>

definition counted :: "message_type \<Rightarrow> nat \<Rightarrow> node \<Rightarrow> node" where
  "counted t k n = reset_inbound (n\<lparr>nd_inbound_metrics := (nd_inbound_metrics n)(t := count_message k (nd_inbound_metrics n t))\<rparr>)"

abbreviation (input) env_frame :: "node_env \<Rightarrow> int \<Rightarrow> message_payload \<Rightarrow> bytes" where
  "env_frame env v p \<equiv> frame (nev_sha256 env) v (nev_magic env) p"

abbreviation (input) env_message :: "node_env \<Rightarrow> int \<Rightarrow> message_payload \<Rightarrow> message" where
  "env_message env v p \<equiv> complete_stage v (nev_magic env) (env_frame env v p)"

lemma sendable_frame:
  assumes "env_ok env" "sendable v p"
  shows "well_formed (nev_sha256 env) v (nev_magic env) (env_frame env v p)" "length (env_frame env v p) = 24 + length (payload_bytes v p)"
    "message_get_type (env_message env v p) = payload_type p" "drop 24 (env_frame env v p) = payload_bytes v p"
proof -
  have e: "digest32 (nev_sha256 env)" "length (nev_magic env) = 4" and p: "payload_ok p" "24 + length (payload_bytes v p) \<le> kMaxProtocolMessageLength"
    using assms by (simp_all add: env_ok_def sendable_def Let_def)
  note f = frame_header [OF e p]
  show "well_formed (nev_sha256 env) v (nev_magic env) (env_frame env v p)"
    using frame_well_formed [OF e p] assms(2) by simp
  show "length (env_frame env v p) = 24 + length (payload_bytes v p)" "drop 24 (env_frame env v p) = payload_bytes v p"
    by (fact f(2), fact f(4))
  show "message_get_type (env_message env v p) = payload_type p"
    by (simp add: message_get_type_def complete_stage_def body_stage_def f(3) pushed_header_def definition_of_type)
qed

lemma receive_frame:
  assumes e: "env_ok env" and p: "sendable v p" and k: "parsed < kMaxMessagesPerRead"
    and v: "validate_message_for_protocol_handshake InboundData (payload_type p) n = (None, n1)"
    and pr: "process_inbound_message env now (payload_received v p) n1 = Some (None, n2)"
  shows "receive_message env now (env_message env v p) parsed n = Some (None, Suc parsed, counted (payload_type p) (length (env_frame env v p)) n2)"
proof -
  note f = sendable_frame [OF e p]
  let ?s = "stream_at v (env_frame env v p) 24"
  have ok: "payload_ok p" using p by (simp add: sendable_def Let_def)
  obtain w where w: "payload_from_type (payload_type p) = Some (Some w)"
    "payload_serialization kDeserialize (w, ?s) = (None, payload_received v p, advance (length (payload_bytes v p)) ?s)"
    using payload_reads [OF ok, of ?s v] f(2,4) by auto
  have s: "msg_stream (env_message env v p) = ?s" "stream_eof (advance (length (payload_bytes v p)) ?s)"
    "stream_size (advance (length (payload_bytes v p)) ?s) = length (env_frame env v p)"
    using f(2) by (simp_all add: complete_stage_def body_stage_def stream_at_simps stream_eof_def stream_size_def)
  show ?thesis
    using v pr w s k payload_ok_type [OF ok] by (simp add: receive_message_def f(3) counted_def Let_def)
qed

lemma parse_frame:
  assumes e: "env_ok env" and n: "nd_inbound_message n = None" and p: "sendable (nd_version n) p" and k: "parsed < kMaxMessagesPerRead"
    and v: "validate_message_for_protocol_handshake InboundData (payload_type p)
      (n\<lparr>nd_inbound_message_start_time := Some now, nd_inbound_message := Some (env_message env (nd_version n) p)\<rparr>) = (None, n1)"
    and pr: "process_inbound_message env now (payload_received (nd_version n) p) n1 = Some (None, n2)"
  shows "parse_loop env now (env_frame env (nd_version n) p @ rest) parsed n =
    parse_loop env now rest (Suc parsed) (counted (payload_type p) (length (env_frame env (nd_version n) p)) n2)"
proof -
  let ?f = "env_frame env (nd_version n) p"
  note f = sendable_frame [OF e p]
  have "?f \<noteq> []" using f(2) by auto
  obtain m where m: "received (nev_sha256 env) (nd_version n) (nev_magic env) (concat []) m"
    "message_write (nev_sha256 env) (?f @ rest) m = Some (Some (None, rest, env_message env (nd_version n) p))"
    using chunks_complete [of "nev_sha256 env" "nd_version n" "nev_magic env" "[]" ?f rest] f(1) \<open>?f \<noteq> []\<close> by auto
  have "m = message_new (nd_version n) (nev_magic env)"
    using received_pending [OF m(1)] by (simp add: receiver_new)
  then have "parse_step env now (?f @ rest) parsed n = Some (Some (None, rest, Suc parsed, counted (payload_type p) (length ?f) n2))"
    using m(2) n receive_frame [OF e p k v pr] by (simp add: parse_step_def)
  then show ?thesis
    using \<open>?f \<noteq> []\<close> by (subst parse_loop.simps) simp
qed

section \<open>The steps of a handshake\<close>

text \<open>What the steps of a handshake depend on: a node that is running, with the negotiated version, no message half received,
  and the given handshake messages, queue, barrel, buffer, flags and tasks.\<close>

record node_view =
  vw_exchanged :: "(data_direction_mode \<times> message_type) set"
  vw_queue :: "message_queue_item list"
  vw_busy :: bool
  vw_buffer :: bytes
  vw_reading :: bool
  vw_tasks :: "node_task list"
  vw_remote :: version_payload

definition shows_view :: "node \<Rightarrow> version_payload \<Rightarrow> node_view \<Rightarrow> bool" where
  "shows_view n lv w \<longleftrightarrow> nd_state n = kStarted \<and> nd_socket_open n \<and> nd_version n = kDefaultProtocolVersion \<and> nd_inbound_message n = None \<and>
    nd_local_version n = lv \<and> nd_handshake n = status_of (vw_exchanged w) \<and> nd_outbound_messages_queue n = vw_queue w \<and>
    nd_is_writing n = vw_busy w \<and> nd_write_pending n = vw_busy w \<and> nd_send_buffer n = vw_buffer w \<and> nd_reading n = vw_reading w \<and>
    nd_tasks n = vw_tasks w \<and> nd_remote_version n = vw_remote w \<and> (\<forall>m. nd_outbound_message n = Some m \<longrightarrow> stream_eof (msg_stream m))"

lemma shows_viewD:
  assumes "shows_view n lv w"
  shows "nd_state n = kStarted" "nd_socket_open n" "nd_version n = kDefaultProtocolVersion" "nd_inbound_message n = None" "nd_local_version n = lv"
    "nd_handshake n = status_of (vw_exchanged w)" "nd_outbound_messages_queue n = vw_queue w" "nd_is_writing n = vw_busy w"
    "nd_write_pending n = vw_busy w" "nd_send_buffer n = vw_buffer w" "nd_reading n = vw_reading w" "nd_tasks n = vw_tasks w"
    "nd_outbound_message n = Some m \<Longrightarrow> stream_eof (msg_stream m)" "nd_remote_version n = vw_remote w"
  using assms by (simp_all add: shows_view_def)

definition completion :: "(data_direction_mode \<times> message_type) \<Rightarrow> (data_direction_mode \<times> message_type) set \<Rightarrow> node_task list" where
  "completion m S = (if handshake_messages \<subseteq> insert m S then [OnHandshakeCompleted] else [])"

text \<open>The payloads of the handshake.\<close>

definition handshake_payload :: "message_payload \<Rightarrow> bool" where
  "handshake_payload p \<longleftrightarrow> payload_type p = kVersion \<or> payload_type p = kVerAck"

lemma handshake_passes:
  assumes "nd_handshake n = status_of S" "handshake_payload p" "(d, payload_type p) \<notin> S"
    "S \<inter> handshake_messages \<noteq> {} \<or> payload_type p = kVersion"
  shows "validate_message_for_protocol_handshake d (payload_type p) n =
    (None, n\<lparr>nd_handshake := status_of (insert (d, payload_type p) S), nd_tasks := nd_tasks n @ completion (d, payload_type p) S\<rparr>)"
proof -
  have "(d, payload_type p) \<in> handshake_messages"
    using assms(2) by (cases d) (auto simp: handshake_payload_def handshake_messages_def)
  from validate_handshake_message [OF assms(1) this] assms(3,4) show ?thesis
    by (auto simp: completion_def post_def)
qed

lemma queue_first:
  assumes "\<forall>x \<in> set (y # q). snd x = pr"
  shows "queue_top 0 (y # q) = 0" "queue_pop 0 (y # q) = q"
proof -
  have i: "snd ((y # q) ! i) = pr" if "i < length (y # q)" for i
    using assms nth_mem [OF that] by blast
  have "queue_tops (y # q) = [0..<length (y # q)]"
    unfolding queue_tops_def list_all_iff using assms i by (intro filter_True) (simp del: nth_Cons_Suc)
  then show t: "queue_top 0 (y # q) = 0"
    by (simp add: queue_top_def upt_conv_Cons del: upt_Suc)
  show "queue_pop 0 (y # q) = q"
    by (simp add: queue_pop_def t)
qed

lemma retire_finished:
  assumes "\<forall>m. nd_outbound_message n = Some m \<longrightarrow> stream_eof (msg_stream m)"
  obtains t u where "retire_message now n = n\<lparr>nd_outbound_message := None, nd_last_message_sent_time := t, nd_outbound_message_start_time := u\<rparr>"
proof (cases "nd_outbound_message n")
  case None
  then have "retire_message now n = n\<lparr>nd_outbound_message := None, nd_last_message_sent_time := nd_last_message_sent_time n,
      nd_outbound_message_start_time := nd_outbound_message_start_time n\<rparr>"
    by (simp add: retire_message_def)
  then show ?thesis by (rule that)
next
  case (Some m)
  with assms have "retire_message now n = n\<lparr>nd_outbound_message := None,
      nd_last_message_sent_time := (if message_get_type m \<noteq> kPing \<and> message_get_type m \<noteq> kPong then now else nd_last_message_sent_time n),
      nd_outbound_message_start_time := None\<rparr>"
    by (simp add: retire_message_def Let_def)
  then show ?thesis by (rule that)
qed

lemma frame_piece:
  assumes "length f \<le> kMaxBytesPerIO"
  shows "stream_read (Some (min kMaxBytesPerIO (length f))) (stream_at v f 0) = (Success f, stream_at v f (length f))"
  using read_Some [of "stream_at v f 0" "length f"] assms by (simp add: stream_at_simps min.absorb2)

lemma begins_write:
  assumes e: "env_ok env" and p: "sendable kDefaultProtocolVersion p" "handshake_payload p"
    and l: "length (env_frame env kDefaultProtocolVersion p) \<le> kMaxBytesPerIO"
    and w: "shows_view n lv w" "vw_queue w = (env_message env kDefaultProtocolVersion p, pr) # q" "\<forall>x \<in> set q. snd x = pr" "\<not> vw_busy w" "vw_buffer w = []"
    and h: "(OutboundData, payload_type p) \<notin> vw_exchanged w" "vw_exchanged w \<inter> handshake_messages \<noteq> {} \<or> payload_type p = kVersion"
  shows "\<exists>n'. start_write now 0 n = Some n' \<and> shows_view n' lv (w\<lparr>vw_exchanged := insert (OutboundData, payload_type p) (vw_exchanged w), vw_queue := q,
    vw_busy := True, vw_buffer := env_frame env kDefaultProtocolVersion p, vw_tasks := vw_tasks w @ completion (OutboundData, payload_type p) (vw_exchanged w)\<rparr>)"
proof -
  note f = sendable_frame [OF e p(1)] and v = shows_viewD [OF w(1)]
  let ?v = kDefaultProtocolVersion
  let ?f = "env_frame env ?v p"
  define m where "m = (env_message env ?v p)\<lparr>msg_stream := stream_at ?v ?f 0\<rparr>"
  have m: "message_get_type m = payload_type p" "msg_stream m = stream_at ?v ?f 0" "\<And>s. msg_stream (m\<lparr>msg_stream := s\<rparr>) = s"
    using f(3) by (simp_all add: m_def message_get_type_def)
  have s: "(env_message env ?v p)\<lparr>msg_stream := snd (stream_seekg 0 (msg_stream (env_message env ?v p)))\<rparr> = m"
    by (simp add: m_def complete_stage_def body_stage_def stream_at_simps)
  obtain t u where r: "retire_message now (n\<lparr>nd_is_writing := True\<rparr>) =
      n\<lparr>nd_is_writing := True, nd_outbound_message := None, nd_last_message_sent_time := t, nd_outbound_message_start_time := u\<rparr>"
    by (rule retire_finished [of "n\<lparr>nd_is_writing := True\<rparr>" now]) (use v(13) in simp_all)
  let ?n = "n\<lparr>nd_is_writing := True, nd_last_message_sent_time := t, nd_outbound_message_start_time := u, nd_outbound_message := Some m, nd_outbound_messages_queue := q\<rparr>"
  have q: "queue_top 0 (vw_queue w) = 0" "queue_pop 0 (vw_queue w) = q"
    unfolding w(2) using queue_first [of "(env_message env ?v p, pr)" q pr] w(3) by simp_all
  have "start_write now 0 n = write_piece now m ?n"
    using v(2,7,8) w(2,4) q s by (simp add: start_write_def r Let_def)
  moreover have "validate_message_for_protocol_handshake OutboundData (payload_type p) ?n =
      (None, ?n\<lparr>nd_handshake := status_of (insert (OutboundData, payload_type p) (vw_exchanged w)),
        nd_tasks := nd_tasks ?n @ completion (OutboundData, payload_type p) (vw_exchanged w)\<rparr>)"
    by (rule handshake_passes [OF _ p(2) h]) (simp add: v(6))
  ultimately show ?thesis
    using v w(5) by (simp add: write_piece_def begin_message_def Let_def m stream_at_simps frame_piece [OF l] shows_view_def stream_eof_def)
qed

lemma version_sent_bit: "status_of S AND kVersionSent = 0 \<longleftrightarrow> (OutboundData, kVersion) \<notin> S"
  by (cases "(OutboundData, kVersion) \<in> S"; cases "(InboundData, kVersion) \<in> S"; cases "(OutboundData, kVerAck) \<in> S";
    cases "(InboundData, kVerAck) \<in> S") (simp_all add: flags status_of_def)

text \<open>Two versions that can be exchanged: inside the bounds of their message, of the supported protocol and of different nodes.\<close>

definition compatible :: "version_payload \<Rightarrow> version_payload \<Rightarrow> bool" where
  "compatible v w \<longleftrightarrow> sendable kDefaultProtocolVersion (VersionPayload v) \<and> sendable kDefaultProtocolVersion (VersionPayload w) \<and>
    sint (vp_protocol_version v) = kDefaultProtocolVersion \<and> sint (vp_protocol_version w) = kDefaultProtocolVersion \<and> vp_nonce v \<noteq> vp_nonce w"

definition answer :: "node_env \<Rightarrow> version_payload \<Rightarrow> (data_direction_mode \<times> message_type) set \<Rightarrow> message_queue_item list" where
  "answer env lv S = (if (OutboundData, kVersion) \<in> S then [] else [(env_message env kDefaultProtocolVersion (VersionPayload lv), kHigh)]) @
    [(env_message env kDefaultProtocolVersion (NullPayload kVerAck), kHigh)]"

lemma version_processed:
  assumes e: "env_ok env" and c: "compatible lv rv" and n: "nd_local_version n = lv" "nd_version n = kDefaultProtocolVersion" "nd_handshake n = status_of S"
  shows "process_inbound_message env now (payload_received kDefaultProtocolVersion (VersionPayload rv)) n =
    Some (None, n\<lparr>nd_remote_version := version_payload_upd rv version_payload_new, nd_version := kDefaultProtocolVersion,
      nd_outbound_messages_queue := nd_outbound_messages_queue n @ answer env lv S,
      nd_tasks := nd_tasks n @ map (\<lambda>_. StartWrite) (answer env lv S), nd_last_message_received_time := now,
      nd_delivered := nd_delivered n @ [VersionPayload (nd_remote_version n)]\<rparr>)"
proof -
  let ?u = "version_payload_upd rv version_payload_new"
  have c': "sendable kDefaultProtocolVersion (VersionPayload lv)" "sint (vp_protocol_version lv) = kDefaultProtocolVersion"
    "sint (vp_protocol_version ?u) = kDefaultProtocolVersion" "vp_nonce ?u \<noteq> vp_nonce lv"
    using c by (auto simp: compatible_def version_payload_upd_def)
  have "process_version env ?u n = Some (None, Some (VersionPayload (nd_remote_version n)), n\<lparr>nd_remote_version := ?u, nd_version := kDefaultProtocolVersion,
      nd_outbound_messages_queue := nd_outbound_messages_queue n @ answer env lv S, nd_tasks := nd_tasks n @ map (\<lambda>_. StartWrite) (answer env lv S)\<rparr>)"
    using n c' by (cases "(OutboundData, kVersion) \<in> S") (simp_all add: process_version_def
      kMinSupportedProtocolVersion_def kMaxSupportedProtocolVersion_def version_sent_bit
      push_message_type_def null_payload_def push_sendable [OF e] small_sendable Let_def answer_def pushed_def post_def)
  then show ?thesis
    by (simp add: process_inbound_message_def dispatch_message_def payload_received_def deliver_def Let_def)
qed

lemma reads_version:
  assumes e: "env_ok env" and c: "compatible lv rv" and w: "shows_view n lv w" and h: "(InboundData, kVersion) \<notin> vw_exchanged w" and k: "parsed < kMaxMessagesPerRead"
  shows "\<exists>n'. parse_loop env now (env_frame env kDefaultProtocolVersion (VersionPayload rv) @ rest) parsed n = parse_loop env now rest (Suc parsed) n' \<and>
    shows_view n' lv (w\<lparr>vw_exchanged := insert (InboundData, kVersion) (vw_exchanged w), vw_queue := vw_queue w @ answer env lv (vw_exchanged w),
      vw_tasks := vw_tasks w @ completion (InboundData, kVersion) (vw_exchanged w) @ map (\<lambda>_. StartWrite) (answer env lv (vw_exchanged w)),
      vw_remote := version_payload_upd rv version_payload_new\<rparr>)"
proof -
  note v = shows_viewD [OF w]
  let ?p = "VersionPayload rv" and ?S = "insert (InboundData, kVersion) (vw_exchanged w)"
  let ?n = "n\<lparr>nd_inbound_message_start_time := Some now, nd_inbound_message := Some (env_message env (nd_version n) ?p)\<rparr>"
  let ?m = "?n\<lparr>nd_handshake := status_of ?S, nd_tasks := nd_tasks n @ completion (InboundData, kVersion) (vw_exchanged w)\<rparr>"
  have p: "sendable (nd_version n) ?p" using c v(3) by (simp add: compatible_def)
  have val: "validate_message_for_protocol_handshake InboundData (payload_type ?p) ?n = (None, ?m)"
    using handshake_passes [of ?n "vw_exchanged w" ?p InboundData] v(6) h by (simp add: handshake_payload_def)
  have a: "answer env lv ?S = answer env lv (vw_exchanged w)" by (simp add: answer_def)
  have m: "nd_local_version ?m = lv" "nd_version ?m = kDefaultProtocolVersion" "nd_handshake ?m = status_of ?S"
    using v(3,5) by simp_all
  note pr = version_processed [OF e c m, of now, unfolded a, folded v(3)]
  show ?thesis
    using parse_frame [OF e v(4) p k val pr, of rest] v
    by (auto simp: shows_view_def counted_def reset_inbound_def)
qed

lemma reads_verack:
  assumes e: "env_ok env" and w: "shows_view n lv w" and h: "(InboundData, kVerAck) \<notin> vw_exchanged w" "vw_exchanged w \<inter> handshake_messages \<noteq> {}"
    and k: "parsed < kMaxMessagesPerRead"
  shows "\<exists>n'. parse_loop env now (env_frame env kDefaultProtocolVersion (NullPayload kVerAck) @ rest) parsed n = parse_loop env now rest (Suc parsed) n' \<and>
    shows_view n' lv (w\<lparr>vw_exchanged := insert (InboundData, kVerAck) (vw_exchanged w),
      vw_tasks := vw_tasks w @ completion (InboundData, kVerAck) (vw_exchanged w)\<rparr>)"
proof -
  note v = shows_viewD [OF w]
  let ?p = "NullPayload kVerAck" and ?S = "insert (InboundData, kVerAck) (vw_exchanged w)"
  let ?n = "n\<lparr>nd_inbound_message_start_time := Some now, nd_inbound_message := Some (env_message env (nd_version n) ?p)\<rparr>"
  let ?m = "?n\<lparr>nd_handshake := status_of ?S, nd_tasks := nd_tasks n @ completion (InboundData, kVerAck) (vw_exchanged w)\<rparr>"
  have val: "validate_message_for_protocol_handshake InboundData (payload_type ?p) ?n = (None, ?m)"
    using handshake_passes [of ?n "vw_exchanged w" ?p InboundData] v(6) h by (simp add: handshake_payload_def)
  have pr: "process_inbound_message env now (payload_received (nd_version n) ?p) ?m = Some (None, ?m\<lparr>nd_last_message_received_time := now\<rparr>)"
    by (simp add: process_inbound_message_def dispatch_message_def payload_received_def)
  show ?thesis
    using parse_frame [OF e v(4) small_sendable(3) k val pr, of rest] v
    by (auto simp: shows_view_def counted_def reset_inbound_def)
qed

section \<open>Two nodes on a connection\<close>

text \<open>A step of one side: a posted handler, a write of which the socket takes some bytes, or a read of some of the bytes that
  have arrived. The two lists are the bytes that travel to the node and from the node.\<close>

inductive side_step :: "node_env \<Rightarrow> node \<times> bytes \<times> bytes \<Rightarrow> node \<times> bytes \<times> bytes \<Rightarrow> bool" for env where
  handler: "run_next env ch n = Some n' \<Longrightarrow> side_step env (n, inc, out) (n', inc, out)"
| transmit: "nd_write_pending n \<Longrightarrow> 0 < k \<Longrightarrow> k \<le> length (nd_send_buffer n) \<Longrightarrow>
    side_step env (n, inc, out) (handle_write False k n, inc, out @ take k (nd_send_buffer n))"
| arrive: "nd_reading n \<Longrightarrow> data \<noteq> [] \<Longrightarrow> length data \<le> kMaxBytesPerIO \<Longrightarrow> handle_read env now False data n = Some (Some n') \<Longrightarrow>
    side_step env (n, data @ inc, out) (n', inc, out)"

record link =
  lk_a :: node
  lk_b :: node
  lk_ab :: bytes
  lk_ba :: bytes

inductive link_step :: "node_env \<Rightarrow> link \<Rightarrow> link \<Rightarrow> bool" for env where
  side_a: "side_step env (a, ba, ab) (a', ba', ab') \<Longrightarrow>
    link_step env \<lparr>lk_a = a, lk_b = b, lk_ab = ab, lk_ba = ba\<rparr> \<lparr>lk_a = a', lk_b = b, lk_ab = ab', lk_ba = ba'\<rparr>"
| side_b: "side_step env (b, ab, ba) (b', ab', ba') \<Longrightarrow>
    link_step env \<lparr>lk_a = a, lk_b = b, lk_ab = ab, lk_ba = ba\<rparr> \<lparr>lk_a = a, lk_b = b', lk_ab = ab', lk_ba = ba'\<rparr>"

section \<open>The steps of a side\<close>

abbreviation any_choice :: node_choice where
  "any_choice \<equiv> \<lparr>ch_now = 0, ch_pick = 0, ch_nonce = 0, ch_interval = 0\<rparr>"

lemma side_starts_reading:
  assumes "shows_view n lv w" "vw_tasks w = StartRead # ts"
  shows "\<exists>n'. side_step env (n, inc, out) (n', inc, out) \<and> shows_view n' lv (w\<lparr>vw_reading := True, vw_tasks := ts\<rparr>)"
proof -
  have "run_next env any_choice n = Some (n\<lparr>nd_tasks := ts, nd_reading := True\<rparr>)"
    using shows_viewD(2,12) [OF assms(1)] assms(2) by (simp add: run_next_def run_task_def start_read_def)
  moreover have "shows_view (n\<lparr>nd_tasks := ts, nd_reading := True\<rparr>) lv (w\<lparr>vw_reading := True, vw_tasks := ts\<rparr>)"
    using assms(1) by (simp add: shows_view_def)
  ultimately show ?thesis by (blast intro: handler)
qed

lemma side_starts_writing:
  assumes e: "env_ok env" and p: "sendable kDefaultProtocolVersion p" "handshake_payload p"
    and l: "length (env_frame env kDefaultProtocolVersion p) \<le> kMaxBytesPerIO"
    and w: "shows_view n lv w" "vw_queue w = (env_message env kDefaultProtocolVersion p, pr) # q" "\<forall>x \<in> set q. snd x = pr" "\<not> vw_busy w" "vw_buffer w = []"
      "vw_tasks w = StartWrite # ts"
    and h: "(OutboundData, payload_type p) \<notin> vw_exchanged w" "vw_exchanged w \<inter> handshake_messages \<noteq> {} \<or> payload_type p = kVersion"
  shows "\<exists>n'. side_step env (n, inc, out) (n', inc, out) \<and> shows_view n' lv (w\<lparr>vw_exchanged := insert (OutboundData, payload_type p) (vw_exchanged w),
    vw_queue := q, vw_busy := True, vw_buffer := env_frame env kDefaultProtocolVersion p, vw_tasks := ts @ completion (OutboundData, payload_type p) (vw_exchanged w)\<rparr>)"
proof -
  let ?n = "n\<lparr>nd_tasks := ts\<rparr>" and ?w = "w\<lparr>vw_tasks := ts\<rparr>"
  have "shows_view ?n lv ?w" using w(1) by (simp add: shows_view_def)
  from begins_write [OF e p l this, where pr = pr and q = q and now = 0] w h
  obtain n' where n': "start_write 0 0 ?n = Some n'" "shows_view n' lv (?w\<lparr>vw_exchanged := insert (OutboundData, payload_type p) (vw_exchanged w), vw_queue := q,
    vw_busy := True, vw_buffer := env_frame env kDefaultProtocolVersion p, vw_tasks := ts @ completion (OutboundData, payload_type p) (vw_exchanged w)\<rparr>)"
    by auto
  have "run_next env any_choice n = Some n'"
    using n'(1) shows_viewD(12) [OF w(1)] w(6) by (simp add: run_next_def run_task_def)
  with n'(2) show ?thesis by (auto intro: handler)
qed

lemma side_transmits:
  assumes "shows_view n lv w" "vw_busy w" "vw_buffer w \<noteq> []"
  shows "\<exists>n'. side_step env (n, inc, out) (n', inc, out @ vw_buffer w) \<and> shows_view n' lv (w\<lparr>vw_busy := False, vw_buffer := [], vw_tasks := vw_tasks w @ [StartWrite]\<rparr>)"
proof -
  note v = shows_viewD [OF assms(1)]
  have "side_step env (n, inc, out) (handle_write False (length (vw_buffer w)) n, inc, out @ take (length (vw_buffer w)) (nd_send_buffer n))"
    by (rule transmit) (use v(9,10) assms(2,3) in auto)
  moreover have "shows_view (handle_write False (length (vw_buffer w)) n) lv (w\<lparr>vw_busy := False, vw_buffer := [], vw_tasks := vw_tasks w @ [StartWrite]\<rparr>)"
    using assms v by (simp add: handle_write_def is_running_def post_def shows_view_def Let_def)
  ultimately show ?thesis using v(10) by auto
qed

lemma side_reads:
  assumes "shows_view n lv w" "vw_reading w" "data \<noteq> []" "length data \<le> kMaxBytesPerIO"
    and parse: "\<And>m. shows_view m lv (w\<lparr>vw_reading := False\<rparr>) \<Longrightarrow> \<exists>m'. parse_loop env 0 data 0 m = Some (Some (None, m')) \<and> shows_view m' lv w'"
  shows "\<exists>n'. side_step env (n, data @ inc, out) (n', inc, out) \<and> shows_view n' lv (w'\<lparr>vw_tasks := vw_tasks w' @ [StartRead]\<rparr>)"
proof -
  note v = shows_viewD [OF assms(1)]
  let ?m = "n\<lparr>nd_reading := False, nd_traffic_meter := update_inbound (of_nat (length data)) (nd_traffic_meter n)\<rparr>"
  have "shows_view ?m lv (w\<lparr>vw_reading := False\<rparr>)"
    using assms(1) by (simp add: shows_view_def)
  from parse [OF this] obtain m' where m': "parse_loop env 0 data 0 ?m = Some (Some (None, m'))" "shows_view m' lv w'" by blast
  have "handle_read env 0 False data n = Some (Some (post StartRead m'))"
    using m'(1) v(1) assms(3) by (simp add: handle_read_def parse_messages_def is_running_def Let_def)
  then have "side_step env (n, data @ inc, out) (post StartRead m', inc, out)"
    by (rule arrive [OF _ assms(3,4), rotated]) (use v(11) assms(2) in simp)
  moreover have "shows_view (post StartRead m') lv (w'\<lparr>vw_tasks := vw_tasks w' @ [StartRead]\<rparr>)"
    using m'(2) by (simp add: shows_view_def post_def)
  ultimately show ?thesis by blast
qed

section \<open>The handshake of two nodes\<close>

definition linked :: "version_payload \<Rightarrow> version_payload \<Rightarrow> node_view \<Rightarrow> node_view \<Rightarrow> bytes \<Rightarrow> bytes \<Rightarrow> link \<Rightarrow> bool" where
  "linked va vb wa wb ab ba l \<longleftrightarrow> shows_view (lk_a l) va wa \<and> shows_view (lk_b l) vb wb \<and> lk_ab l = ab \<and> lk_ba l = ba"

definition leads :: "node_env \<Rightarrow> (link \<Rightarrow> bool) \<Rightarrow> (link \<Rightarrow> bool) \<Rightarrow> bool" where
  "leads env P Q \<longleftrightarrow> (\<forall>l. P l \<longrightarrow> (\<exists>l'. (link_step env)\<^sup>*\<^sup>* l l' \<and> Q l'))"

lemma leads_trans [trans]: "leads env P Q \<Longrightarrow> leads env Q R \<Longrightarrow> leads env P R"
  unfolding leads_def by (meson rtranclp_trans)

lemma leads_step:
  assumes "\<And>l. P l \<Longrightarrow> \<exists>l'. link_step env l l' \<and> Q l'"
  shows "leads env P Q"
  unfolding leads_def using assms by (meson r_into_rtranclp)

lemma leads_a:
  assumes "\<And>n. shows_view n va wa \<Longrightarrow> \<exists>n'. side_step env (n, ba, ab) (n', ba', ab') \<and> shows_view n' va wa'"
  shows "leads env (linked va vb wa wb ab ba) (linked va vb wa' wb ab' ba')"
proof (rule leads_step)
  fix l assume l: "linked va vb wa wb ab ba l"
  with assms [of "lk_a l"] obtain n' where n': "side_step env (lk_a l, ba, ab) (n', ba', ab')" "shows_view n' va wa'"
    by (auto simp: linked_def)
  have "l = \<lparr>lk_a = lk_a l, lk_b = lk_b l, lk_ab = ab, lk_ba = ba\<rparr>" using l by (simp add: linked_def)
  with side_a [OF n'(1), of "lk_b l"] n'(2) l show "\<exists>l'. link_step env l l' \<and> linked va vb wa' wb ab' ba' l'"
    by (intro exI [of _ "\<lparr>lk_a = n', lk_b = lk_b l, lk_ab = ab', lk_ba = ba'\<rparr>"]) (simp add: linked_def)
qed

lemma leads_b:
  assumes "\<And>n. shows_view n vb wb \<Longrightarrow> \<exists>n'. side_step env (n, ab, ba) (n', ab', ba') \<and> shows_view n' vb wb'"
  shows "leads env (linked va vb wa wb ab ba) (linked va vb wa wb' ab' ba')"
proof (rule leads_step)
  fix l assume l: "linked va vb wa wb ab ba l"
  with assms [of "lk_b l"] obtain n' where n': "side_step env (lk_b l, ab, ba) (n', ab', ba')" "shows_view n' vb wb'"
    by (auto simp: linked_def)
  have "l = \<lparr>lk_a = lk_a l, lk_b = lk_b l, lk_ab = ab, lk_ba = ba\<rparr>" using l by (simp add: linked_def)
  with side_b [OF n'(1), of "lk_a l"] n'(2) l show "\<exists>l'. link_step env l l' \<and> linked va vb wa wb' ab' ba' l'"
    by (intro exI [of _ "\<lparr>lk_a = lk_a l, lk_b = n', lk_ab = ab', lk_ba = ba'\<rparr>"]) (simp add: linked_def)
qed

lemma handshake_frames:
  assumes e: "env_ok env" and c: "compatible va vb"
  shows "length (env_frame env kDefaultProtocolVersion (VersionPayload va)) \<le> 2048" "length (env_frame env kDefaultProtocolVersion (VersionPayload vb)) \<le> 2048"
    "length (env_frame env kDefaultProtocolVersion (NullPayload kVerAck)) = 24"
    "env_frame env kDefaultProtocolVersion (VersionPayload va) \<noteq> []" "env_frame env kDefaultProtocolVersion (VersionPayload vb) \<noteq> []"
proof -
  have "length (env_frame env kDefaultProtocolVersion (VersionPayload v)) \<le> 2048" if "sendable kDefaultProtocolVersion (VersionPayload v)" for v
    using that sendable_frame(2) [OF e that] by (simp add: sendable_def message_definition_defs kKiB_def Let_def)
  with c show "length (env_frame env kDefaultProtocolVersion (VersionPayload va)) \<le> 2048" "length (env_frame env kDefaultProtocolVersion (VersionPayload vb)) \<le> 2048"
    by (simp_all add: compatible_def)
  show "length (env_frame env kDefaultProtocolVersion (NullPayload kVerAck)) = 24"
    using sendable_frame(2) [OF e small_sendable(3)] by (simp add: payload_bytes_def)
  show "env_frame env kDefaultProtocolVersion (VersionPayload va) \<noteq> []" "env_frame env kDefaultProtocolVersion (VersionPayload vb) \<noteq> []"
    using c sendable_frame(2) [OF e, of kDefaultProtocolVersion "VersionPayload va"] sendable_frame(2) [OF e, of kDefaultProtocolVersion "VersionPayload vb"]
    by (auto simp: compatible_def)
qed

text \<open>The views of a node during the handshake.\<close>

abbreviation (input) view :: "(data_direction_mode \<times> message_type) set \<Rightarrow> message_queue_item list \<Rightarrow> bytes \<Rightarrow> bool \<Rightarrow> node_task list \<Rightarrow> version_payload \<Rightarrow> node_view" where
  "view S q buf rd ts r \<equiv> \<lparr>vw_exchanged = S, vw_queue = q, vw_busy = (buf \<noteq> []), vw_buffer = buf, vw_reading = rd, vw_tasks = ts, vw_remote = r\<rparr>"

lemma writes_version:
  assumes e: "env_ok env" and c: "compatible v v'" and n: "shows_view n v (view S ((env_message env kDefaultProtocolVersion (VersionPayload v), pr) # q) [] rd (StartWrite # ts) r)"
    and q: "\<forall>x \<in> set q. snd x = pr" and S: "(OutboundData, kVersion) \<notin> S"
  shows "\<exists>n'. side_step env (n, inc, out) (n', inc, out) \<and> shows_view n' v (view (insert (OutboundData, kVersion) S) q
    (env_frame env kDefaultProtocolVersion (VersionPayload v)) rd (ts @ completion (OutboundData, kVersion) S) r)"
proof -
  have "length (env_frame env kDefaultProtocolVersion (VersionPayload v)) \<le> kMaxBytesPerIO" "sendable kDefaultProtocolVersion (VersionPayload v)"
    using handshake_frames(1) [OF e c] c by (simp_all add: kMaxBytesPerIO_def kKiB_def compatible_def)
  from side_starts_writing [OF e this(2) _ this(1) n, of pr q ts inc out] q S handshake_frames(4) [OF e c] show ?thesis
    by (simp add: handshake_payload_def)
qed

lemma writes_verack:
  assumes e: "env_ok env" and n: "shows_view n v (view S ((env_message env kDefaultProtocolVersion (NullPayload kVerAck), pr) # q) [] rd (StartWrite # ts) r)"
    and q: "\<forall>x \<in> set q. snd x = pr" and S: "(OutboundData, kVerAck) \<notin> S" "S \<inter> handshake_messages \<noteq> {}"
  shows "\<exists>n'. side_step env (n, inc, out) (n', inc, out) \<and> shows_view n' v (view (insert (OutboundData, kVerAck) S) q
    (env_frame env kDefaultProtocolVersion (NullPayload kVerAck)) rd (ts @ completion (OutboundData, kVerAck) S) r)"
proof -
  have f: "length (env_frame env kDefaultProtocolVersion (NullPayload kVerAck)) = 24"
    using sendable_frame(2) [OF e small_sendable(3)] by (simp add: payload_bytes_def)
  then have "length (env_frame env kDefaultProtocolVersion (NullPayload kVerAck)) \<le> kMaxBytesPerIO" "env_frame env kDefaultProtocolVersion (NullPayload kVerAck) \<noteq> []"
    by (auto simp: kMaxBytesPerIO_def kKiB_def)
  from side_starts_writing [OF e small_sendable(3) _ this(1) n, of pr q ts inc out] q S this(2) show ?thesis
    by (simp add: handshake_payload_def)
qed

lemma transmits:
  assumes "shows_view n v (view S q buf rd ts r)" "buf \<noteq> []"
  shows "\<exists>n'. side_step env (n, inc, out) (n', inc, out @ buf) \<and> shows_view n' v (view S q [] rd (ts @ [StartWrite]) r)"
  using side_transmits [OF assms(1), of env inc out] assms(2) by simp

lemma starts_reading:
  assumes "shows_view n v (view S q buf rd (StartRead # ts) r)"
  shows "\<exists>n'. side_step env (n, inc, out) (n', inc, out) \<and> shows_view n' v (view S q buf True ts r)"
  using side_starts_reading [OF assms, of ts env inc out] by simp

lemma parse_nothing: "parse_loop env now [] k n = Some (Some (None, n))"
  by (subst parse_loop.simps) simp

lemma receives_version:
  assumes e: "env_ok env" and c: "compatible v u" and n: "shows_view n v (view S q buf True ts r)" and S: "(InboundData, kVersion) \<notin> S"
  shows "\<exists>n'. side_step env (n, env_frame env kDefaultProtocolVersion (VersionPayload u) @ inc, out) (n', inc, out) \<and>
    shows_view n' v (view (insert (InboundData, kVersion) S) (q @ answer env v S) buf False
      (ts @ completion (InboundData, kVersion) S @ map (\<lambda>_. StartWrite) (answer env v S) @ [StartRead]) (version_payload_upd u version_payload_new))"
proof -
  have l: "env_frame env kDefaultProtocolVersion (VersionPayload u) \<noteq> []" "length (env_frame env kDefaultProtocolVersion (VersionPayload u)) \<le> kMaxBytesPerIO"
    using handshake_frames(2,5) [OF e c] by (simp_all add: kMaxBytesPerIO_def kKiB_def)
  have "\<exists>m'. parse_loop env 0 (env_frame env kDefaultProtocolVersion (VersionPayload u)) 0 m = Some (Some (None, m')) \<and>
      shows_view m' v (view (insert (InboundData, kVersion) S) (q @ answer env v S) buf False
        (ts @ completion (InboundData, kVersion) S @ map (\<lambda>_. StartWrite) (answer env v S)) (version_payload_upd u version_payload_new))"
    if "shows_view m v (view S q buf False ts r)" for m
    using reads_version [OF e c that, of 0 0 "[]"] S by (simp add: parse_nothing kMaxMessagesPerRead_def)
  from side_reads [OF n _ l this, where inc = inc and out = out] show ?thesis by simp
qed

lemma receives_verack:
  assumes e: "env_ok env" and n: "shows_view n v (view S q buf True ts r)" and S: "(InboundData, kVerAck) \<notin> S" "S \<inter> handshake_messages \<noteq> {}"
  shows "\<exists>n'. side_step env (n, env_frame env kDefaultProtocolVersion (NullPayload kVerAck) @ inc, out) (n', inc, out) \<and>
    shows_view n' v (view (insert (InboundData, kVerAck) S) q buf False (ts @ completion (InboundData, kVerAck) S @ [StartRead]) r)"
proof -
  have "length (env_frame env kDefaultProtocolVersion (NullPayload kVerAck)) = 24"
    using sendable_frame(2) [OF e small_sendable(3)] by (simp add: payload_bytes_def)
  then have l: "env_frame env kDefaultProtocolVersion (NullPayload kVerAck) \<noteq> []" "length (env_frame env kDefaultProtocolVersion (NullPayload kVerAck)) \<le> kMaxBytesPerIO"
    by (auto simp: kMaxBytesPerIO_def kKiB_def)
  have "\<exists>m'. parse_loop env 0 (env_frame env kDefaultProtocolVersion (NullPayload kVerAck)) 0 m = Some (Some (None, m')) \<and>
      shows_view m' v (view (insert (InboundData, kVerAck) S) q buf False (ts @ completion (InboundData, kVerAck) S) r)"
    if "shows_view m v (view S q buf False ts r)" for m
    using reads_verack [OF e that, of 0 0 "[]"] S by (simp add: parse_nothing kMaxMessagesPerRead_def)
  from side_reads [OF n _ l this, where inc = inc and out = out] show ?thesis by simp
qed

lemma nothing_to_write:
  assumes n: "shows_view n v (view S [] [] rd (StartWrite # ts) r)"
  shows "\<exists>n'. side_step env (n, inc, out) (n', inc, out) \<and> shows_view n' v (view S [] [] rd ts r)"
proof -
  note w = shows_viewD [OF n]
  let ?n = "n\<lparr>nd_tasks := ts\<rparr>"
  obtain t u where r: "retire_message 0 (?n\<lparr>nd_is_writing := True\<rparr>) =
      ?n\<lparr>nd_is_writing := True, nd_outbound_message := None, nd_last_message_sent_time := t, nd_outbound_message_start_time := u\<rparr>"
    by (rule retire_finished [of "?n\<lparr>nd_is_writing := True\<rparr>" 0]) (use w(13) in simp_all)
  let ?m = "?n\<lparr>nd_is_writing := False, nd_outbound_message := None, nd_last_message_sent_time := t, nd_outbound_message_start_time := u\<rparr>"
  have "start_write 0 0 ?n = Some ?m"
    using w(2,7,8) by (simp add: start_write_def r Let_def)
  then have "run_next env any_choice n = Some ?m"
    using w(12) by (simp add: run_next_def run_task_def)
  moreover have "shows_view ?m v (view S [] [] rd ts r)"
    using n by (simp add: shows_view_def)
  ultimately show ?thesis by (blast intro: handler)
qed

abbreviation (input) version_frame :: "node_env \<Rightarrow> version_payload \<Rightarrow> bytes" where
  "version_frame env v \<equiv> env_frame env kDefaultProtocolVersion (VersionPayload v)"

abbreviation (input) verack_frame :: "node_env \<Rightarrow> bytes" where
  "verack_frame env \<equiv> env_frame env kDefaultProtocolVersion (NullPayload kVerAck)"

abbreviation (input) queued :: "node_env \<Rightarrow> message_priority \<Rightarrow> message_payload \<Rightarrow> message_queue_item" where
  "queued env pr p \<equiv> (env_message env kDefaultProtocolVersion p, pr)"

text \<open>The first half: the caller presents itself, and the callee answers with its version and an acknowledgement.\<close>

lemma versions_exchanged:
  assumes e: "env_ok env" and c: "compatible va vb" "compatible vb va"
  shows "leads env
    (linked va vb (view {} [queued env kNormal (VersionPayload va)] [] False [StartRead, StartWrite] r) (view {} [] [] False [StartRead] r) [] [])
    (linked va vb (view {(OutboundData, kVersion)} [] [] True [StartWrite] r)
      (view {(OutboundData, kVerAck), (OutboundData, kVersion), (InboundData, kVersion)} [] [] False [StartRead, StartWrite, StartWrite] (version_payload_upd va version_payload_new))
      [] (version_frame env vb @ verack_frame env))" (is "leads env ?P ?Q")
proof -
  note f = handshake_frames [OF e c(1)] and sets = completion_def handshake_messages_def answer_def
  let ?ru = "version_payload_upd va version_payload_new"
  have "leads env ?P (linked va vb (view {} [queued env kNormal (VersionPayload va)] [] True [StartWrite] r) (view {} [] [] False [StartRead] r) [] [])"
    by (rule leads_a) (rule starts_reading)
  also have "leads env \<dots> (linked va vb (view {(OutboundData, kVersion)} [] (version_frame env va) True [] r) (view {} [] [] False [StartRead] r) [] [])"
    by (rule leads_a, drule writes_version [OF e c(1)]) (simp_all add: sets)
  also have "leads env \<dots> (linked va vb (view {(OutboundData, kVersion)} [] [] True [StartWrite] r) (view {} [] [] False [StartRead] r) (version_frame env va) [])"
    by (rule leads_a, drule transmits [OF _ f(4), where env = env and inc = "[]" and out = "[]"]) simp
  also have "leads env \<dots> (linked va vb (view {(OutboundData, kVersion)} [] [] True [StartWrite] r) (view {} [] [] True [] r) (version_frame env va) [])"
    by (rule leads_b) (rule starts_reading)
  also have "leads env \<dots> (linked va vb (view {(OutboundData, kVersion)} [] [] True [StartWrite] r)
      (view {(InboundData, kVersion)} [queued env kHigh (VersionPayload vb), queued env kHigh (NullPayload kVerAck)] [] False [StartWrite, StartWrite, StartRead] ?ru) [] [])"
    by (rule leads_b, drule receives_version [OF e c(2), where inc = "[]"]) (simp_all add: sets)
  also have "leads env \<dots> (linked va vb (view {(OutboundData, kVersion)} [] [] True [StartWrite] r)
      (view {(OutboundData, kVersion), (InboundData, kVersion)} [queued env kHigh (NullPayload kVerAck)] (version_frame env vb) False [StartWrite, StartRead] ?ru) [] [])"
    by (rule leads_b, drule writes_version [OF e c(2)]) (simp_all add: sets)
  also have "leads env \<dots> (linked va vb (view {(OutboundData, kVersion)} [] [] True [StartWrite] r)
      (view {(OutboundData, kVersion), (InboundData, kVersion)} [queued env kHigh (NullPayload kVerAck)] [] False [StartWrite, StartRead, StartWrite] ?ru) [] (version_frame env vb))"
    by (rule leads_b, drule transmits [OF _ f(5), where env = env and inc = "[]" and out = "[]"]) simp
  also have "leads env \<dots> (linked va vb (view {(OutboundData, kVersion)} [] [] True [StartWrite] r)
      (view {(OutboundData, kVerAck), (OutboundData, kVersion), (InboundData, kVersion)} [] (verack_frame env) False [StartRead, StartWrite] ?ru) [] (version_frame env vb))"
    by (rule leads_b, drule writes_verack [OF e]) (simp_all add: sets)
  also have "leads env \<dots> ?Q"
    by (rule leads_b, drule transmits [where env = env and inc = "[]" and out = "version_frame env vb"]) (use f(3) in auto)
  finally show ?thesis .
qed

text \<open>The second half: the caller acknowledges, and both have exchanged the four messages.\<close>

lemma acknowledgements_exchanged:
  assumes e: "env_ok env" and c: "compatible va vb"
  shows "leads env
    (linked va vb (view {(OutboundData, kVersion)} [] [] True [StartWrite] r)
      (view {(OutboundData, kVerAck), (OutboundData, kVersion), (InboundData, kVersion)} [] [] False [StartRead, StartWrite, StartWrite] rb)
      [] (version_frame env vb @ verack_frame env))
    (linked va vb (view {(InboundData, kVerAck), (OutboundData, kVerAck), (InboundData, kVersion), (OutboundData, kVersion)} [] [] False
        [StartWrite, OnHandshakeCompleted, StartRead] (version_payload_upd vb version_payload_new))
      (view {(InboundData, kVerAck), (OutboundData, kVerAck), (OutboundData, kVersion), (InboundData, kVersion)} [] [] False
        [StartWrite, StartWrite, OnHandshakeCompleted, StartRead] rb) [] [])" (is "leads env ?P ?Q")
proof -
  note f = handshake_frames [OF e c] and sets = completion_def handshake_messages_def answer_def
  let ?b = "view {(OutboundData, kVerAck), (OutboundData, kVersion), (InboundData, kVersion)} [] [] False [StartRead, StartWrite, StartWrite] rb"
  let ?ru = "version_payload_upd vb version_payload_new"
  let ?ack = "{(OutboundData, kVerAck), (InboundData, kVersion), (OutboundData, kVersion)}"
  have "leads env ?P (linked va vb (view {(InboundData, kVersion), (OutboundData, kVersion)} [queued env kHigh (NullPayload kVerAck)] [] False
      [StartWrite, StartWrite, StartRead] ?ru) ?b [] (verack_frame env))"
    by (rule leads_a, drule receives_version [OF e c, where inc = "verack_frame env"]) (simp_all add: sets)
  also have "leads env \<dots> (linked va vb (view ?ack [] (verack_frame env) False [StartWrite, StartRead] ?ru) ?b [] (verack_frame env))"
    by (rule leads_a, drule writes_verack [OF e]) (simp_all add: sets)
  also have "leads env \<dots> (linked va vb (view ?ack [] [] False [StartWrite, StartRead, StartWrite] ?ru) ?b (verack_frame env) (verack_frame env))"
    by (rule leads_a, drule transmits [where env = env and inc = "verack_frame env" and out = "[]"]) (use f(3) in auto)
  also have "leads env \<dots> (linked va vb (view ?ack [] [] False [StartRead, StartWrite] ?ru) ?b (verack_frame env) (verack_frame env))"
    by (rule leads_a) (rule nothing_to_write, simp)
  also have "leads env \<dots> (linked va vb (view ?ack [] [] True [StartWrite] ?ru) ?b (verack_frame env) (verack_frame env))"
    by (rule leads_a) (rule starts_reading, simp)
  also have "leads env \<dots> (linked va vb (view (insert (InboundData, kVerAck) ?ack) [] [] False [StartWrite, OnHandshakeCompleted, StartRead] ?ru) ?b (verack_frame env) [])"
    by (rule leads_a, drule receives_verack [OF e, where inc = "[]"]) (simp_all add: sets)
  also have "leads env \<dots> (linked va vb (view (insert (InboundData, kVerAck) ?ack) [] [] False [StartWrite, OnHandshakeCompleted, StartRead] ?ru)
      (view {(OutboundData, kVerAck), (OutboundData, kVersion), (InboundData, kVersion)} [] [] True [StartWrite, StartWrite] rb) (verack_frame env) [])"
    by (rule leads_b) (rule starts_reading, simp)
  also have "leads env \<dots> ?Q"
    by (rule leads_b, drule receives_verack [OF e, where inc = "[]"]) (simp_all add: sets)
  finally show ?thesis .
qed

lemma started_caller:
  assumes e: "env_ok env" and c: "compatible va vb"
  shows "\<exists>a. node_start env now (node_new kOutbound False va now) = Some (True, a) \<and>
    shows_view a va (view {} [queued env kNormal (VersionPayload va)] [] False [StartRead, StartWrite] version_payload_new)"
proof -
  have "sendable kDefaultProtocolVersion (VersionPayload va)" using c by (simp add: compatible_def)
  then show ?thesis
    by (simp add: node_start_def node_new_def stoppable_start_def present_itself_def post_def push_sendable [OF e] pushed_def shows_view_def
        status_of_def flags)
qed

lemma started_callee:
  "\<exists>b. node_start env now (node_new kInbound False vb now) = Some (True, b) \<and> shows_view b vb (view {} [] [] False [StartRead] version_payload_new)"
  by (simp add: node_start_def node_new_def stoppable_start_def present_itself_def post_def shows_view_def status_of_def flags)

lemma fully_connected_view:
  assumes "shows_view n v w" "handshake_messages \<subseteq> vw_exchanged w"
  shows "fully_connected n" "nd_remote_version n = vw_remote w"
  using shows_viewD [OF assms(1)] assms(2) status_completed(1) [of "vw_exchanged w"] by (simp_all add: fully_connected_def is_running_def)

text \<open>C18. Two nodes of the same network, one that dials and one that accepts, with versions of the supported protocol and different
  nonces, can complete the handshake: a schedule of their handlers over the connection makes both fully connected, each holds the
  version of the other, and no byte is left on the way.\<close>

theorem handshake_completes:
  assumes "env_ok env" "compatible va vb"
  shows "\<exists>a b l. node_start env now (node_new kOutbound False va now) = Some (True, a) \<and> node_start env now (node_new kInbound False vb now) = Some (True, b) \<and>
    (link_step env)\<^sup>*\<^sup>* \<lparr>lk_a = a, lk_b = b, lk_ab = [], lk_ba = []\<rparr> l \<and> fully_connected (lk_a l) \<and> fully_connected (lk_b l) \<and>
    nd_remote_version (lk_a l) = version_payload_upd vb version_payload_new \<and> nd_remote_version (lk_b l) = version_payload_upd va version_payload_new \<and>
    lk_ab l = [] \<and> lk_ba l = []"
proof -
  have c: "compatible vb va" using assms(2) by (auto simp: compatible_def)
  obtain a where a: "node_start env now (node_new kOutbound False va now) = Some (True, a)"
    "shows_view a va (view {} [queued env kNormal (VersionPayload va)] [] False [StartRead, StartWrite] version_payload_new)"
    using started_caller [OF assms] by blast
  obtain b where b: "node_start env now (node_new kInbound False vb now) = Some (True, b)" "shows_view b vb (view {} [] [] False [StartRead] version_payload_new)"
    using started_callee by blast
  let ?l = "\<lparr>lk_a = a, lk_b = b, lk_ab = [], lk_ba = []\<rparr>"
  let ?wa = "view {(InboundData, kVerAck), (OutboundData, kVerAck), (InboundData, kVersion), (OutboundData, kVersion)} [] [] False
    [StartWrite, OnHandshakeCompleted, StartRead] (version_payload_upd vb version_payload_new)"
  let ?wb = "view {(InboundData, kVerAck), (OutboundData, kVerAck), (OutboundData, kVersion), (InboundData, kVersion)} [] [] False
    [StartWrite, StartWrite, OnHandshakeCompleted, StartRead] (version_payload_upd va version_payload_new)"
  have "linked va vb (view {} [queued env kNormal (VersionPayload va)] [] False [StartRead, StartWrite] version_payload_new)
      (view {} [] [] False [StartRead] version_payload_new) [] [] ?l"
    using a(2) b(2) by (simp add: linked_def)
  with leads_trans [OF versions_exchanged [OF assms c] acknowledgements_exchanged [OF assms]]
  obtain l where l: "(link_step env)\<^sup>*\<^sup>* ?l l" "linked va vb ?wa ?wb [] [] l"
    unfolding leads_def by blast
  have v: "shows_view (lk_a l) va ?wa" "shows_view (lk_b l) vb ?wb" "lk_ab l = []" "lk_ba l = []"
    using l(2) by (simp_all add: linked_def)
  have "handshake_messages \<subseteq> vw_exchanged ?wa" "handshake_messages \<subseteq> vw_exchanged ?wb"
    by (simp_all add: handshake_messages_def)
  note connected = fully_connected_view [OF v(1) this(1)] fully_connected_view [OF v(2) this(2)]
  show ?thesis
    using a(1) b(1) l(1) v(3,4) connected by auto
qed

definition example_version :: "64 word \<Rightarrow> version_payload" where
  "example_version nonce = version_payload_new\<lparr>vp_protocol_version := 170002, vp_nonce := nonce\<rparr>"

theorem handshake_completes_witness:
  "\<exists>a b l. node_start idle_env 0 (node_new kOutbound False (example_version 1) 0) = Some (True, a) \<and>
    node_start idle_env 0 (node_new kInbound False (example_version 2) 0) = Some (True, b) \<and>
    (link_step idle_env)\<^sup>*\<^sup>* \<lparr>lk_a = a, lk_b = b, lk_ab = [], lk_ba = []\<rparr> l \<and> fully_connected (lk_a l) \<and> fully_connected (lk_b l)"
proof -
  have "version_payload_ok (example_version k)" "length (vp_user_agent (example_version k)) \<le> 256"
    "sint (vp_protocol_version (example_version k)) = kDefaultProtocolVersion" "vp_nonce (example_version k) = k" for k
    by (simp_all add: example_version_def version_payload_ok_def version_members_ok_def version_payload_new_def node_service_new_def
      ip_endpoint_new_def address_ok_def kDefaultProtocolVersion_def)
  then have "compatible (example_version 1) (example_version 2)"
    by (simp add: compatible_def version_sendable)
  from handshake_completes [OF example_node(1) this, of 0] show ?thesis by blast
qed

end
