(* ===== verification/Node_Life.thy ===== *)
theory Node_Life
  imports Node
begin

text \<open>
  The life of a node (node/network/node.cpp): every run of its handlers keeps the relation between the state of the
  component, the socket and the completion of a stop, so that the node hub hears of a disconnection exactly once.
\<close>

section \<open>Frames\<close>

definition life :: "node \<Rightarrow> connection_type \<times> component_status \<times> bool \<times> nat \<times> nat" where
  "life n = (nd_connection_type n, nd_state n, nd_socket_open n, nd_disconnected n, count_list (nd_tasks n) OnStopCompleted)"

named_theorems life_simps

lemma life_post [life_simps]: "t \<noteq> OnStopCompleted \<Longrightarrow> life (post t n) = life n"
  by (simp add: life_def post_def)

lemma life_update [life_simps]:
  "life (n\<lparr>nd_handshake := a\<rparr>) = life n" "life (n\<lparr>nd_version := v\<rparr>) = life n" "life (n\<lparr>nd_remote_version := rv\<rparr>) = life n"
  "life (n\<lparr>nd_last_message_received_time := t\<rparr>) = life n" "life (n\<lparr>nd_last_message_sent_time := t\<rparr>) = life n"
  "life (n\<lparr>nd_inbound_message_start_time := ot\<rparr>) = life n" "life (n\<lparr>nd_outbound_message_start_time := ot\<rparr>) = life n"
  "life (n\<lparr>nd_inbound_message := om\<rparr>) = life n" "life (n\<lparr>nd_is_writing := b\<rparr>) = life n" "life (n\<lparr>nd_outbound_messages_queue := q\<rparr>) = life n"
  "life (n\<lparr>nd_outbound_message := om\<rparr>) = life n" "life (n\<lparr>nd_send_buffer := bs\<rparr>) = life n" "life (n\<lparr>nd_inbound_metrics := im\<rparr>) = life n"
  "life (n\<lparr>nd_outbound_metrics := im\<rparr>) = life n" "life (n\<lparr>nd_ping_meter := pm\<rparr>) = life n" "life (n\<lparr>nd_traffic_meter := tm\<rparr>) = life n"
  "life (n\<lparr>nd_ping_timer := b\<rparr>) = life n" "life (n\<lparr>nd_reading := b\<rparr>) = life n" "life (n\<lparr>nd_write_pending := b\<rparr>) = life n"
  "life (n\<lparr>nd_delivered := ds\<rparr>) = life n"
  by (simp_all add: life_def)

lemma life_validate: "validate_message_for_protocol_handshake d t n = (r, n') \<Longrightarrow> life n' = life n"
  by (auto simp: validate_message_for_protocol_handshake_def Let_def life_simps split: if_splits)

lemma life_push: "push_message env p pr n = Some (r, n') \<Longrightarrow> life n' = life n"
  by (auto simp: push_message_def life_simps split: option.splits prod.splits)

lemma life_push_type: "push_message_type env t pr n = Some (r, n') \<Longrightarrow> life n' = life n"
  by (auto simp: push_message_type_def split: option.splits dest: life_push)

lemma life_retire [life_simps]: "life (retire_message now n) = life n"
  by (simp add: retire_message_def Let_def life_simps split: option.split)

lemma life_begin: "begin_message now m n = (r, n') \<Longrightarrow> life n' = life n"
  by (auto simp: begin_message_def Let_def life_simps split: if_splits prod.splits option.splits dest: life_validate)

lemma life_write_piece: "write_piece now m n = Some n' \<Longrightarrow> life n' = life n"
  by (auto simp: write_piece_def life_simps split: prod.splits option.splits outcome.splits dest: life_begin)

lemma life_start_write: "start_write now pick n = Some n' \<Longrightarrow> life n' = life n"
  by (auto simp: start_write_def Let_def life_simps split: if_splits option.splits dest!: life_write_piece)

lemma life_handle_write [life_simps]: "life (handle_write failed k n) = life n"
  by (simp add: handle_write_def Let_def life_simps)

lemma life_process_version: "process_version env v n = Some (r, q, n') \<Longrightarrow> life n' = life n"
  by (auto simp: process_version_def Let_def life_simps split: if_splits Option.bind_splits prod.splits dest!: life_push life_push_type)

lemma life_process_pong: "process_pong now nonce n = Some (r, n') \<Longrightarrow> life n' = life n"
  by (auto simp: process_pong_def life_simps split: option.splits if_splits)

lemma life_dispatch: "dispatch_message env now p n = Some (r, q, n') \<Longrightarrow> life n' = life n"
  by (cases p) (auto simp: dispatch_message_def split: if_splits option.splits dest: life_process_version life_process_pong life_push)

lemma life_process: "process_inbound_message env now p n = Some (r, n') \<Longrightarrow> life n' = life n"
  by (auto simp: process_inbound_message_def deliver_def Let_def life_simps split: option.splits prod.splits if_splits dest!: life_dispatch)

lemma life_receive: "receive_message env now m k n = Some (r, k', n') \<Longrightarrow> life n' = life n"
  unfolding receive_message_def Let_def reset_inbound_def
  by (auto simp: life_simps split: prod.splits option.splits if_splits dest!: life_validate life_process)

lemma life_parse_step: "parse_step env now data k n = Some (Some (r, data', k', n')) \<Longrightarrow> life n' = life n"
  unfolding parse_step_def Let_def
  by (auto simp: life_simps split: option.splits prod.splits dest!: life_receive)

lemma life_parse_loop_res:
  assumes "parse_loop env now data k n = Some res"
  shows "\<forall>r n'. res = Some (r, n') \<longrightarrow> life n' = life n"
proof (rule parse_loop.raw_induct [where P = "\<lambda>env now data k n res. \<forall>r n'. res = Some (r, n') \<longrightarrow> life n' = life n", OF _ assms], intro allI impI)
  fix loop :: "node_env \<Rightarrow> int \<Rightarrow> bytes \<Rightarrow> nat \<Rightarrow> node \<Rightarrow> (error_code status \<times> node) option option"
    and env now data k n res r n'
  assume IH: "\<And>env now data k n res. loop env now data k n = Some res \<Longrightarrow> \<forall>r n'. res = Some (r, n') \<longrightarrow> life n' = life n"
    and body: "(if data = [] then Some (Some (None, n))
      else (case parse_step env now data k n of None \<Rightarrow> None | Some None \<Rightarrow> Some None
        | Some (Some (r, data, k, n)) \<Rightarrow> if r = None \<or> is_incomplete r then loop env now data k n else Some (Some (r, reset_inbound n)))) = Some res"
    and res: "res = Some (r, n')"
  show "life n' = life n"
  proof (cases "data = []")
    case True
    with res body show ?thesis by auto
  next
    case False
    then obtain r1 d1 k1 n1 where s: "parse_step env now data k n = Some (Some (r1, d1, k1, n1))"
      using res body by (auto split: option.splits)
    note l = life_parse_step [OF s]
    show ?thesis
    proof (cases "r1 = None \<or> is_incomplete r1")
      case True
      with body s False have "loop env now d1 k1 n1 = Some res" by auto
      from IH [OF this] res l show ?thesis by simp
    next
      case stop: False
      with body res s False have "n' = reset_inbound n1" by auto
      with l show ?thesis by (simp add: reset_inbound_def life_simps)
    qed
  qed
qed

lemma life_parse_loop: "parse_loop env now data k n = Some (Some (r, n')) \<Longrightarrow> life n' = life n"
  using life_parse_loop_res by blast

lemma life_handle_read: "handle_read env now failed data n = Some (Some n') \<Longrightarrow> life n' = life n"
  by (auto simp: handle_read_def parse_messages_def Let_def life_simps split: if_splits option.splits prod.splits dest!: life_parse_loop)

lemma life_present: "present_itself env n = Some n' \<Longrightarrow> life n' = life n"
  by (auto simp: present_itself_def split: if_splits dest: life_push)

lemma life_ssl: "handle_ssl_handshake env failed n = Some n' \<Longrightarrow> life n' = life n"
  by (auto simp: handle_ssl_handshake_def start_read_def life_simps split: if_splits dest!: life_present)

section \<open>The life of a node\<close>

text \<open>A running node has not been disconnected and no completion of a stop is posted; a node that is stopping has exactly one;
  a stopped node has told the hub once, and its socket is closed.\<close>

definition life_ok :: "connection_type \<times> component_status \<times> bool \<times> nat \<times> nat \<Rightarrow> bool" where
  "life_ok l = (case l of (type, state, opened, disconnected, posted) \<Rightarrow>
    (case state of kStarted \<Rightarrow> opened \<and> disconnected = 0 \<and> posted = 0
     | kStopping \<Rightarrow> opened \<and> disconnected = 0 \<and> posted = 1
     | kNotStarted \<Rightarrow> \<not> opened \<and> disconnected = 1 \<and> posted = 0))"

lemma life_start:
  assumes "node_start env now (node_new type secure v now) = Some (r, n)"
  shows "life n = (type, kStarted, True, 0, 0)"
proof -
  define m where "m = (node_new type secure v now)\<lparr>nd_state := kStarted, nd_last_message_received_time := now, nd_last_message_sent_time := now, nd_connected_time := now\<rparr>"
  have "life m = (type, kStarted, True, 0, 0)" by (simp add: m_def node_new_def life_def)
  moreover from assms have "n = post StartSslHandshake m \<or> present_itself env (post StartRead m) = Some n"
    by (auto simp: node_start_def stoppable_start_def node_new_def m_def Let_def split: if_splits)
  then have "life n = life m" by (auto simp: life_simps dest: life_present)
  ultimately show ?thesis by simp
qed

lemma life_stop: "life_ok (life n) \<Longrightarrow> life_ok (life (snd (node_stop n)))"
  by (auto simp: life_ok_def life_def node_stop_def stoppable_stop_def post_def Let_def split: component_status.splits)

lemma life_ping:
  assumes "on_ping_timer_expired env nonce ms interval n = Some (i, n')" "life_ok (life n)"
  shows "life_ok (life n')"
proof -
  have p: "life_ok (life m) \<and> life_ok (life (snd (node_stop m)))" if "push_message env p pr n = Some (r, m)" for p pr r m
    using life_push [OF that] assms(2) life_stop [of m] by simp
  show ?thesis
    using assms by (auto simp: on_ping_timer_expired_def life_simps split: if_splits Option.bind_splits dest!: p)
qed

lemma life_completed:
  assumes "on_handshake_completed env nonce ms n = Some n'" "life_ok (life n)"
  shows "life_ok (life n')"
  using assms life_ping [OF _ assms(2)]
  by (auto simp: on_handshake_completed_def Let_def life_simps split: if_splits Option.bind_splits dest!: life_push_type)

lemma life_run_next:
  assumes "run_next env ch n = Some n'" "life_ok (life n)"
  shows "life_ok (life n')"
proof (cases "nd_tasks n")
  case Nil
  with assms show ?thesis by (simp add: run_next_def)
next
  case (Cons t ts)
  let ?m = "n\<lparr>nd_tasks := ts\<rparr>"
  have r: "run_task env ch t ?m = Some n'" using assms(1) Cons by (simp add: run_next_def)
  show ?thesis
  proof (cases "t = OnStopCompleted")
    case True
    with r Cons assms(2) show ?thesis
      by (auto simp: run_task_def on_stop_completed_def set_stopped_def life_def life_ok_def split: component_status.splits)
  next
    case False
    then have "life ?m = life n" using Cons by (simp add: life_def)
    with assms(2) have m: "life_ok (life ?m)" by simp
    show ?thesis
      using r m False life_stop [OF m] life_completed [OF _ m]
      by (cases t) (auto simp: run_task_def start_read_def life_simps dest!: life_start_write)
  qed
qed

lemma life_step: "node_step env n n' \<Longrightarrow> life_ok (life n) \<Longrightarrow> life_ok (life n')"
proof (induction rule: node_step.induct)
  case (task ch n n')
  then show ?case by (blast intro: life_run_next)
next
  case (ping n nonce ms interval i n')
  then show ?case by (blast intro: life_ping)
next
  case (stop n r n')
  then show ?case using life_stop [of n] by simp
qed (auto simp: life_simps dest: life_handle_read life_ssl life_push)

text \<open>No step changes the kind of the connection or takes back a disconnection.\<close>

definition onward :: "node \<Rightarrow> node \<Rightarrow> bool" where
  "onward n n' = (nd_connection_type n' = nd_connection_type n \<and> nd_disconnected n \<le> nd_disconnected n')"

lemma onward_life: "life n' = life n \<Longrightarrow> onward n n'"
  by (simp add: onward_def life_def)

lemma onward_trans: "onward a b \<Longrightarrow> onward b c \<Longrightarrow> onward a c"
  by (simp add: onward_def)

lemma onward_refl [simp]: "onward n n" "onward n (start_read n)" "onward n (on_stop_completed n)"
  by (simp_all add: onward_def start_read_def on_stop_completed_def)

lemma onward_stop: "onward n (snd (node_stop n))"
  by (simp add: onward_def node_stop_def post_def Let_def split: prod.split)

lemma onward_ping:
  assumes "on_ping_timer_expired env nonce ms interval n = Some (i, n')"
  shows "onward n n'"
proof -
  have p: "onward n m \<and> onward n (snd (node_stop m))" if "push_message env p pr n = Some (r, m)" for p pr r m
    using onward_life [OF life_push [OF that]] onward_trans [OF _ onward_stop] by blast
  have "onward n m \<Longrightarrow> onward n (m\<lparr>nd_ping_meter := pm\<rparr>)" for m pm by (simp add: onward_def)
  then show ?thesis
    using assms by (auto simp: on_ping_timer_expired_def split: if_splits Option.bind_splits dest!: p)
qed

lemma onward_completed:
  assumes "on_handshake_completed env nonce ms n = Some n'"
  shows "onward n n'"
proof (cases "is_running (nd_state n)")
  case False
  with assms show ?thesis by (simp add: on_handshake_completed_def onward_def)
next
  case True
  with assms obtain i m where p: "on_ping_timer_expired env nonce ms ms n = Some (i, m)"
    and m: "n' = m\<lparr>nd_ping_timer := True\<rparr> \<or> (\<exists>r. push_message_type env kGetAddr kNormal (m\<lparr>nd_ping_timer := True\<rparr>) = Some (r, n'))"
    by (auto simp: on_handshake_completed_def Let_def split: if_splits Option.bind_splits)
  have "onward n (m\<lparr>nd_ping_timer := True\<rparr>)" using onward_ping [OF p] by (simp add: onward_def)
  with m show ?thesis by (auto intro: onward_trans onward_life life_push_type)
qed

lemma onward_step: "node_step env n n' \<Longrightarrow> onward n n'"
proof (induction rule: node_step.induct)
  case (task ch n n')
  show ?case
  proof (cases "nd_tasks n")
    case Nil
    with task show ?thesis by (simp add: run_next_def onward_def)
  next
    case (Cons t ts)
    have m: "onward n (n\<lparr>nd_tasks := ts\<rparr>)" by (simp add: onward_def)
    have "run_task env ch t (n\<lparr>nd_tasks := ts\<rparr>) = Some n'" using task Cons by (simp add: run_next_def)
    then have "onward (n\<lparr>nd_tasks := ts\<rparr>) n'"
      by (cases t) (auto simp: run_task_def intro: onward_stop onward_completed dest!: life_start_write [THEN onward_life])
    with m show ?thesis by (rule onward_trans)
  qed
next
  case (stop n r n')
  then show ?case using onward_stop [of n] by simp
qed (auto simp: life_simps intro: onward_life onward_ping dest: life_handle_read life_ssl life_push)

section \<open>Properties\<close>

text \<open>C19. Whatever a node does after it was started, whatever its peer sends and whatever fails, the hub is told of its
  disconnection at most once, and exactly when the node has stopped and its socket is closed; a request to stop is completed by
  exactly one posted handler.\<close>

theorem disconnected_once:
  assumes "node_reachable env n"
  shows "nd_disconnected n = (if nd_state n = kNotStarted then 1 else 0) \<and> (nd_socket_open n \<longleftrightarrow> nd_state n \<noteq> kNotStarted) \<and>
    count_list (nd_tasks n) OnStopCompleted = (if nd_state n = kStopping then 1 else 0)"
proof -
  have "life_ok (life n)"
    using assms
  proof induction
    case (start now type secure v r n)
    then show ?case by (simp add: life_start life_ok_def)
  next
    case (step n n')
    then show ?case by (blast intro: life_step)
  qed
  then show ?thesis by (auto simp: life_ok_def life_def split: component_status.splits)
qed

text \<open>An inbound node that is stopped and whose stop is completed.\<close>

theorem disconnected_once_witness:
  "\<exists>env n. node_reachable env n \<and> nd_state n = kNotStarted \<and> nd_disconnected n = 1"
proof -
  define env where "env = \<lparr>nev_sha256 = \<lambda>_. None, nev_magic = [], nev_ping_timeout_milliseconds = 0, nev_handshake_timeout_seconds = 0,
    nev_inbound_timeout_seconds = 0, nev_outbound_timeout_seconds = 0, nev_idle_timeout_seconds = 0\<rparr>"
  let ?ch = "\<lparr>ch_now = 0, ch_pick = 0, ch_nonce = 0, ch_interval = 0\<rparr>"
  define a where "a = snd (the (node_start env 0 (node_new kInbound False version_payload_new 0)))"
  define b where "b = snd (node_stop a)"
  define c where "c = the (run_next env ?ch b)"
  define d where "d = the (run_next env ?ch c)"
  have "node_reachable env a"
    by (rule node_reachable.start [of env 0 kInbound False version_payload_new True])
      (simp add: a_def node_start_def stoppable_start_def node_new_def present_itself_def post_def)
  then have "node_reachable env b"
    by (rule node_reachable.step) (rule node_step.stop [of _ True], simp add: b_def a_def node_start_def stoppable_start_def node_new_def present_itself_def
        post_def node_stop_def stoppable_stop_def Let_def)
  then have "node_reachable env c"
    by (rule node_reachable.step) (rule node_step.task [of _ ?ch], simp add: c_def b_def a_def node_start_def stoppable_start_def node_new_def present_itself_def
        post_def node_stop_def stoppable_stop_def run_next_def run_task_def Let_def)
  then have "node_reachable env d"
    by (rule node_reachable.step) (rule node_step.task [of _ ?ch], simp add: d_def c_def b_def a_def node_start_def stoppable_start_def node_new_def present_itself_def
        post_def node_stop_def stoppable_stop_def run_next_def run_task_def start_read_def Let_def)
  moreover have "nd_state d = kNotStarted"
    by (simp add: d_def c_def b_def a_def node_start_def stoppable_start_def node_new_def present_itself_def
        post_def node_stop_def stoppable_stop_def run_next_def run_task_def start_read_def on_stop_completed_def set_stopped_def Let_def)
  ultimately show ?thesis using disconnected_once [of env d] by auto
qed

end
