(* ===== verification/Endpoint_Text.thy ===== *)
theory Endpoint_Text
  imports Addresses Amounts
begin

text \<open>
  The texts of addresses and endpoints (infra/network/addresses.cpp): \<open>IPAddress::from_string\<close>, \<open>IPEndpoint::from_string\<close> and
  the conversions to text. The three patterns are regular expressions of the standard library, matched here by greedy
  alternatives in the order of the search of \<open>std::regex_match\<close>. The conversions of boost between addresses and their texts
  are parameters.
\<close>

section \<open>Regular expressions\<close>

text \<open>The forms that the patterns use: a greedy repetition of a character class, concatenation, a numbered group and an optional
  part.\<close>

datatype regex = Class "char \<Rightarrow> bool" nat "nat option" | Cat regex regex | Group nat regex | Maybe regex

definition repetitions :: "(char \<Rightarrow> bool) \<Rightarrow> nat \<Rightarrow> nat option \<Rightarrow> string \<Rightarrow> nat list" where
  "repetitions p least greatest s =
    (let k = length (takeWhile p s) in rev [least..<Suc (case greatest of None \<Rightarrow> k | Some g \<Rightarrow> min g k)])"

text \<open>The ways to match a prefix, in the order of the search: the text that is matched, the rest and the groups.\<close>

primrec matches :: "regex \<Rightarrow> string \<Rightarrow> (string \<times> string \<times> (nat \<times> string) list) list" where
  "matches (Class p least greatest) s = map (\<lambda>k. (take k s, drop k s, [])) (repetitions p least greatest s)"
| "matches (Cat r q) s =
    concat (map (\<lambda>(a, b, gs). map (\<lambda>(c, d, hs). (a @ c, d, gs @ hs)) (matches q b)) (matches r s))"
| "matches (Group n r) s = map (\<lambda>(a, b, gs). (a, b, (n, a) # gs)) (matches r s)"
| "matches (Maybe r) s = matches r s @ [([], s, [])]"

definition regex_match :: "regex \<Rightarrow> string \<Rightarrow> (nat \<times> string) list option" where
  "regex_match r s = map_option (\<lambda>(a, b, gs). gs) (find (\<lambda>(a, b, gs). b = []) (matches r s))"

section \<open>The patterns\<close>

definition one :: "char \<Rightarrow> regex" where "one c = Class (\<lambda>d. d = c) 1 (Some 1)"

definition dotted :: regex where
  "dotted =
    (let number = Class is_decimal 1 (Some 3); dot = one CHR ''.''
     in Cat number (Cat dot (Cat number (Cat dot (Cat number (Cat dot number))))))"

definition port_suffix :: "nat \<Rightarrow> regex" where
  "port_suffix n = Maybe (Cat (one CHR '':'') (Group n (Class is_decimal 1 None)))"

definition hex_or_colon :: "char \<Rightarrow> bool" where
  "hex_or_colon c = (is_decimal c \<or> c \<in> set ''abcdefABCDEF:'')"

text \<open>The literal \<open>::ffff:\<close>, whatever the case of its letters.\<close>

definition mapped_prefix :: regex where
  "mapped_prefix =
    Cat (Class (\<lambda>c. c = CHR '':'') 2 (Some 2)) (Cat (Class (\<lambda>c. c = CHR ''f'' \<or> c = CHR ''F'') 4 (Some 4)) (one CHR '':''))"

definition kIPv4Pattern :: regex where
  "kIPv4Pattern = Cat (Group 1 dotted) (port_suffix 2)"

definition kIPv6Pattern :: regex where
  "kIPv6Pattern = Cat (Maybe (one CHR ''['')) (Cat (Group 1 (Class hex_or_colon 1 None)) (Cat (Maybe (one CHR '']'')) (port_suffix 2)))"

definition kIPv6IPv4Pattern :: regex where
  "kIPv6IPv4Pattern =
    Cat (Maybe (one CHR ''['')) (Cat (Group 1 (Cat mapped_prefix (Group 2 dotted))) (Cat (Maybe (one CHR '']'')) (port_suffix 3)))"

section \<open>Texts\<close>

text \<open>What boost provides; \<open>None\<close> is an exception.\<close>

record boost_text =
  bt_make_v4 :: "string \<Rightarrow> 32 word option"
  bt_make_v6 :: "string \<Rightarrow> 128 word option"
  bt_v6_to_v4 :: "128 word \<Rightarrow> 32 word option"
  bt_lexical_cast :: "string \<Rightarrow> 64 word option"
  bt_v4_to_string :: "32 word \<Rightarrow> string"
  bt_v6_to_string :: "128 word \<Rightarrow> string"

definition group :: "nat \<Rightarrow> (nat \<times> string) list \<Rightarrow> string" where
  "group n gs = (case map_of gs n of None \<Rightarrow> [] | Some t \<Rightarrow> t)"

definition address_from_string :: "boost_text \<Rightarrow> string \<Rightarrow> (error_code, ip_address) outcome" where
  "address_from_string bt input =
    (let or_bad = (\<lambda>a. case a of None \<Rightarrow> Failure (Errc bad_address) | Some a \<Rightarrow> Success a)
     in if input = [] then Success (V4 0)
        else
         (case regex_match kIPv6IPv4Pattern input of
           Some gs \<Rightarrow> or_bad (map_option V4 (Option.bind (bt_make_v6 bt (group 1 gs)) (bt_v6_to_v4 bt)))
         | None \<Rightarrow>
             (case regex_match kIPv6Pattern input of
               Some gs \<Rightarrow> or_bad (map_option V6 (bt_make_v6 bt (group 1 gs)))
             | None \<Rightarrow>
                 (case regex_match kIPv4Pattern input of
                   Some gs \<Rightarrow> or_bad (map_option V4 (bt_make_v4 bt (group 1 gs)))
                 | None \<Rightarrow> Failure (Errc bad_address)))))"

text \<open>The groups of the address and of the port in the pattern that matches.\<close>

definition endpoint_groups :: "string \<Rightarrow> (string \<times> string option) option" where
  "endpoint_groups input =
    (case regex_match kIPv6IPv4Pattern input of
      Some gs \<Rightarrow> Some (group 1 gs, map_of gs 4)
    | None \<Rightarrow>
        (case regex_match kIPv4Pattern input of
          Some gs \<Rightarrow> Some (group 1 gs, map_of gs 2)
        | None \<Rightarrow>
            (case regex_match kIPv6Pattern input of
              Some gs \<Rightarrow> Some (group 1 gs, map_of gs 2)
            | None \<Rightarrow> None)))"

definition endpoint_from_string :: "boost_text \<Rightarrow> string \<Rightarrow> (error_code, ip_endpoint) outcome" where
  "endpoint_from_string bt input =
    (if input = [] then Success ip_endpoint_new
     else
      (case endpoint_groups input of
        None \<Rightarrow> Failure (Errc invalid_argument)
      | Some (address_text, port_text) \<Rightarrow>
          (case address_from_string bt address_text of
            Failure e \<Rightarrow> Failure e
          | Success a \<Rightarrow>
              (case port_text of
                None \<Rightarrow> Success \<lparr>ep_address = a, ep_port = 0\<rparr>
              | Some t \<Rightarrow>
                  (case bt_lexical_cast bt t of
                    None \<Rightarrow> Failure (Errc invalid_argument)
                  | Some port \<Rightarrow>
                      if port \<ge> 0xFFFF then Failure (Errc value_too_large)
                      else Success \<lparr>ep_address = a, ep_port = ucast port\<rparr>)))))"

definition address_to_string :: "boost_text \<Rightarrow> ip_address \<Rightarrow> string" where
  "address_to_string bt a = (case a of V6 w \<Rightarrow> ''['' @ bt_v6_to_string bt w @ '']'' | V4 w \<Rightarrow> bt_v4_to_string bt w)"

definition endpoint_to_string :: "boost_text \<Rightarrow> ip_endpoint \<Rightarrow> string" where
  "endpoint_to_string bt e = address_to_string bt (ep_address e) @ '':'' @ show_nat (unat (ep_port e))"

section \<open>What a pattern matches\<close>

lemma take_while_prefix: "list_all p a \<Longrightarrow> length a \<le> length (takeWhile p (a @ b))"
  by (induction a) auto

lemma take_within_while: "k \<le> length (takeWhile p s) \<Longrightarrow> list_all p (take k s)"
proof (induction s arbitrary: k)
  case (Cons c s)
  then show ?case by (cases k) (auto split: if_splits)
qed simp

lemma in_matches_class:
  "(a, b, gs) \<in> set (matches (Class p least greatest) s) \<longleftrightarrow>
    gs = [] \<and> s = a @ b \<and> list_all p a \<and> least \<le> length a \<and> (case greatest of None \<Rightarrow> True | Some g \<Rightarrow> length a \<le> g)"
proof
  assume "(a, b, gs) \<in> set (matches (Class p least greatest) s)"
  then obtain k where k: "a = take k s" "b = drop k s" "gs = []" "least \<le> k" "k \<le> length (takeWhile p s)"
      "case greatest of None \<Rightarrow> True | Some g \<Rightarrow> k \<le> g"
    by (auto simp: repetitions_def Let_def less_Suc_eq_le split: option.splits)
  have "length a = k" using k(1,5) length_takeWhile_le [of p s] by simp
  with k take_within_while [OF k(5)]
  show "gs = [] \<and> s = a @ b \<and> list_all p a \<and> least \<le> length a \<and> (case greatest of None \<Rightarrow> True | Some g \<Rightarrow> length a \<le> g)"
    by (cases greatest) simp_all
next
  assume r: "gs = [] \<and> s = a @ b \<and> list_all p a \<and> least \<le> length a \<and> (case greatest of None \<Rightarrow> True | Some g \<Rightarrow> length a \<le> g)"
  then have "length a \<in> set (repetitions p least greatest s)"
    using take_while_prefix [of p a b] by (auto simp: repetitions_def Let_def less_Suc_eq_le split: option.splits)
  with r show "(a, b, gs) \<in> set (matches (Class p least greatest) s)"
    by (auto simp: image_iff intro!: bexI [of _ "length a"])
qed

lemma in_matches_cat:
  "(a, b, gs) \<in> set (matches (Cat r q) s) \<longleftrightarrow>
    (\<exists>c d hs e ks. (c, d, hs) \<in> set (matches r s) \<and> (e, b, ks) \<in> set (matches q d) \<and> a = c @ e \<and> gs = hs @ ks)"
  by (force simp: split_beta image_iff)

lemma in_matches_group:
  "(a, b, gs) \<in> set (matches (Group n r) s) \<longleftrightarrow> (\<exists>hs. (a, b, hs) \<in> set (matches r s) \<and> gs = (n, a) # hs)"
  by (force simp: image_iff)

lemma in_matches_maybe:
  "(a, b, gs) \<in> set (matches (Maybe r) s) \<longleftrightarrow> (a, b, gs) \<in> set (matches r s) \<or> (a = [] \<and> b = s \<and> gs = [])"
  by auto

lemmas in_matches = in_matches_class in_matches_cat in_matches_group in_matches_maybe

declare matches.simps [simp del]

definition matches_whole :: "regex \<Rightarrow> string \<Rightarrow> (nat \<times> string) list \<Rightarrow> bool" where
  "matches_whole r s gs = (\<exists>a. (a, [], gs) \<in> set (matches r s))"

lemma regex_match_None: "regex_match r s = None \<longleftrightarrow> (\<forall>gs. \<not> matches_whole r s gs)"
  by (auto simp: regex_match_def matches_whole_def find_None_iff)

lemma regex_match_sound: "regex_match r s = Some gs \<Longrightarrow> matches_whole r s gs"
  by (fastforce simp: regex_match_def matches_whole_def find_Some_iff in_set_conv_nth)

lemma regex_match_unique:
  assumes "matches_whole r s gs" "\<And>hs. matches_whole r s hs \<Longrightarrow> hs = gs"
  shows "regex_match r s = Some gs"
proof (cases "regex_match r s")
  case None
  with assms(1) show ?thesis by (simp add: regex_match_None)
next
  case (Some hs)
  with assms(2) [OF regex_match_sound] show ?thesis by simp
qed

lemma one_matches: "(a, b, gs) \<in> set (matches (one c) s) \<longleftrightarrow> gs = [] \<and> a = [c] \<and> s = c # b"
  by (auto simp: one_def in_matches length_Suc_conv le_Suc_eq)

definition is_number :: "string \<Rightarrow> bool" where
  "is_number t = (list_all is_decimal t \<and> 1 \<le> length t \<and> length t \<le> 3)"

definition is_dotted :: "string \<Rightarrow> bool" where
  "is_dotted t = (\<exists>a b c d. t = a @ CHR ''.'' # b @ CHR ''.'' # c @ CHR ''.'' # d \<and> is_number a \<and> is_number b \<and> is_number c \<and> is_number d)"

lemma number_matches: "(a, b, gs) \<in> set (matches (Class is_decimal 1 (Some 3)) s) \<longleftrightarrow> gs = [] \<and> s = a @ b \<and> is_number a"
  by (auto simp: in_matches is_number_def)

lemma one_cat_matches:
  "(a, b, gs) \<in> set (matches (Cat (one c) q) s) \<longleftrightarrow> (\<exists>t e. s = c # t \<and> a = c # e \<and> (e, b, gs) \<in> set (matches q t))"
proof
  assume "(a, b, gs) \<in> set (matches (Cat (one c) q) s)"
  then show "\<exists>t e. s = c # t \<and> a = c # e \<and> (e, b, gs) \<in> set (matches q t)"
    unfolding in_matches_cat one_matches by (elim exE conjE) auto
next
  assume "\<exists>t e. s = c # t \<and> a = c # e \<and> (e, b, gs) \<in> set (matches q t)"
  then obtain t e where "s = c # t" "a = c # e" "(e, b, gs) \<in> set (matches q t)" by blast
  then show "(a, b, gs) \<in> set (matches (Cat (one c) q) s)"
    unfolding in_matches_cat one_matches by (intro exI [of _ "[c]"] exI [of _ t] exI [of _ "[]"] exI [of _ e] exI [of _ gs]) simp
qed

lemma number_dot_matches:
  "(a, b, gs) \<in> set (matches (Cat (Class is_decimal 1 (Some 3)) (Cat (one c) q)) s) \<longleftrightarrow>
    (\<exists>n t e. s = n @ c # t \<and> is_number n \<and> (e, b, gs) \<in> set (matches q t) \<and> a = n @ c # e)"
proof
  assume "(a, b, gs) \<in> set (matches (Cat (Class is_decimal 1 (Some 3)) (Cat (one c) q)) s)"
  then show "\<exists>n t e. s = n @ c # t \<and> is_number n \<and> (e, b, gs) \<in> set (matches q t) \<and> a = n @ c # e"
    unfolding in_matches_cat number_matches one_matches by (elim exE conjE) auto
next
  assume "\<exists>n t e. s = n @ c # t \<and> is_number n \<and> (e, b, gs) \<in> set (matches q t) \<and> a = n @ c # e"
  then obtain n t e where n: "s = n @ c # t" "is_number n" "(e, b, gs) \<in> set (matches q t)" "a = n @ c # e" by blast
  have "(c # e, b, gs) \<in> set (matches (Cat (one c) q) (c # t))"
    unfolding in_matches_cat one_matches using n(3) by (intro exI [of _ "[c]"] exI [of _ t] exI [of _ "[]"] exI [of _ e] exI [of _ gs]) simp
  then show "(a, b, gs) \<in> set (matches (Cat (Class is_decimal 1 (Some 3)) (Cat (one c) q)) s)"
    unfolding in_matches_cat [of _ _ _ "Class is_decimal 1 (Some 3)"] number_matches
    using n by (intro exI [of _ n] exI [of _ "c # t"] exI [of _ "[]"] exI [of _ "c # e"] exI [of _ gs]) simp
qed

lemma dotted_matches: "(a, b, gs) \<in> set (matches dotted s) \<longleftrightarrow> gs = [] \<and> s = a @ b \<and> is_dotted a"
proof
  assume "(a, b, gs) \<in> set (matches dotted s)"
  then obtain n1 t1 e1 where 1: "s = n1 @ CHR ''.'' # t1" "is_number n1" "a = n1 @ CHR ''.'' # e1"
      "(e1, b, gs) \<in> set (matches (Cat (Class is_decimal 1 (Some 3)) (Cat (one CHR ''.'') (Cat (Class is_decimal 1 (Some 3)) (Cat (one CHR ''.'') (Class is_decimal 1 (Some 3)))))) t1)"
    unfolding dotted_def Let_def number_dot_matches [of a] by blast
  then obtain n2 t2 e2 where 2: "t1 = n2 @ CHR ''.'' # t2" "is_number n2" "e1 = n2 @ CHR ''.'' # e2"
      "(e2, b, gs) \<in> set (matches (Cat (Class is_decimal 1 (Some 3)) (Cat (one CHR ''.'') (Class is_decimal 1 (Some 3)))) t2)"
    unfolding number_dot_matches [of e1] by blast
  then obtain n3 n4 where "t2 = n3 @ CHR ''.'' # n4 @ b" "is_number n3" "e2 = n3 @ CHR ''.'' # n4" "is_number n4" "gs = []"
    unfolding number_dot_matches number_matches by blast
  with 1 2 have "gs = []" "s = n1 @ CHR ''.'' # n2 @ CHR ''.'' # n3 @ CHR ''.'' # n4 @ b"
      "a = n1 @ CHR ''.'' # n2 @ CHR ''.'' # n3 @ CHR ''.'' # n4" "is_number n1" "is_number n2" "is_number n3" "is_number n4"
    by simp_all
  then show "gs = [] \<and> s = a @ b \<and> is_dotted a"
    unfolding is_dotted_def by (intro conjI exI [of _ n1] exI [of _ n2] exI [of _ n3] exI [of _ n4]) simp_all
next
  assume "gs = [] \<and> s = a @ b \<and> is_dotted a"
  then obtain n1 n2 n3 n4 where n: "gs = []" "s = a @ b" "a = n1 @ CHR ''.'' # n2 @ CHR ''.'' # n3 @ CHR ''.'' # n4"
      "is_number n1" "is_number n2" "is_number n3" "is_number n4"
    by (auto simp: is_dotted_def)
  have d: "(n4, b, []) \<in> set (matches (Class is_decimal 1 (Some 3)) (n4 @ b))" unfolding number_matches using n(7) by simp
  have step: "(n @ CHR ''.'' # e, b, []) \<in> set (matches (Cat (Class is_decimal 1 (Some 3)) (Cat (one CHR ''.'') q)) ((n @ CHR ''.'' # e) @ b))"
    if "is_number n" "(e, b, []) \<in> set (matches q (e @ b))" for n e q
    unfolding number_dot_matches using that by (intro exI [of _ n] exI [of _ "e @ b"] exI [of _ e]) simp
  show "(a, b, gs) \<in> set (matches dotted s)"
    using step [OF n(4) step [OF n(5) step [OF n(6) d]]] unfolding dotted_def Let_def n(1,2,3) .
qed

lemma digits_matches: "(a, b, gs) \<in> set (matches (Class p 1 None) s) \<longleftrightarrow> gs = [] \<and> s = a @ b \<and> list_all p a \<and> a \<noteq> []"
  by (simp add: in_matches_class Suc_le_eq conj_ac)

lemma port_matches:
  "(a, b, gs) \<in> set (matches (port_suffix n) s) \<longleftrightarrow>
    (\<exists>t. a = CHR '':'' # t \<and> s = CHR '':'' # t @ b \<and> list_all is_decimal t \<and> t \<noteq> [] \<and> gs = [(n, t)]) \<or> (a = [] \<and> b = s \<and> gs = [])"
  unfolding port_suffix_def in_matches_maybe one_cat_matches in_matches_group digits_matches
  by blast

lemma maybe_one_matches:
  "(a, b, gs) \<in> set (matches (Cat (Maybe (one c)) q) s) \<longleftrightarrow>
    (\<exists>t e. s = c # t \<and> a = c # e \<and> (e, b, gs) \<in> set (matches q t)) \<or> (a, b, gs) \<in> set (matches q s)"
proof -
  have "(a, b, gs) \<in> set (matches (Cat (Maybe (one c)) q) s) \<longleftrightarrow> (a, b, gs) \<in> set (matches (Cat (one c) q) s) \<or> (a, b, gs) \<in> set (matches q s)"
    by (auto simp: matches.simps)
  then show ?thesis by (simp only: one_cat_matches)
qed

lemma group_cat_matches:
  "(a, b, gs) \<in> set (matches (Cat (Group n r) q) s) \<longleftrightarrow>
    (\<exists>g t hs e ks. (g, t, hs) \<in> set (matches r s) \<and> (e, b, ks) \<in> set (matches q t) \<and> a = g @ e \<and> gs = (n, g) # hs @ ks)"
proof
  assume "(a, b, gs) \<in> set (matches (Cat (Group n r) q) s)"
  then show "\<exists>g t hs e ks. (g, t, hs) \<in> set (matches r s) \<and> (e, b, ks) \<in> set (matches q t) \<and> a = g @ e \<and> gs = (n, g) # hs @ ks"
    unfolding in_matches_cat in_matches_group by (metis append_Cons)
next
  assume "\<exists>g t hs e ks. (g, t, hs) \<in> set (matches r s) \<and> (e, b, ks) \<in> set (matches q t) \<and> a = g @ e \<and> gs = (n, g) # hs @ ks"
  then show "(a, b, gs) \<in> set (matches (Cat (Group n r) q) s)"
    unfolding in_matches_cat in_matches_group by (metis append_Cons)
qed

text \<open>What may follow an address: a bracket, a port, both or nothing.\<close>

definition suffix_groups :: "nat \<Rightarrow> string \<Rightarrow> (nat \<times> string) list \<Rightarrow> bool" where
  "suffix_groups n t ks = ((t = [] \<or> t = '']'') \<and> ks = [] \<or>
    (\<exists>p. (t = CHR '':'' # p \<or> t = CHR '']'' # CHR '':'' # p) \<and> list_all is_decimal p \<and> p \<noteq> [] \<and> ks = [(n, p)]))"

lemma suffix_matches: "(\<exists>e. (e, [], ks) \<in> set (matches (Cat (Maybe (one CHR '']'')) (port_suffix n)) t)) \<longleftrightarrow> suffix_groups n t ks"
  unfolding maybe_one_matches port_matches suffix_groups_def by (intro iffI; elim exE disjE conjE) simp_all

lemma bracket_group_whole:
  "matches_whole (Cat (Maybe (one c)) (Cat (Group m r) q)) s gs \<longleftrightarrow>
    (\<exists>u g t hs ks. (s = c # u \<or> s = u) \<and> (g, t, hs) \<in> set (matches r u) \<and> (\<exists>e. (e, [], ks) \<in> set (matches q t)) \<and> gs = (m, g) # hs @ ks)"
  unfolding matches_whole_def maybe_one_matches group_cat_matches by blast

lemma address_whole:
  "matches_whole (Cat (Maybe (one CHR ''['')) (Cat (Group 1 r) (Cat (Maybe (one CHR '']'')) (port_suffix n)))) s gs \<longleftrightarrow>
    (\<exists>u g t hs ks. (s = CHR ''['' # u \<or> s = u) \<and> (g, t, hs) \<in> set (matches r u) \<and> suffix_groups n t ks \<and> gs = (1, g) # hs @ ks)"
  by (simp only: bracket_group_whole suffix_matches)

lemma v6_whole:
  "matches_whole kIPv6Pattern s gs \<longleftrightarrow>
    (\<exists>u g t ks. (s = CHR ''['' # u \<or> s = u) \<and> u = g @ t \<and> list_all hex_or_colon g \<and> g \<noteq> [] \<and> suffix_groups 2 t ks \<and> gs = (1, g) # ks)"
  unfolding kIPv6Pattern_def address_whole digits_matches by (intro iffI; elim exE conjE) (blast | fastforce)+

definition is_mapped :: "string \<Rightarrow> bool" where
  "is_mapped m = (\<exists>f. m = '':'' @ '':'' @ f @ '':'' \<and> length f = 4 \<and> list_all (\<lambda>c. c = CHR ''f'' \<or> c = CHR ''F'') f)"

lemma two_colons: "list_all (\<lambda>c. c = CHR '':'') a \<and> 2 \<le> length a \<and> length a \<le> 2 \<longleftrightarrow> a = '':'' @ '':''"
  by (auto simp: length_Suc_conv numeral_2_eq_2 le_antisym dest!: le_antisym)

lemma class_cat_matches:
  "(a, b, gs) \<in> set (matches (Cat (Class p k g) q) s) \<longleftrightarrow>
    (\<exists>c t e. s = c @ t \<and> (list_all p c \<and> k \<le> length c \<and> (case g of None \<Rightarrow> True | Some g \<Rightarrow> length c \<le> g)) \<and> (e, b, gs) \<in> set (matches q t) \<and> a = c @ e)"
  (is "?l \<longleftrightarrow> ?r")
proof
  assume ?l
  then show ?r unfolding in_matches_cat in_matches_class by (elim exE conjE) auto
next
  assume ?r
  then obtain c t e where "s = c @ t" "list_all p c" "k \<le> length c" "case g of None \<Rightarrow> True | Some g \<Rightarrow> length c \<le> g" "(e, b, gs) \<in> set (matches q t)" "a = c @ e"
    by blast
  then show ?l
    unfolding in_matches_cat in_matches_class by (intro exI [of _ c] exI [of _ t] exI [of _ "[]"] exI [of _ e] exI [of _ gs]) simp
qed

lemma mapped_matches: "(a, b, gs) \<in> set (matches mapped_prefix s) \<longleftrightarrow> gs = [] \<and> s = a @ b \<and> is_mapped a"
proof
  assume "(a, b, gs) \<in> set (matches mapped_prefix s)"
  then obtain t e where 1: "s = ('':'' @ '':'') @ t" "a = ('':'' @ '':'') @ e"
      "(e, b, gs) \<in> set (matches (Cat (Class (\<lambda>c. c = CHR ''f'' \<or> c = CHR ''F'') 4 (Some 4)) (one CHR '':'')) t)"
    unfolding mapped_prefix_def class_cat_matches [of a] option.case two_colons by blast
  from 1(3) obtain f where "t = f @ CHR '':'' # b" "list_all (\<lambda>c. c = CHR ''f'' \<or> c = CHR ''F'') f" "4 \<le> length f" "length f \<le> 4" "gs = []" "e = f @ '':''"
    unfolding class_cat_matches option.case one_matches by blast
  with 1(1,2) show "gs = [] \<and> s = a @ b \<and> is_mapped a"
    unfolding is_mapped_def by (intro conjI exI [of _ f]) simp_all
next
  assume "gs = [] \<and> s = a @ b \<and> is_mapped a"
  then obtain f where f: "gs = []" "s = a @ b" "a = '':'' @ '':'' @ f @ '':''" "length f = 4" "list_all (\<lambda>c. c = CHR ''f'' \<or> c = CHR ''F'') f"
    unfolding is_mapped_def by blast
  let ?q = "Cat (Class (\<lambda>c. c = CHR ''f'' \<or> c = CHR ''F'') 4 (Some 4)) (one CHR '':'')"
  have "(f @ '':'', b, []) \<in> set (matches ?q (f @ '':'' @ b))"
    unfolding class_cat_matches one_matches option.case
    by (intro exI [of _ f] exI [of _ "'':'' @ b"] exI [of _ "'':''"]) (simp add: f)
  then show "(a, b, gs) \<in> set (matches mapped_prefix s)"
    unfolding mapped_prefix_def class_cat_matches [of a] option.case two_colons
    by (intro exI [of _ "'':'' @ '':''"] exI [of _ "f @ '':'' @ b"] exI [of _ "f @ '':''"]) (simp add: f)
qed

lemma mapped_dotted_matches:
  "(g, t, hs) \<in> set (matches (Cat mapped_prefix (Group 2 dotted)) u) \<longleftrightarrow>
    (\<exists>m d. u = m @ d @ t \<and> is_mapped m \<and> is_dotted d \<and> g = m @ d \<and> hs = [(2, d)])" (is "?l \<longleftrightarrow> ?r")
proof
  assume ?l
  then obtain m d where "u = m @ d @ t" "is_mapped m" "is_dotted d" "g = m @ d" "hs = [(2, d)]"
    unfolding in_matches_cat mapped_matches in_matches_group dotted_matches by auto
  then show ?r by blast
next
  assume ?r
  then obtain m d where "u = m @ d @ t" "is_mapped m" "is_dotted d" "g = m @ d" "hs = [(2, d)]" by blast
  then show ?l
    unfolding in_matches_cat mapped_matches in_matches_group dotted_matches
    by (intro exI [of _ m] exI [of _ "d @ t"] exI [of _ "[]"] exI [of _ d] exI [of _ "[(2, d)]"]) simp
qed

lemma mapped_whole:
  "matches_whole kIPv6IPv4Pattern s gs \<longleftrightarrow>
    (\<exists>u m d t ks. (s = CHR ''['' # u \<or> s = u) \<and> u = m @ d @ t \<and> is_mapped m \<and> is_dotted d \<and> suffix_groups 3 t ks \<and> gs = (1, m @ d) # (2, d) # ks)"
  (is "?l \<longleftrightarrow> ?r")
proof
  assume ?l
  then obtain u g t hs ks where "s = CHR ''['' # u \<or> s = u" "(g, t, hs) \<in> set (matches (Cat mapped_prefix (Group 2 dotted)) u)" "suffix_groups 3 t ks" "gs = (1, g) # hs @ ks"
    unfolding kIPv6IPv4Pattern_def address_whole by blast
  moreover from this(2) obtain m d where "u = m @ d @ t" "is_mapped m" "is_dotted d" "g = m @ d" "hs = [(2, d)]"
    unfolding mapped_dotted_matches by blast
  ultimately show ?r by (intro exI [of _ u] exI [of _ m] exI [of _ d] exI [of _ t] exI [of _ ks]) simp
next
  assume ?r
  then obtain u m d t ks where r: "s = CHR ''['' # u \<or> s = u" "u = m @ d @ t" "is_mapped m" "is_dotted d" "suffix_groups 3 t ks" "gs = (1, m @ d) # (2, d) # ks"
    by blast
  then have "(m @ d, t, [(2, d)]) \<in> set (matches (Cat mapped_prefix (Group 2 dotted)) u)" unfolding mapped_dotted_matches by blast
  with r show ?l
    unfolding kIPv6IPv4Pattern_def address_whole
    by (intro exI [of _ u] exI [of _ "m @ d"] exI [of _ t] exI [of _ "[(2, d)]"] exI [of _ ks]) simp
qed

lemma v4_whole:
  "matches_whole kIPv4Pattern s gs \<longleftrightarrow>
    (\<exists>d t. s = d @ t \<and> is_dotted d \<and>
      (t = [] \<and> gs = [(1, d)] \<or> (\<exists>p. t = CHR '':'' # p \<and> list_all is_decimal p \<and> p \<noteq> [] \<and> gs = [(1, d), (2, p)])))"
  (is "?l \<longleftrightarrow> ?r")
proof
  assume ?l
  then show ?r
    unfolding kIPv4Pattern_def matches_whole_def group_cat_matches dotted_matches port_matches by (elim exE conjE disjE) simp_all
next
  assume ?r
  then obtain d t where r: "s = d @ t" "is_dotted d"
      "t = [] \<and> gs = [(1, d)] \<or> (\<exists>p. t = CHR '':'' # p \<and> list_all is_decimal p \<and> p \<noteq> [] \<and> gs = [(1, d), (2, p)])" by blast
  then obtain ks where "(t, [], ks) \<in> set (matches (port_suffix 2) t)" "gs = (1, d) # ks"
    unfolding port_matches by fastforce
  with r(1,2) show ?l
    unfolding kIPv4Pattern_def matches_whole_def group_cat_matches dotted_matches
    by (intro exI [of _ s] exI [of _ d] exI [of _ t] exI [of _ "[]"] exI [of _ ks]) simp
qed

section \<open>Texts of endpoints\<close>

lemma decimal_chars [simp]:
  "\<not> is_decimal CHR ''.''" "\<not> is_decimal CHR '':''" "\<not> is_decimal CHR ''[''" "\<not> is_decimal CHR '']''" "\<not> is_decimal CHR ''f''" "\<not> is_decimal CHR ''F''"
  by (simp_all add: is_decimal_def)

lemma hex_chars [simp]:
  "\<not> hex_or_colon CHR ''.''" "\<not> hex_or_colon CHR ''[''" "\<not> hex_or_colon CHR '']''" "hex_or_colon CHR '':''"
  by (simp_all add: hex_or_colon_def)

lemma is_dotted_chars:
  assumes "is_dotted d"
  shows "list_all (\<lambda>c. is_decimal c \<or> c = CHR ''.'') d" "CHR ''.'' \<in> set d" "d \<noteq> []" "is_decimal (hd d)"
proof -
  obtain n1 n2 n3 n4 where n: "d = n1 @ CHR ''.'' # n2 @ CHR ''.'' # n3 @ CHR ''.'' # n4" "is_number n1" "is_number n2" "is_number n3" "is_number n4"
    using assms unfolding is_dotted_def by blast
  show "list_all (\<lambda>c. is_decimal c \<or> c = CHR ''.'') d" using n(2-5) unfolding n(1) is_number_def list_all_iff by auto
  show "CHR ''.'' \<in> set d" "d \<noteq> []" by (simp_all add: n)
  show "is_decimal (hd d)" using n by (cases n1) (simp_all add: is_number_def)
qed

lemma split_unique:
  assumes "a @ x # b = c @ x # d" "list_all p a" "list_all p c" "\<not> p x"
  shows "a = c \<and> b = d"
  using assms
proof (induction a arbitrary: c)
  case Nil
  then show ?case by (cases c) auto
next
  case (Cons y a)
  then show ?case by (cases c) auto
qed

lemma suffix_groups_chars: "suffix_groups n t ks \<Longrightarrow> c \<in> set t \<Longrightarrow> is_decimal c \<or> c = CHR '':'' \<or> c = CHR '']''"
  unfolding suffix_groups_def by (elim disjE conjE exE) (auto simp: list_all_iff)

lemma not_mapped: "is_decimal (hd s) \<or> CHR ''.'' \<notin> set s \<Longrightarrow> regex_match kIPv6IPv4Pattern s = None"
  unfolding regex_match_None mapped_whole
proof (intro allI notI, elim exE conjE)
  fix gs u m d t ks
  assume h: "is_decimal (hd s) \<or> CHR ''.'' \<notin> set s" "s = CHR ''['' # u \<or> s = u" "u = m @ d @ t" "is_mapped m" "is_dotted d"
  have "hd m = CHR '':''" "m \<noteq> []" using h(4) unfolding is_mapped_def by auto
  then have "hd s = CHR ''['' \<or> hd s = CHR '':''" "CHR ''.'' \<in> set s"
    using h(2,3) is_dotted_chars(2) [OF h(5)] by auto
  with h(1) show False by auto
qed

lemma not_v4: "CHR ''.'' \<notin> set s \<Longrightarrow> regex_match kIPv4Pattern s = None"
  unfolding regex_match_None v4_whole using is_dotted_chars(2) by fastforce

lemma not_v6:
  assumes "CHR ''.'' \<in> set s"
  shows "regex_match kIPv6Pattern s = None"
  unfolding regex_match_None v6_whole
proof (intro allI notI, elim exE conjE)
  fix gs u g t ks
  assume h: "s = CHR ''['' # u \<or> s = u" "u = g @ t" "list_all hex_or_colon g" "suffix_groups 2 t ks"
  then have "CHR ''.'' \<in> set g \<or> CHR ''.'' \<in> set t" using assms by auto
  then show False using h(3) suffix_groups_chars [OF h(4)] by (fastforce simp: list_all_iff)
qed

lemma v4_match: "is_dotted d \<Longrightarrow> regex_match kIPv4Pattern d = Some [(1, d)]"
proof (rule regex_match_unique)
  assume d: "is_dotted d"
  then show "matches_whole kIPv4Pattern d [(1, d)]" unfolding v4_whole by (intro exI [of _ d] exI [of _ "[]"]) simp
  fix hs
  assume "matches_whole kIPv4Pattern d hs"
  then obtain e t where e: "d = e @ t" "is_dotted e"
      "t = [] \<and> hs = [(1, e)] \<or> (\<exists>p. t = CHR '':'' # p \<and> list_all is_decimal p \<and> p \<noteq> [] \<and> hs = [(1, e), (2, p)])"
    unfolding v4_whole by blast
  have "CHR '':'' \<notin> set d" using is_dotted_chars(1) [OF d] by (auto simp: list_all_iff)
  with e show "hs = [(1, d)]" by auto
qed

lemma v4_port_match:
  assumes d: "is_dotted d" and p: "list_all is_decimal p" "p \<noteq> []"
  shows "regex_match kIPv4Pattern (d @ CHR '':'' # p) = Some [(1, d), (2, p)]"
proof (rule regex_match_unique)
  show "matches_whole kIPv4Pattern (d @ CHR '':'' # p) [(1, d), (2, p)]"
    unfolding v4_whole using assms by (intro exI [of _ d] exI [of _ "CHR '':'' # p"]) simp
  fix hs
  assume "matches_whole kIPv4Pattern (d @ CHR '':'' # p) hs"
  then obtain e t where e: "d @ CHR '':'' # p = e @ t" "is_dotted e"
      "t = [] \<and> hs = [(1, e)] \<or> (\<exists>q. t = CHR '':'' # q \<and> list_all is_decimal q \<and> q \<noteq> [] \<and> hs = [(1, e), (2, q)])"
    unfolding v4_whole by blast
  have "CHR '':'' \<notin> set e" using is_dotted_chars(1) [OF e(2)] by (auto simp: list_all_iff)
  moreover have "CHR '':'' \<in> set (e @ t)" unfolding e(1) [symmetric] by simp
  ultimately have "t \<noteq> []" by (cases t) simp_all
  with e(3) obtain q where q: "t = CHR '':'' # q" "hs = [(1, e), (2, q)]" by blast
  have "d = e \<and> p = q"
    using split_unique [OF e(1) [unfolded q(1)] is_dotted_chars(1) [OF d] is_dotted_chars(1) [OF e(2)]] by simp
  with q(2) show "hs = [(1, d), (2, p)]" by simp
qed

text \<open>After text without brackets and colons, the suffix is what the text of the whole says.\<close>

lemma suffix_unique:
  assumes "a @ CHR '']'' # CHR '':'' # p = b @ t" "suffix_groups n t ks" "list_all q a" "list_all q b" "\<not> q CHR '']''" "list_all is_decimal p"
  shows "a = b \<and> ks = [(n, p)]"
proof -
  have b: "CHR '']'' \<notin> set b" using assms(4,5) by (auto simp: list_all_iff)
  have "CHR '']'' \<in> set (b @ t)" unfolding assms(1) [symmetric] by simp
  with b have t: "CHR '']'' \<in> set t" by simp
  from assms(2) consider "t = []" | "t = '']''" | r where "t = CHR '':'' # r" "list_all is_decimal r" | r where "t = CHR '']'' # CHR '':'' # r" "ks = [(n, r)]"
    unfolding suffix_groups_def by blast
  then show ?thesis
  proof cases
    case 1
    with t show ?thesis by simp
  next
    case 2
    from split_unique [OF assms(1) [unfolded 2] assms(3,4,5)] show ?thesis by simp
  next
    case 3
    with t show ?thesis by (auto simp: list_all_iff)
  next
    case 4
    from split_unique [OF assms(1) [unfolded 4(1)] assms(3,4,5)] 4(2) show ?thesis by simp
  qed
qed

lemma v6_port_match:
  assumes g: "list_all hex_or_colon g" "g \<noteq> []" and p: "list_all is_decimal p" "p \<noteq> []"
  shows "regex_match kIPv6Pattern (CHR ''['' # g @ CHR '']'' # CHR '':'' # p) = Some [(1, g), (2, p)]"
proof (rule regex_match_unique)
  let ?s = "CHR ''['' # g @ CHR '']'' # CHR '':'' # p"
  show "matches_whole kIPv6Pattern ?s [(1, g), (2, p)]"
    unfolding v6_whole suffix_groups_def using assms
    by (intro exI [of _ "g @ CHR '']'' # CHR '':'' # p"] exI [of _ g] exI [of _ "CHR '']'' # CHR '':'' # p"] exI [of _ "[(2, p)]"]) simp
  fix hs
  assume "matches_whole kIPv6Pattern ?s hs"
  then obtain u g' t ks where h: "?s = CHR ''['' # u \<or> ?s = u" "u = g' @ t" "list_all hex_or_colon g'" "g' \<noteq> []" "suffix_groups 2 t ks" "hs = (1, g') # ks"
    unfolding v6_whole by blast
  have "?s \<noteq> u" using h(2,3,4) by (cases g') auto
  with h(1,2) have "g @ CHR '']'' # CHR '':'' # p = g' @ t" by simp
  from suffix_unique [OF this h(5) g(1) h(3) _ p(1)] h(6) show "hs = [(1, g), (2, p)]" by simp
qed

lemma v6_plain_match:
  assumes "list_all hex_or_colon g" "g \<noteq> []"
  shows "regex_match kIPv6Pattern g = Some [(1, g)]"
proof -
  let ?r = "Cat (Maybe (one CHR '']'')) (port_suffix 2)"
  have "\<not> x \<in> set (matches (one CHR ''['') g)" for x using assms by (cases x) (auto simp: one_matches)
  then have one: "matches (one CHR ''['') g = []" by (cases "matches (one CHR ''['') g") auto
  have all: "takeWhile hex_or_colon g = g" using assms(1) by (simp add: list_all_iff takeWhile_eq_all_conv)
  have "rev [1..<Suc (length g)] = length g # rev [1..<length g]" using assms(2) by (cases g) simp_all
  then have cls: "matches (Class hex_or_colon 1 None) g = (g, [], []) # map (\<lambda>k. (take k g, drop k g, [])) (rev [1..<length g])"
    by (simp add: matches.simps repetitions_def all Let_def)
  have nil: "matches ?r [] = [([], [], [])]"
    by (simp add: matches.simps port_suffix_def one_def repetitions_def)
  show ?thesis
    unfolding regex_match_def kIPv6Pattern_def
    by (simp add: matches.simps(2) [of "Maybe (one CHR ''['')"] matches.simps(2) [of "Group 1 (Class hex_or_colon 1 None)"]
        matches.simps(3) [of 1 "Class hex_or_colon 1 None"] matches.simps(4) [of "one CHR ''[''"] one cls nil del: One_nat_def)
qed

lemma mapped_match:
  assumes m: "is_mapped m" and d: "is_dotted d" and p: "list_all is_decimal p" "p \<noteq> []"
  shows "regex_match kIPv6IPv4Pattern (CHR ''['' # m @ d @ CHR '']'' # CHR '':'' # p) = Some [(1, m @ d), (2, d), (3, p)]"
    and "regex_match kIPv6IPv4Pattern (m @ d) = Some [(1, m @ d), (2, d)]"
proof -
  let ?s = "CHR ''['' # m @ d @ CHR '']'' # CHR '':'' # p"
  have mapped: "length x = 7 \<and> hd x = CHR '':'' \<and> x \<noteq> []" if "is_mapped x" for x using that unfolding is_mapped_def by auto
  have eq: "m = x \<and> a = y" if "is_mapped x" "m @ a = x @ y" for x a y
    using that(2) mapped [OF m] mapped [OF that(1)] by (simp add: append_eq_append_conv)
  have dots: "list_all (\<lambda>c. is_decimal c \<or> c = CHR ''.'') x" if "is_dotted x" for x by (rule is_dotted_chars(1) [OF that])
  show "regex_match kIPv6IPv4Pattern ?s = Some [(1, m @ d), (2, d), (3, p)]"
  proof (rule regex_match_unique)
    show "matches_whole kIPv6IPv4Pattern ?s [(1, m @ d), (2, d), (3, p)]"
      unfolding mapped_whole suffix_groups_def using assms
      by (intro exI [of _ "m @ d @ CHR '']'' # CHR '':'' # p"] exI [of _ m] exI [of _ d] exI [of _ "CHR '']'' # CHR '':'' # p"] exI [of _ "[(3, p)]"]) simp
    fix hs
    assume "matches_whole kIPv6IPv4Pattern ?s hs"
    then obtain u x e t ks where h: "?s = CHR ''['' # u \<or> ?s = u" "u = x @ e @ t" "is_mapped x" "is_dotted e" "suffix_groups 3 t ks" "hs = (1, x @ e) # (2, e) # ks"
      unfolding mapped_whole by blast
    have "?s \<noteq> u" using h(2) mapped [OF h(3)] by (cases x) auto
    with h(1,2) have "m @ d @ CHR '']'' # CHR '':'' # p = x @ e @ t" by simp
    from eq [OF h(3) this] have x: "m = x" "d @ CHR '']'' # CHR '':'' # p = e @ t" by auto
    from suffix_unique [OF x(2) h(5) dots [OF d] dots [OF h(4)] _ p(1)] x(1) h(6)
    show "hs = [(1, m @ d), (2, d), (3, p)]" by simp
  qed
  show "regex_match kIPv6IPv4Pattern (m @ d) = Some [(1, m @ d), (2, d)]"
  proof (rule regex_match_unique)
    show "matches_whole kIPv6IPv4Pattern (m @ d) [(1, m @ d), (2, d)]"
      unfolding mapped_whole suffix_groups_def using assms by (intro exI [of _ "m @ d"] exI [of _ m] exI [of _ d] exI [of _ "[]"] exI [of _ "[]"]) simp
    fix hs
    assume "matches_whole kIPv6IPv4Pattern (m @ d) hs"
    then obtain u x e t ks where h: "m @ d = CHR ''['' # u \<or> m @ d = u" "u = x @ e @ t" "is_mapped x" "is_dotted e" "suffix_groups 3 t ks" "hs = (1, x @ e) # (2, e) # ks"
      unfolding mapped_whole by blast
    have "m @ d \<noteq> CHR ''['' # u" using mapped [OF m] by (cases m) auto
    with h(1,2) have "m @ d = x @ e @ t" by simp
    from eq [OF h(3) this] have x: "m = x" "d = e @ t" by auto
    have "CHR '']'' \<notin> set t" "CHR '':'' \<notin> set t" using dots [OF d] decimal_chars unfolding x(2) list_all_iff set_append by blast+
    with h(5) have "t = []" "ks = []" unfolding suffix_groups_def by auto
    with x h(6) show "hs = [(1, m @ d), (2, d)]" by simp
  qed
qed

lemma show_nat_decimal: "list_all is_decimal (show_nat n)" "show_nat n \<noteq> []"
proof -
  have "is_digit = is_decimal" by (rule ext) (simp add: is_digit_def is_decimal_def)
  with show_nat_digits [of n] show "list_all is_decimal (show_nat n)" by simp
  show "show_nat n \<noteq> []" by (simp add: show_nat.simps [of n])
qed

text \<open>What is relied on of boost at an endpoint: the text of an IPv4 address has four numbers, that of an IPv6 address has
  hexadecimal digits and colons, an address is made from its text, and numbers are read.\<close>

definition texts_faithful :: "boost_text \<Rightarrow> ip_endpoint \<Rightarrow> bool" where
  "texts_faithful bt e =
    (bt_lexical_cast bt (show_nat (unat (ep_port e))) = Some (ucast (ep_port e)) \<and>
     (case ep_address e of
       V4 w \<Rightarrow> is_dotted (bt_v4_to_string bt w) \<and> bt_make_v4 bt (bt_v4_to_string bt w) = Some w
     | V6 w \<Rightarrow> list_all hex_or_colon (bt_v6_to_string bt w) \<and> bt_v6_to_string bt w \<noteq> [] \<and> bt_make_v6 bt (bt_v6_to_string bt w) = Some w))"

lemma address_text_v4:
  assumes "is_dotted d"
  shows "address_from_string bt d = (case bt_make_v4 bt d of None \<Rightarrow> Failure (Errc bad_address) | Some w \<Rightarrow> Success (V4 w))"
  using not_mapped [of d] not_v6 [of d] v4_match [OF assms] is_dotted_chars [OF assms]
  by (simp add: address_from_string_def group_def Let_def split: option.split)

lemma no_dot: "list_all hex_or_colon g \<Longrightarrow> CHR ''.'' \<notin> set g"
  using hex_chars(1) unfolding list_all_iff by blast

lemma address_text_v6:
  assumes "list_all hex_or_colon g" "g \<noteq> []"
  shows "address_from_string bt g = (case bt_make_v6 bt g of None \<Rightarrow> Failure (Errc bad_address) | Some w \<Rightarrow> Success (V6 w))"
  using not_mapped [of g] v6_plain_match [OF assms] no_dot [OF assms(1)] assms(2)
  by (simp add: address_from_string_def group_def Let_def split: option.split)

lemma port_word:
  fixes p :: "16 word"
  shows "(ucast p :: 64 word) \<ge> 0xFFFF \<longleftrightarrow> p = 0xFFFF" "ucast (ucast p :: 64 word) = p"
proof -
  have b: "unat p < 2 ^ 16" using unsigned_less [of p] by simp
  then have "take_bit 64 (unat p) = unat p" by (intro take_bit_nat_eq_self) simp
  then have "unat (ucast p :: 64 word) = unat p" by (simp add: unsigned_ucast_eq)
  moreover note b
  moreover have "p = 0xFFFF \<longleftrightarrow> unat p = 0xFFFF" by (simp add: word_unat_eq_iff)
  ultimately show "(ucast p :: 64 word) \<ge> 0xFFFF \<longleftrightarrow> p = 0xFFFF" by (auto simp: word_le_nat_alt)
  show "ucast (ucast p :: 64 word) = p" by (rule bit_word_eqI) (simp add: bit_ucast_iff)
qed

section \<open>Properties\<close>


definition sample_boost :: boost_text where
  "sample_boost = \<lparr>bt_make_v4 = \<lambda>t. if t = ''8.8.8.8'' then Some 0x08080808 else None, bt_make_v6 = \<lambda>_. None, bt_v6_to_v4 = \<lambda>_. None,
    bt_lexical_cast = \<lambda>t. Some (of_nat (digits_to_nat t)), bt_v4_to_string = \<lambda>_. ''8.8.8.8'', bt_v6_to_string = \<lambda>_. ''::1''\<rparr>"


text \<open>C38. The port in the text of an IPv4 address mapped to IPv6 is ignored: the text with a port is read like the text without
  it, and the endpoint has port zero.\<close>

theorem mapped_port_is_ignored:
  assumes "is_mapped m" "is_dotted d" "list_all is_decimal p" "p \<noteq> []"
  shows "endpoint_from_string bt (''['' @ m @ d @ '']:'' @ p) = endpoint_from_string bt (m @ d) \<and>
    (\<forall>e. endpoint_from_string bt (''['' @ m @ d @ '']:'' @ p) = Success e \<longrightarrow> ep_port e = 0)"
proof -
  have "endpoint_groups (''['' @ m @ d @ '']:'' @ p) = Some (m @ d, None)" "endpoint_groups (m @ d) = Some (m @ d, None)"
    using mapped_match [OF assms] by (simp_all add: endpoint_groups_def group_def)
  moreover have "m @ d \<noteq> []" using assms(1) by (auto simp: is_mapped_def)
  ultimately show ?thesis by (auto simp: endpoint_from_string_def split: outcome.splits)
qed

theorem mapped_port_is_ignored_witness:
  "endpoint_from_string sample_boost ''[::ffff:8.8.8.8]:8333'' = endpoint_from_string sample_boost ''::ffff:8.8.8.8''"
proof -
  have "is_dotted ''8.8.8.8''"
    unfolding is_dotted_def by (intro exI [of _ "''8''"]) (simp add: is_number_def is_decimal_def)
  moreover have "is_mapped ''::ffff:''" unfolding is_mapped_def by (rule exI [of _ "''ffff''"]) simp
  ultimately show ?thesis using mapped_port_is_ignored [of "''::ffff:''" "''8.8.8.8''" "''8333''" sample_boost] by (simp add: is_decimal_def)
qed

end
