(* ===== verification/Node_Hub.thy ===== *)
theory Node_Hub
  imports Node_Life Address_Book_Store Chain_Config Endpoint_Text "HOL-Library.Char_ord" "HOL-Library.List_Lexorder"
begin

text \<open>
  node/network/node_hub.hpp and node_hub.cpp: the collection of the connected nodes, with its counters, its timers and
  the loops that accept, dial, select and process. A loop is the function that handles one element it has received. A
  channel is the list of the elements it has accepted; whether it accepts another one is the choice of the library, as
  are the outcome of a dial, the resolution of host names, random numbers, the clock and the digest. A result \<open>None\<close> is a
  failed assertion. Sockets, the TLS contexts, locks and logging are not modelled.
\<close>

section \<open>State\<close>

record hub_settings =
  hs_max_active_connections :: "32 word"
  hs_max_active_connections_per_ip :: "32 word"
  hs_min_outgoing_connections :: "32 word"
  hs_ipv4_only :: bool
  hs_force_dns_seeding :: bool
  hs_use_tls :: bool
  hs_nat_address :: ip_address
  hs_default_port :: "16 word"

text \<open>A connection; \<open>cn_socket\<close> tells whether it has a socket that is open, \<open>cn_remote\<close> is the endpoint that the socket reports.\<close>

record connection =
  cn_endpoint :: ip_endpoint
  cn_type :: connection_type
  cn_socket :: "bool option"
  cn_remote :: ip_endpoint

definition connection_new :: "ip_endpoint \<Rightarrow> connection_type \<Rightarrow> connection option" where
  "connection_new e type = (if type = kNone then None else Some \<lparr>cn_endpoint = e, cn_type = type, cn_socket = None, cn_remote = e\<rparr>)"

record hub_node =
  hn_id :: nat
  hn_remote :: ip_endpoint
  hn_node :: node

record node_hub =
  hb_state :: component_status
  hb_current_active :: "32 word"
  hb_current_active_inbound :: "32 word"
  hb_current_active_outbound :: "32 word"
  hb_needed_connections :: "32 word"
  hb_need_notified :: bool
  hb_node_factory_feed :: "connection list"
  hb_connector_feed :: "connection list"
  hb_address_book_feed :: "(nat \<times> message_payload) list"
  hb_feeds_open :: bool
  hb_address_book :: address_book
  hb_nodes :: "hub_node list"
  hb_connected_addresses :: "ip_address \<rightharpoonup> 32 word"
  hb_total_connections :: "64 word"
  hb_total_disconnections :: "64 word"
  hb_total_rejected :: "64 word"
  hb_traffic_meter :: traffic_meter
  hb_last_advertisement :: "int option"
  hb_service_timer :: bool
  hb_next_node_id :: nat

definition node_hub_new :: "address_book \<Rightarrow> int \<Rightarrow> node_hub" where
  "node_hub_new book now =
    \<lparr>hb_state = kNotStarted, hb_current_active = 0, hb_current_active_inbound = 0, hb_current_active_outbound = 0,
     hb_needed_connections = 0, hb_need_notified = False, hb_node_factory_feed = [], hb_connector_feed = [], hb_address_book_feed = [],
     hb_feeds_open = True, hb_address_book = book, hb_nodes = [], hb_connected_addresses = Map.empty, hb_total_connections = 0,
     hb_total_disconnections = 0, hb_total_rejected = 0, hb_traffic_meter = traffic_meter_new now, hb_last_advertisement = None,
     hb_service_timer = False, hb_next_node_id = 1\<rparr>"

definition hub_size :: "node_hub \<Rightarrow> 32 word" where
  "hub_size hub = hb_current_active hub"

definition find_node :: "nat \<Rightarrow> node_hub \<Rightarrow> hub_node option" where
  "find_node i hub = find (\<lambda>h. hn_id h = i) (hb_nodes hub)"

text \<open>Writing to a node through a pointer to it.\<close>

definition set_node :: "nat \<Rightarrow> node \<Rightarrow> node_hub \<Rightarrow> node_hub" where
  "set_node i n hub = hub\<lparr>hb_nodes := map (\<lambda>h. if hn_id h = i then h\<lparr>hn_node := n\<rparr> else h) (hb_nodes hub)\<rparr>"

definition get_local_service :: "hub_settings \<Rightarrow> int \<Rightarrow> node_service" where
  "get_local_service st now =
    \<lparr>ns_time = now, ns_services = kNodeNetwork, ns_endpoint = \<lparr>ep_address = hs_nat_address st, ep_port = hs_default_port st\<rparr>\<rparr>"

section \<open>Connections and disconnections\<close>

definition count_active :: "32 word \<Rightarrow> connection_type \<Rightarrow> node_hub \<Rightarrow> node_hub option" where
  "count_active k type hub =
    (case type of
      kNone \<Rightarrow> None
    | kInbound \<Rightarrow> Some (hub\<lparr>hb_current_active_inbound := hb_current_active_inbound hub + k\<rparr>)
    | _ \<Rightarrow> Some (hub\<lparr>hb_current_active_outbound := hb_current_active_outbound hub + k\<rparr>))"

definition on_node_connected :: "hub_node \<Rightarrow> node_hub \<Rightarrow> node_hub option" where
  "on_node_connected h hub =
    (let a = ep_address (hn_remote h);
         addresses = hb_connected_addresses hub;
         hub = hub\<lparr>hb_connected_addresses := addresses(a \<mapsto> (case addresses a of None \<Rightarrow> 0 | Some k \<Rightarrow> k) + 1),
           hb_total_connections := hb_total_connections hub + 1, hb_current_active := hb_current_active hub + 1\<rparr>
     in map_option (\<lambda>hub. hub\<lparr>hb_nodes := hb_nodes hub @ [h]\<rparr>) (count_active 1 (nd_connection_type (hn_node h)) hub))"

definition on_node_disconnected :: "hub_node \<Rightarrow> node_hub \<Rightarrow> node_hub option" where
  "on_node_disconnected h hub =
    (let a = ep_address (hn_remote h);
         addresses = hb_connected_addresses hub;
         addresses = (case addresses a of None \<Rightarrow> addresses | Some k \<Rightarrow> if k - 1 = 0 then addresses(a := None) else addresses(a \<mapsto> k - 1));
         hub = hub\<lparr>hb_connected_addresses := addresses, hb_total_disconnections := hb_total_disconnections hub + 1,
           hb_current_active := hb_current_active hub - 1\<rparr>
     in count_active (- 1) (nd_connection_type (hn_node h)) hub)"

definition on_node_data :: "data_direction_mode \<Rightarrow> 64 word \<Rightarrow> node_hub \<Rightarrow> node_hub" where
  "on_node_data direction k hub =
    (case direction of
      InboundData \<Rightarrow> hub\<lparr>hb_traffic_meter := update_inbound k (hb_traffic_meter hub)\<rparr>
    | OutboundData \<Rightarrow> hub\<lparr>hb_traffic_meter := update_outbound k (hb_traffic_meter hub)\<rparr>)"

section \<open>Messages\<close>

text \<open>What a node delivers: \<open>accepted\<close> tells whether the channel has room.\<close>

definition on_node_received_message ::
  "node_env \<Rightarrow> ab_env \<Rightarrow> hub_settings \<Rightarrow> int \<Rightarrow> bool \<Rightarrow> hub_node \<Rightarrow> message_payload \<Rightarrow> node_hub \<Rightarrow> node_hub option" where
  "on_node_received_message env aenv st now accepted h p hub =
    (if \<not> is_running (hb_state hub) \<or> \<not> is_running (nd_state (hn_node h)) then Some hub
     else
      (case payload_type p of
        kVersion \<Rightarrow>
          if nd_connection_type (hn_node h) \<noteq> kInbound
          then
            do {
              (_, book) \<leftarrow> set_good aenv (hn_remote h) (nd_remote_version (hn_node h)) now (hb_address_book hub);
              (_, n) \<leftarrow> push_message env (AddrPayload [get_local_service st now]) kNormal (hn_node h);
              Some (set_node (hn_id h) n (hub\<lparr>hb_address_book := book\<rparr>))
            }
          else Some hub
      | kAddr \<Rightarrow> Some (if accepted then hub\<lparr>hb_address_book_feed := hb_address_book_feed hub @ [(hn_id h, p)]\<rparr> else hub)
      | kGetAddr \<Rightarrow> Some (if accepted then hub\<lparr>hb_address_book_feed := hb_address_book_feed hub @ [(hn_id h, p)]\<rparr> else hub)
      | _ \<Rightarrow> Some hub))"

text \<open>The loop of the address book processor: \<open>shuffled\<close> are the services in their random order.\<close>

record processor_draws =
  pd_shuffled :: "node_service list"
  pd_draws :: "nat \<Rightarrow> 32 word"
  pd_picks :: "nat \<Rightarrow> nat"

definition address_book_processor_work ::
  "node_env \<Rightarrow> ab_env \<Rightarrow> int \<Rightarrow> processor_draws \<Rightarrow> hub_node \<Rightarrow> message_payload \<Rightarrow> node_hub \<Rightarrow> node_hub option" where
  "address_book_processor_work env aenv now draws h p hub =
    (if \<not> is_running (hb_state hub) then Some hub
     else
      (case payload_type p of
        kAddr \<Rightarrow>
          do {
            (_, _, book) \<leftarrow> insert_or_update_services aenv now (pd_draws draws) (pd_shuffled draws) (ep_address (hn_remote h)) (2 * kHour) (hb_address_book hub);
            Some (hub\<lparr>hb_address_book := book\<rparr>)
          }
      | kGetAddr \<Rightarrow>
          do {
            (services, book) \<leftarrow> get_random_services now (pd_picks draws) kMaxAddrItems 25 None (hb_address_book hub);
            let hub = hub\<lparr>hb_address_book := book\<rparr>;
            (_, n) \<leftarrow> (if services = [] then push_message_type env kNotFound kNormal (hn_node h)
                       else push_message env (AddrPayload services) kNormal (hn_node h));
            Some (set_node (hn_id h) n hub)
          }
      | _ \<Rightarrow> None))"

section \<open>New connections\<close>

text \<open>The loop of the node factory: the version of the new node, the time and whether its socket is open are the choice of the
  environment.\<close>

definition node_factory_work :: "node_env \<Rightarrow> hub_settings \<Rightarrow> int \<Rightarrow> version_payload \<Rightarrow> connection \<Rightarrow> node_hub \<Rightarrow> node_hub option" where
  "node_factory_work env st now local_version c hub =
    (case cn_socket c of
      None \<Rightarrow> None
    | Some opened \<Rightarrow>
        if cn_type c = kNone then None
        else
         let hub = (if cn_type c = kOutbound then hub\<lparr>hb_needed_connections := hb_needed_connections hub - 1\<rparr> else hub)
         in if \<not> opened then Some hub
            else if hub_size hub \<ge> hs_max_active_connections st then Some (hub\<lparr>hb_total_rejected := hb_total_rejected hub + 1\<rparr>)
            else
              do {
                (_, n) \<leftarrow> node_start env now (node_new (cn_type c) (hs_use_tls st) local_version now);
                on_node_connected \<lparr>hn_id = hb_next_node_id hub, hn_remote = cn_remote c, hn_node = n\<rparr>
                  (hub\<lparr>hb_next_node_id := hb_next_node_id hub + 1\<rparr>)
              })"

text \<open>The loop of the connector: \<open>dialled\<close> is the outcome of the dial.\<close>

definition too_many_from :: "hub_settings \<Rightarrow> ip_address \<Rightarrow> node_hub \<Rightarrow> bool" where
  "too_many_from st a hub = (case hb_connected_addresses hub a of None \<Rightarrow> False | Some k \<Rightarrow> k \<ge> hs_max_active_connections_per_ip st)"

definition connector_work :: "ab_env \<Rightarrow> hub_settings \<Rightarrow> int \<Rightarrow> bool \<Rightarrow> connection \<Rightarrow> node_hub \<Rightarrow> node_hub option" where
  "connector_work aenv st now dialled c hub =
    (if \<not> is_running (hb_state hub) then Some hub
     else if too_many_from st (ep_address (cn_endpoint c)) hub then Some (hub\<lparr>hb_needed_connections := hb_needed_connections hub - 1\<rparr>)
     else if dialled
     then
       do {
         (_, book) \<leftarrow> set_tried aenv (cn_endpoint c) now (hb_address_book hub);
         let hub = hub\<lparr>hb_address_book := book\<rparr>;
         Some (if hb_feeds_open hub then hub\<lparr>hb_node_factory_feed := hb_node_factory_feed hub @ [c\<lparr>cn_socket := Some True\<rparr>]\<rparr> else hub)
       }
     else
       do {
         (_, book) \<leftarrow> set_failed aenv (cn_endpoint c) now (hb_address_book hub);
         Some (hub\<lparr>hb_address_book := book, hb_needed_connections := hb_needed_connections hub - 1\<rparr>)
       })"

text \<open>The selection of addresses to dial. A round is what the library and the other threads choose in it: the random numbers of the
  selection and whether the channel has room, or \<open>None\<close> when the hub was stopped meanwhile.\<close>

fun select_addresses :: "int \<Rightarrow> ip_address_type option \<Rightarrow> (selection_draws \<times> bool) option list \<Rightarrow> node_hub \<Rightarrow> node_hub option" where
  "select_addresses now type [] hub = Some hub"
| "select_addresses now type (None # rounds) hub = Some hub"
| "select_addresses now type (Some (draws, accepted) # rounds) hub =
    (case select_random now draws False type (hb_address_book hub) of
      None \<Rightarrow> None
    | Some (None, book) \<Rightarrow>
        select_addresses now type rounds (hub\<lparr>hb_address_book := book, hb_needed_connections := hb_needed_connections hub - 1\<rparr>)
    | Some (Some (e, last_tried), book) \<Rightarrow>
        let hub = hub\<lparr>hb_address_book := book\<rparr>
        in case connection_new e kOutbound of
             None \<Rightarrow> None
           | Some c \<Rightarrow> select_addresses now type rounds (if accepted then hub\<lparr>hb_connector_feed := hb_connector_feed hub @ [c]\<rparr> else hub))"

definition address_book_selector_work :: "hub_settings \<Rightarrow> int \<Rightarrow> (nat \<Rightarrow> (selection_draws \<times> bool) option) \<Rightarrow> node_hub \<Rightarrow> node_hub option" where
  "address_book_selector_work st now rounds hub =
    (if \<not> is_running (hb_state hub) \<or> \<not> hb_feeds_open hub then Some hub
     else
      select_addresses now (if hs_ipv4_only st then Some kIPv4 else None) (map rounds [0..<unat (hb_needed_connections hub)])
        (hub\<lparr>hb_need_notified := False\<rparr>))"

text \<open>The endpoint at which the acceptor listens.\<close>

definition initialize_acceptor :: "boost_text \<Rightarrow> hub_settings \<Rightarrow> string \<Rightarrow> (error_code, ip_endpoint) outcome" where
  "initialize_acceptor bt st local_endpoint =
    (case endpoint_from_string bt local_endpoint of
      Failure e \<Rightarrow> Failure e
    | Success e \<Rightarrow> Success (if ep_port e = 0 then e\<lparr>ep_port := hs_default_port st\<rparr> else e))"

text \<open>An accepted socket; a full channel makes the loop wait, a closed one ends it.\<close>

definition acceptor_work :: "hub_settings \<Rightarrow> ip_endpoint \<Rightarrow> node_hub \<Rightarrow> node_hub option" where
  "acceptor_work st remote hub =
    (if hub_size hub \<ge> hs_max_active_connections st then Some hub
     else
       do {
         c \<leftarrow> connection_new remote kInbound;
         Some (if hb_feeds_open hub then hub\<lparr>hb_node_factory_feed := hb_node_factory_feed hub @ [c\<lparr>cn_socket := Some True\<rparr>]\<rparr> else hub)
       })"

section \<open>The service timer\<close>

text \<open>What a tick decides once before it visits the nodes: the index of the node that is dropped at random and our advertisement.\<close>

record tick_plan =
  tp_running :: bool
  tp_random_disconnect_index :: "32 word option"
  tp_self_advertise :: "message_payload option"

record tick_choice =
  tc_now :: int
  tc_wall :: int
  tc_draw :: "32 word"
  tc_index :: "32 word"
  tc_shared :: "nat \<Rightarrow> bool"

definition kNanosPerMinute :: int where "kNanosPerMinute = 60 * kNanosPerSecond"

text \<open>The time of the last advertisement is a static variable, set to the current time when the first tick reaches it.\<close>

definition last_advertisement :: "tick_choice \<Rightarrow> node_hub \<Rightarrow> int" where
  "last_advertisement tc hub = (case hb_last_advertisement hub of None \<Rightarrow> tc_now tc | Some t \<Rightarrow> t)"

definition tick_plan_of :: "hub_settings \<Rightarrow> tick_choice \<Rightarrow> node_hub \<Rightarrow> tick_plan" where
  "tick_plan_of st tc hub =
    (let running = is_running (hb_state hub)
     in \<lparr>tp_running = running,
         tp_random_disconnect_index =
           (if running \<and> hb_current_active_outbound hub \<ge> hs_min_outgoing_connections st \<and>
               book_size (hb_address_book hub) > unat (hs_min_outgoing_connections st) \<and> tc_draw tc = 0
            then Some (tc_index tc) else None),
         tp_self_advertise =
           (if running \<and> tc_now tc - last_advertisement tc hub > 60 * kNanosPerMinute
            then Some (AddrPayload [get_local_service st (tc_wall tc)]) else None)\<rparr>)"

definition node_stopped :: "hub_node \<Rightarrow> hub_node" where
  "node_stopped h = h\<lparr>hn_node := snd (node_stop (hn_node h))\<rparr>"

text \<open>What a tick does with a node: erase it, stop it, leave it as it is now, or fail.\<close>

datatype tick_verdict = Erase | Stop | Keep node | Abort

definition tick_node :: "node_env \<Rightarrow> tick_choice \<Rightarrow> tick_plan \<Rightarrow> 32 word \<Rightarrow> hub_node \<Rightarrow> tick_verdict" where
  "tick_node env tc plan it_index h =
    (let n = hn_node h
     in if nd_state n = kNotStarted \<and> \<not> tc_shared tc (hn_id h) then Erase
        else if \<not> tp_running plan then Stop
        else if tp_random_disconnect_index plan = Some it_index \<and> nd_connection_type n \<noteq> kInbound \<and> fully_connected n then Stop
        else
         (case is_idle env (tc_now tc) n of
           None \<Rightarrow> Abort
         | Some r \<Rightarrow>
             if r \<noteq> kNotIdle then Stop
             else
              (case tp_self_advertise plan of
                None \<Rightarrow> Keep n
              | Some p \<Rightarrow>
                  if tc_now tc - nd_connected_time n > 15 * kNanosPerMinute
                  then (case push_message env p kNormal n of None \<Rightarrow> Abort | Some (_, n) \<Rightarrow> Keep n)
                  else Keep n)))"

text \<open>The loop over the nodes; \<open>shutdown_count\<close> limits the number of nodes that one tick stops.\<close>

fun tick_nodes :: "node_env \<Rightarrow> tick_choice \<Rightarrow> tick_plan \<Rightarrow> 32 word \<Rightarrow> 32 word \<Rightarrow> hub_node list \<Rightarrow> hub_node list option" where
  "tick_nodes env tc plan it_index shutdown_count [] = Some []"
| "tick_nodes env tc plan it_index shutdown_count (h # hs) =
    (case tick_node env tc plan it_index h of
      Abort \<Rightarrow> None
    | Erase \<Rightarrow> tick_nodes env tc plan it_index shutdown_count hs
    | Stop \<Rightarrow>
        if shutdown_count - 1 = 0 then Some (node_stopped h # hs)
        else map_option (Cons (node_stopped h)) (tick_nodes env tc plan (it_index + 1) (shutdown_count - 1) hs)
    | Keep n \<Rightarrow> map_option (Cons (h\<lparr>hn_node := n\<rparr>)) (tick_nodes env tc plan (it_index + 1) shutdown_count hs))"

definition ask_connections :: "hub_settings \<Rightarrow> node_hub \<Rightarrow> node_hub" where
  "ask_connections st hub =
    (let outbounds = hb_current_active_outbound hub
     in if outbounds < hs_min_outgoing_connections st \<and> \<not> book_empty (hb_address_book hub) \<and> hb_needed_connections hub = 0
        then hub\<lparr>hb_needed_connections := hs_min_outgoing_connections st - outbounds, hb_need_notified := True\<rparr>
        else hub)"

text \<open>The flag of the result tells that the wait for the peers is over and that the timer stops.\<close>

definition kShutdownsPerTick :: "32 word" where "kShutdownsPerTick = 32"

definition on_service_timer_expired :: "node_env \<Rightarrow> hub_settings \<Rightarrow> tick_choice \<Rightarrow> node_hub \<Rightarrow> (bool \<times> node_hub) option" where
  "on_service_timer_expired env st tc hub =
    (let plan = tick_plan_of st tc hub;
         hub = hub\<lparr>hb_last_advertisement := Some (if tp_self_advertise plan = None then last_advertisement tc hub else tc_now tc)\<rparr>
     in case tick_nodes env tc plan 0 kShutdownsPerTick (hb_nodes hub) of
          None \<Rightarrow> None
        | Some nodes \<Rightarrow>
            let hub = hub\<lparr>hb_nodes := nodes\<rparr>
            in if \<not> tp_running plan \<and> nodes = [] then Some (True, hub\<lparr>hb_service_timer := False\<rparr>) else Some (False, ask_connections st hub))"

text \<open>The values that the information timer prints; reading the speed begins a new interval of the meter.\<close>

definition on_info_timer_expired :: "int \<Rightarrow> node_hub \<Rightarrow> (32 word \<times> 32 word) \<times> (32 word \<times> 32 word) \<times> (64 word \<times> 64 word) \<times> (64 word \<times> 64 word) \<times> node_hub" where
  "on_info_timer_expired now hub =
    (let (speed, meter) = get_interval_speed now True (hb_traffic_meter hub)
     in ((hb_current_active_inbound hub, hb_current_active_outbound hub), size_by_buckets (hb_address_book hub),
         get_cumulative_bytes (hb_traffic_meter hub), speed, hub\<lparr>hb_traffic_meter := meter\<rparr>))"

section \<open>Connections at the start\<close>

text \<open>Feeding a connection to the connector; \<open>accepted\<close> tells whether the channel has room.\<close>

definition feed_connector :: "connection_type \<Rightarrow> ip_endpoint \<times> bool \<Rightarrow> node_hub \<Rightarrow> node_hub option" where
  "feed_connector type ea hub =
    (case ea of (e, accepted) \<Rightarrow>
      map_option (\<lambda>c. if accepted then hub\<lparr>hb_connector_feed := hb_connector_feed hub @ [c]\<rparr> else hub) (connection_new e type))"

fun feed_all :: "connection_type \<Rightarrow> (ip_endpoint \<times> bool) list \<Rightarrow> node_hub \<Rightarrow> node_hub option" where
  "feed_all type [] hub = Some hub"
| "feed_all type (ea # eas) hub = Option.bind (feed_connector type ea hub) (feed_all type eas)"

definition cli_endpoint :: "asio \<Rightarrow> boost_text \<Rightarrow> string \<Rightarrow> ip_endpoint option" where
  "cli_endpoint asio bt s =
    (case endpoint_from_string bt s of Failure _ \<Rightarrow> None | Success e \<Rightarrow> if endpoint_is_routable asio e then Some e else None)"

definition feed_connections_from_cli :: "asio \<Rightarrow> boost_text \<Rightarrow> (ip_endpoint \<Rightarrow> bool) \<Rightarrow> string list \<Rightarrow> node_hub \<Rightarrow> node_hub option" where
  "feed_connections_from_cli asio bt accepted connect_nodes hub =
    feed_all kManualOutbound (map (\<lambda>e. (e, accepted e)) (List.map_filter (cli_endpoint asio bt) connect_nodes)) hub"

text \<open>The resolver of host names: the addresses of a host for an IP version, or an error.\<close>

type_synonym resolver = "ip_address_type \<Rightarrow> string \<Rightarrow> ip_address list option"

type_synonym host_endpoints = "string \<rightharpoonup> ip_endpoint list"

primrec dns_resolve :: "hub_settings \<Rightarrow> resolver \<Rightarrow> ip_address_type \<Rightarrow> string list \<Rightarrow> host_endpoints \<Rightarrow> host_endpoints" where
  "dns_resolve st resolve version [] ret = ret"
| "dns_resolve st resolve version (host # hosts) ret =
    (case resolve version host of
      None \<Rightarrow> dns_resolve st resolve version hosts ret
    | Some addresses \<Rightarrow>
        dns_resolve st resolve version hosts
          (ret(host \<mapsto> (case ret host of None \<Rightarrow> [] | Some es \<Rightarrow> es) @ map (\<lambda>a. \<lparr>ep_address = a, ep_port = hs_default_port st\<rparr>) addresses)))"

text \<open>\<open>std::map::merge\<close> moves the entries whose key is not in the map yet.\<close>

definition map_merge :: "('k \<rightharpoonup> 'v) \<Rightarrow> ('k \<rightharpoonup> 'v) \<Rightarrow> ('k \<rightharpoonup> 'v)" where
  "map_merge m source = source ++ m"

definition resolved_seeds :: "hub_settings \<Rightarrow> resolver \<Rightarrow> string list \<Rightarrow> host_endpoints" where
  "resolved_seeds st resolve hosts =
    (let m = map_merge Map.empty (dns_resolve st resolve kIPv4 hosts Map.empty)
     in if hs_ipv4_only st then m else map_merge m (dns_resolve st resolve kIPv6 hosts Map.empty))"

definition feed_connections_from_dns ::
  "hub_settings \<Rightarrow> chain_config \<Rightarrow> resolver \<Rightarrow> (ip_endpoint \<Rightarrow> bool) \<Rightarrow> node_hub \<Rightarrow> node_hub option" where
  "feed_connections_from_dns st config resolve accepted hub =
    (if \<not> hs_force_dns_seeding st \<and> \<not> book_empty (hb_address_book hub) then Some hub
     else
      (case get_chain_seeds config of
        None \<Rightarrow> None
      | Some hosts \<Rightarrow>
          if \<not> is_running (hb_state hub) then Some hub
          else
           let m = resolved_seeds st resolve hosts
           in feed_all kSeedOutbound (map (\<lambda>e. (e, accepted e)) (concat (map (\<lambda>host. the (m host)) (keys_of m)))) hub))"

section \<open>Start and stop\<close>

text \<open>What the start finds outside: the TLS contexts, the tables of the address book, the resolver and the channel.\<close>

record start_choice =
  sc_server_context :: bool
  sc_client_context :: bool
  sc_seed :: "bytes option"
  sc_services :: "table_record list"
  sc_random_order :: "table_record list"
  sc_buckets :: "table_record list"
  sc_resolve :: resolver
  sc_accepted :: "ip_endpoint \<Rightarrow> bool"

definition hub_start ::
  "asio \<Rightarrow> boost_text \<Rightarrow> hub_settings \<Rightarrow> chain_config \<Rightarrow> string list \<Rightarrow> start_choice \<Rightarrow> node_hub \<Rightarrow> (bool \<times> node_hub) option" where
  "hub_start asio bt st config connect_nodes sc hub =
    (case stoppable_start (hb_state hub) of
      (False, _) \<Rightarrow> Some (False, hub)
    | (True, state) \<Rightarrow>
        let hub = hub\<lparr>hb_state := state\<rparr>
        in if hs_use_tls st \<and> (\<not> sc_server_context sc \<or> \<not> sc_client_context sc) then Some (False, hub)
           else
             do {
               book \<leftarrow> book_load (sc_seed sc) (sc_services sc) (sc_random_order sc) (sc_buckets sc) (hb_address_book hub);
               hub \<leftarrow> feed_connections_from_cli asio bt (sc_accepted sc) connect_nodes (hub\<lparr>hb_address_book := book, hb_service_timer := True\<rparr>);
               hub \<leftarrow> feed_connections_from_dns st config (sc_resolve sc) (sc_accepted sc) hub;
               Some (True, hub)
             })"

text \<open>A stop up to the wait for the peers, and after the service timer has ended the wait: the book is saved.\<close>

definition hub_stop :: "node_hub \<Rightarrow> bool \<times> node_hub" where
  "hub_stop hub =
    (case stoppable_stop (hb_state hub) of
      (False, _) \<Rightarrow> (False, hub)
    | (True, state) \<Rightarrow> (True, hub\<lparr>hb_state := state, hb_feeds_open := False\<rparr>))"

definition hub_stop_completed :: "node_hub \<Rightarrow> saved_book option \<times> node_hub" where
  "hub_stop_completed hub =
    (case book_save False (hb_address_book hub) of
      (saved, book) \<Rightarrow> (saved, hub\<lparr>hb_service_timer := False, hb_address_book := book, hb_state := set_stopped (hb_state hub)\<rparr>))"

section \<open>Runs of the hub\<close>

text \<open>The loops and callbacks of the hub and the handlers of its nodes interleave. A callback of a node is a step of its own: it may
  deliver any payload. The node factory starts a node and registers it in one step.\<close>

inductive hub_step :: "node_env \<Rightarrow> ab_env \<Rightarrow> hub_settings \<Rightarrow> node_hub \<Rightarrow> node_hub \<Rightarrow> bool" for env aenv st where
  started: "hub_start asio bt st config connect_nodes sc hub = Some (r, hub') \<Longrightarrow> hub_step env aenv st hub hub'"
| factory: "hb_node_factory_feed hub = c # cs \<Longrightarrow>
    node_factory_work env st now v (c\<lparr>cn_socket := Some opened\<rparr>) (hub\<lparr>hb_node_factory_feed := cs\<rparr>) = Some hub' \<Longrightarrow> hub_step env aenv st hub hub'"
| connector: "hb_connector_feed hub = c # cs \<Longrightarrow>
    connector_work aenv st now dialled c (hub\<lparr>hb_connector_feed := cs\<rparr>) = Some hub' \<Longrightarrow> hub_step env aenv st hub hub'"
| selector: "hb_need_notified hub \<Longrightarrow> address_book_selector_work st now rounds hub = Some hub' \<Longrightarrow> hub_step env aenv st hub hub'"
| processor: "hb_address_book_feed hub = (i, p) # items \<Longrightarrow> find_node i hub = Some h \<Longrightarrow>
    address_book_processor_work env aenv now draws h p (hub\<lparr>hb_address_book_feed := items\<rparr>) = Some hub' \<Longrightarrow> hub_step env aenv st hub hub'"
| acceptor: "acceptor_work st remote hub = Some hub' \<Longrightarrow> hub_step env aenv st hub hub'"
| service_timer: "hb_service_timer hub \<Longrightarrow> on_service_timer_expired env st tc hub = Some (r, hub') \<Longrightarrow> hub_step env aenv st hub hub'"
| info_timer: "on_info_timer_expired now hub = (connections, buckets, bytes, speed, hub') \<Longrightarrow> hub_step env aenv st hub hub'"
| node_data: "hub_step env aenv st hub (on_node_data direction k hub)"
| node_message: "find_node i hub = Some h \<Longrightarrow> on_node_received_message env aenv st now accepted h p hub = Some hub' \<Longrightarrow> hub_step env aenv st hub hub'"
| node_handler: "find_node i hub = Some h \<Longrightarrow> node_step env (hn_node h) n \<Longrightarrow>
    (if nd_disconnected n = nd_disconnected (hn_node h) then Some hub else on_node_disconnected h hub) = Some hub' \<Longrightarrow>
    hub_step env aenv st hub (set_node i n hub')"
| stop: "hub_stop hub = (r, hub') \<Longrightarrow> hub_step env aenv st hub hub'"
| stop_completed: "hb_state hub = kStopping \<Longrightarrow> hb_nodes hub = [] \<Longrightarrow> hub_stop_completed hub = (saved, hub') \<Longrightarrow> hub_step env aenv st hub hub'"

inductive hub_reachable :: "node_env \<Rightarrow> ab_env \<Rightarrow> hub_settings \<Rightarrow> node_hub \<Rightarrow> bool" for env aenv st where
  start: "hub_reachable env aenv st (node_hub_new book now)"
| step: "hub_reachable env aenv st hub \<Longrightarrow> hub_step env aenv st hub hub' \<Longrightarrow> hub_reachable env aenv st hub'"

end
