(* ===== verification/Node_Hub_Inv.thy ===== *)
theory Node_Hub_Inv
  imports Node_Hub Node_Handshake "HOL-Library.Multiset"
begin

text \<open>
  What the node hub promises: its counters are those of the nodes that are connected, in every run of its loops, timers and
  callbacks; a tick of the service timer stops a bounded number of nodes; and where the hub fails.
\<close>

section \<open>Connected nodes and counters\<close>

definition alive :: "hub_node \<Rightarrow> bool" where
  "alive h = (nd_state (hn_node h) \<noteq> kNotStarted)"

definition connected_nodes :: "node_hub \<Rightarrow> hub_node list" where
  "connected_nodes hub = filter alive (hb_nodes hub)"

definition peer_of :: "hub_node \<Rightarrow> ip_address \<times> connection_type" where
  "peer_of h = (ep_address (hn_remote h), nd_connection_type (hn_node h))"

definition peers :: "hub_node list \<Rightarrow> (ip_address \<times> connection_type) multiset" where
  "peers hs = image_mset peer_of (filter_mset alive (mset hs))"

lemma peers_simps [simp]:
  "peers [] = {#}" "peers (h # hs) = (if alive h then add_mset (peer_of h) (peers hs) else peers hs)" "peers (hs @ ks) = peers hs + peers ks"
  by (simp_all add: peers_def)

definition counters :: "node_hub \<Rightarrow> (32 word \<times> 32 word \<times> 32 word) \<times> (ip_address \<rightharpoonup> 32 word) \<times> (64 word \<times> 64 word)" where
  "counters hub = ((hb_current_active hub, hb_current_active_inbound hub, hb_current_active_outbound hub), hb_connected_addresses hub,
    (hb_total_connections hub, hb_total_disconnections hub))"

text \<open>The map of the addresses that a collection of peers has.\<close>

definition peers_at :: "(ip_address \<times> connection_type) multiset \<Rightarrow> ip_address \<Rightarrow> nat" where
  "peers_at M a = size (filter_mset (\<lambda>p. fst p = a) M)"

lemma peers_at_simps [simp]: "peers_at {#} a = 0" "peers_at (add_mset (b, t) M) a = (if b = a then Suc (peers_at M a) else peers_at M a)"
  by (simp_all add: peers_at_def)

lemma peers_at_size: "peers_at M a \<le> size M"
  unfolding peers_at_def by (rule size_filter_mset_lesseq)

definition addresses_of :: "(ip_address \<times> connection_type) multiset \<Rightarrow> (ip_address \<rightharpoonup> 32 word)" where
  "addresses_of M = (\<lambda>a. if peers_at M a = 0 then None else Some (of_nat (peers_at M a)))"

definition counters_ok :: "(ip_address \<times> connection_type) multiset \<Rightarrow> node_hub \<Rightarrow> bool" where
  "counters_ok M hub =
    (hb_current_active hub = of_nat (size M) \<and> hb_current_active_inbound hub = of_nat (size (filter_mset (\<lambda>p. snd p = kInbound) M)) \<and>
     hb_current_active_outbound hub = of_nat (size (filter_mset (\<lambda>p. snd p \<noteq> kInbound) M)) \<and>
     hb_connected_addresses hub = addresses_of M \<and> hb_total_connections hub - hb_total_disconnections hub = of_nat (size M))"

lemma counters_ok_cong: "counters hub' = counters hub \<Longrightarrow> counters_ok M hub' = counters_ok M hub"
  by (simp add: counters_def counters_ok_def)

lemma of_nat_word_zero: "k < 2 ^ 32 \<Longrightarrow> (of_nat k :: 32 word) = 0 \<longleftrightarrow> k = 0"
  by (auto simp: word_of_nat_eq_0_iff dest: dvd_imp_le)

lemma addresses_add:
  "addresses_of (add_mset (a, t) M) = (addresses_of M)(a \<mapsto> 1 + (case addresses_of M a of None \<Rightarrow> 0 | Some k \<Rightarrow> k))"
  by (rule ext) (simp add: addresses_of_def)

lemma addresses_remove:
  assumes "size M < 2 ^ 32"
  shows "(case addresses_of (add_mset (a, t) M) a of None \<Rightarrow> addresses_of (add_mset (a, t) M)
    | Some k \<Rightarrow> if k - 1 = 0 then (addresses_of (add_mset (a, t) M))(a := None) else (addresses_of (add_mset (a, t) M))(a \<mapsto> k - 1)) = addresses_of M"
proof -
  have "peers_at M a < 2 ^ 32" using assms peers_at_size [of M a] by linarith
  from of_nat_word_zero [OF this] show ?thesis by (intro ext) (simp add: addresses_of_def)
qed

lemma connected_counters:
  assumes "counters_ok M hub" "on_node_connected h hub = Some hub'"
  shows "counters_ok (add_mset (peer_of h) M) hub'" "hb_nodes hub' = hb_nodes hub @ [h]" "hb_next_node_id hub' = hb_next_node_id hub"
proof -
  let ?t = "nd_connection_type (hn_node h)" and ?a = "ep_address (hn_remote h)"
  show "counters_ok (add_mset (peer_of h) M) hub'"
    using assms(2) assms(1) [unfolded counters_ok_def]
    by (cases ?t) (auto simp: counters_ok_def on_node_connected_def count_active_def peer_of_def Let_def addresses_add algebra_simps)
  show "hb_nodes hub' = hb_nodes hub @ [h]" "hb_next_node_id hub' = hb_next_node_id hub"
    using assms(2) by (cases ?t; force simp: on_node_connected_def count_active_def Let_def)+
qed

lemma disconnected_counters:
  assumes "counters_ok (add_mset (peer_of h) M) hub" "on_node_disconnected h hub = Some hub'" "size M < 2 ^ 32"
  shows "counters_ok M hub'" "hb_nodes hub' = hb_nodes hub" "hb_next_node_id hub' = hb_next_node_id hub"
proof -
  let ?t = "nd_connection_type (hn_node h)" and ?a = "ep_address (hn_remote h)"
  note rem = addresses_remove [OF assms(3)]
  show "counters_ok M hub'"
    using assms(2) assms(1) [unfolded counters_ok_def]
    by (cases ?t) (auto simp: counters_ok_def on_node_disconnected_def count_active_def peer_of_def Let_def rem algebra_simps)
  show "hb_nodes hub' = hb_nodes hub" "hb_next_node_id hub' = hb_next_node_id hub"
    using assms(2) by (cases ?t; force simp: on_node_disconnected_def count_active_def Let_def)+
qed

section \<open>The invariant\<close>

definition node_ok :: "hub_node \<Rightarrow> bool" where
  "node_ok h = (life_ok (life (hn_node h)) \<and> nd_connection_type (hn_node h) \<noteq> kNone)"

definition hub_inv :: "hub_settings \<Rightarrow> node_hub \<Rightarrow> bool" where
  "hub_inv st hub =
    (distinct (map hn_id (hb_nodes hub)) \<and> (\<forall>h\<in>set (hb_nodes hub). hn_id h < hb_next_node_id hub \<and> node_ok h) \<and>
     counters_ok (peers (hb_nodes hub)) hub \<and> size (peers (hb_nodes hub)) \<le> unat (hs_max_active_connections st))"

lemma hub_inv_new: "hub_inv st (node_hub_new book now)"
  by (simp add: hub_inv_def node_hub_new_def counters_ok_def addresses_of_def)

text \<open>What a step leaves alone.\<close>

definition quiet :: "node_hub \<Rightarrow> node_hub \<Rightarrow> bool" where
  "quiet hub hub' = (hb_nodes hub' = hb_nodes hub \<and> counters hub' = counters hub \<and> hb_next_node_id hub' = hb_next_node_id hub)"

lemma quiet_refl [simp]: "quiet hub hub"
  by (simp add: quiet_def)

lemma quiet_trans: "quiet a b \<Longrightarrow> quiet b c \<Longrightarrow> quiet a c"
  by (simp add: quiet_def)

lemma quiet_update [simp]:
  "quiet hub (hub'\<lparr>hb_state := a\<rparr>) = quiet hub hub'" "quiet hub (hub'\<lparr>hb_needed_connections := b\<rparr>) = quiet hub hub'"
  "quiet hub (hub'\<lparr>hb_need_notified := c\<rparr>) = quiet hub hub'" "quiet hub (hub'\<lparr>hb_node_factory_feed := d\<rparr>) = quiet hub hub'"
  "quiet hub (hub'\<lparr>hb_connector_feed := e\<rparr>) = quiet hub hub'" "quiet hub (hub'\<lparr>hb_address_book_feed := f\<rparr>) = quiet hub hub'"
  "quiet hub (hub'\<lparr>hb_feeds_open := g\<rparr>) = quiet hub hub'" "quiet hub (hub'\<lparr>hb_address_book := i\<rparr>) = quiet hub hub'"
  "quiet hub (hub'\<lparr>hb_total_rejected := j\<rparr>) = quiet hub hub'" "quiet hub (hub'\<lparr>hb_traffic_meter := k\<rparr>) = quiet hub hub'"
  "quiet hub (hub'\<lparr>hb_last_advertisement := l\<rparr>) = quiet hub hub'" "quiet hub (hub'\<lparr>hb_service_timer := m\<rparr>) = quiet hub hub'"
  by (simp_all add: quiet_def counters_def)

lemma hub_inv_quiet: "quiet hub hub' \<Longrightarrow> hub_inv st hub' = hub_inv st hub"
  by (simp add: quiet_def hub_inv_def counters_ok_cong [of hub' hub])

lemma quiet_data: "quiet hub (on_node_data direction k hub)"
  by (cases direction) (simp_all add: on_node_data_def)

lemma quiet_acceptor: "acceptor_work st remote hub = Some hub' \<Longrightarrow> quiet hub hub'"
  by (auto simp: acceptor_work_def connection_new_def split: if_splits)

lemma quiet_connector: "connector_work aenv st now dialled c hub = Some hub' \<Longrightarrow> quiet hub hub'"
  by (auto simp: connector_work_def Let_def split: if_splits Option.bind_splits)

lemma quiet_select: "select_addresses now type rounds hub = Some hub' \<Longrightarrow> quiet hub hub'"
proof (induction now type rounds hub rule: select_addresses.induct)
  case (3 now type draws accepted rounds hub)
  from "3.prems" obtain r book where s: "select_random now draws False type (hb_address_book hub) = Some (r, book)"
    by (auto split: option.splits)
  show ?case
  proof (cases r)
    case None
    from "3.IH"(1) [OF s [unfolded None] refl refl] "3.prems" s None show ?thesis by (auto intro: quiet_trans [rotated])
  next
    case (Some ep)
    obtain e l where ep: "ep = (e, l)" by fastforce
    obtain c where c: "connection_new e kOutbound = Some c" by (simp add: connection_new_def)
    let ?hub = "hub\<lparr>hb_address_book := book\<rparr>"
    have q: "quiet hub (if accepted then ?hub\<lparr>hb_connector_feed := hb_connector_feed ?hub @ [c]\<rparr> else ?hub)" by simp
    have "select_addresses now type rounds (if accepted then ?hub\<lparr>hb_connector_feed := hb_connector_feed ?hub @ [c]\<rparr> else ?hub) = Some hub'"
      using "3.prems" s Some ep c by (simp add: Let_def)
    from quiet_trans [OF q "3.IH"(2) [OF s [unfolded Some ep] refl refl refl refl c this]] show ?thesis .
  qed
qed simp_all

lemma quiet_selector: "address_book_selector_work st now rounds hub = Some hub' \<Longrightarrow> quiet hub hub'"
  by (auto simp: address_book_selector_work_def split: if_splits dest!: quiet_select intro: quiet_trans [rotated])

lemma quiet_feed: "feed_all type eas hub = Some hub' \<Longrightarrow> quiet hub hub'"
proof (induction eas arbitrary: hub)
  case (Cons ea eas)
  then obtain hub1 where "feed_connector type ea hub = Some hub1" "feed_all type eas hub1 = Some hub'"
    by (auto split: Option.bind_splits)
  moreover from this(1) have "quiet hub hub1" by (auto simp: feed_connector_def split: prod.splits)
  ultimately show ?case using Cons.IH quiet_trans by blast
qed simp

lemma quiet_start: "hub_start asio bt st config connect_nodes sc hub = Some (r, hub') \<Longrightarrow> quiet hub hub'"
  by (auto simp: hub_start_def feed_connections_from_cli_def feed_connections_from_dns_def Let_def
      split: prod.splits bool.splits if_splits Option.bind_splits option.splits dest!: quiet_feed intro: quiet_trans [rotated])

lemma quiet_stop: "hub_stop hub = (r, hub') \<Longrightarrow> quiet hub hub'"
  by (auto simp: hub_stop_def split: prod.splits bool.splits)

lemma quiet_stop_completed: "hub_stop_completed hub = (saved, hub') \<Longrightarrow> quiet hub hub'"
  by (auto simp: hub_stop_completed_def split: prod.splits)

lemma quiet_info: "on_info_timer_expired now hub = (connections, buckets, bytes, speed, hub') \<Longrightarrow> quiet hub hub'"
  by (auto simp: on_info_timer_expired_def Let_def split: prod.splits)

text \<open>A node of the hub that has moved on without being disconnected.\<close>

definition same_peer :: "hub_node \<Rightarrow> hub_node \<Rightarrow> bool" where
  "same_peer h h' = (hn_id h' = hn_id h \<and> hn_remote h' = hn_remote h \<and> nd_connection_type (hn_node h') = nd_connection_type (hn_node h) \<and>
    alive h' = alive h \<and> (node_ok h \<longrightarrow> node_ok h'))"

lemma same_peer_refl [simp]: "same_peer h h"
  by (simp add: same_peer_def)

lemma same_peer_life: "life n = life (hn_node h) \<Longrightarrow> same_peer h (h\<lparr>hn_node := n\<rparr>)"
  by (auto simp: same_peer_def alive_def node_ok_def life_def)

lemma same_peer_stopped: "same_peer h (node_stopped h)"
  using life_stop [of "hn_node h"] onward_stop [of "hn_node h"]
  by (auto simp: same_peer_def node_stopped_def alive_def node_ok_def onward_def) (auto simp: node_stop_def stoppable_stop_def post_def Let_def split: if_splits)

lemma peer_of_same: "same_peer h h' \<Longrightarrow> peer_of h' = peer_of h"
  by (simp add: same_peer_def peer_of_def)

lemma find_node_split:
  assumes "find_node i hub = Some h" "distinct (map hn_id (hb_nodes hub))"
  obtains xs ys where "hb_nodes hub = xs @ h # ys" "hn_id h = i" "\<And>n. hb_nodes (set_node i n hub) = xs @ h\<lparr>hn_node := n\<rparr> # ys"
proof -
  from assms(1) have "h \<in> set (hb_nodes hub)" and i: "hn_id h = i"
    by (auto simp: find_node_def find_Some_iff)
  then obtain xs ys where s: "hb_nodes hub = xs @ h # ys" by (blast dest: split_list)
  with assms(2) i have "\<forall>k\<in>set xs \<union> set ys. hn_id k \<noteq> i" by (auto simp: image_iff)
  then have "map (\<lambda>k. if hn_id k = i then k\<lparr>hn_node := n\<rparr> else k) xs = xs" "map (\<lambda>k. if hn_id k = i then k\<lparr>hn_node := n\<rparr> else k) ys = ys" for n
    by (simp_all add: map_idI)
  with s i show ?thesis by (intro that [of xs ys]) (simp_all add: set_node_def)
qed

lemma counters_set_node [simp]: "counters (set_node i n hub) = counters hub" "hb_next_node_id (set_node i n hub) = hb_next_node_id hub"
  by (simp_all add: set_node_def counters_def)

lemma hub_inv_set_node:
  assumes inv: "hub_inv st hub" and f: "find_node i hub = Some h" and same: "same_peer h (h\<lparr>hn_node := n\<rparr>)"
  shows "hub_inv st (set_node i n hub)"
proof -
  obtain xs ys where s: "hb_nodes hub = xs @ h # ys" "hb_nodes (set_node i n hub) = xs @ h\<lparr>hn_node := n\<rparr> # ys"
    by (rule find_node_split [OF f]) (use inv in \<open>auto simp: hub_inv_def\<close>)
  have "peers (hb_nodes (set_node i n hub)) = peers (hb_nodes hub)"
    using same peer_of_same [OF same] by (simp add: s same_peer_def)
  with inv same show ?thesis
    by (auto simp: hub_inv_def counters_ok_cong [of "set_node i n hub" hub] s same_peer_def)
qed

lemma hub_inv_book:
  assumes "hub_inv st hub" "find_node i hub = Some h" "life n = life (hn_node h)"
  shows "hub_inv st (set_node i n (hub\<lparr>hb_address_book := book\<rparr>))"
proof (rule hub_inv_set_node)
  show "hub_inv st (hub\<lparr>hb_address_book := book\<rparr>)" using assms(1) hub_inv_quiet [of hub "hub\<lparr>hb_address_book := book\<rparr>"] by simp
  show "find_node i (hub\<lparr>hb_address_book := book\<rparr>) = Some h" using assms(2) by (simp add: find_node_def)
qed (rule same_peer_life [OF assms(3)])

lemma find_node_id: "find_node i hub = Some h \<Longrightarrow> hn_id h = i"
  by (auto simp: find_node_def find_Some_iff)

lemma hub_inv_message:
  assumes "hub_inv st hub" "find_node i hub = Some h" "on_node_received_message env aenv st now accepted h p hub = Some hub'"
  shows "hub_inv st hub'"
proof -
  have "hub_inv st hub1" if "quiet hub hub1" for hub1 using assms(1) hub_inv_quiet [OF that] by simp
  then show ?thesis
    using assms(1,3) hub_inv_book [OF assms(1,2)] find_node_id [OF assms(2)]
    by (auto simp: on_node_received_message_def split: if_splits message_type.splits Option.bind_splits dest!: life_push)
qed

lemma hub_inv_processor:
  assumes "hub_inv st hub" "find_node i hub = Some h" "address_book_processor_work env aenv now draws h p hub = Some hub'"
  shows "hub_inv st hub'"
proof -
  have "hub_inv st hub1" if "quiet hub hub1" for hub1 using assms(1) hub_inv_quiet [OF that] by simp
  then show ?thesis
    using assms(1,3) hub_inv_book [OF assms(1,2)] find_node_id [OF assms(2)]
    by (auto simp: address_book_processor_work_def Let_def split: if_splits message_type.splits Option.bind_splits dest!: life_push life_push_type)
qed

lemma factory_cases:
  assumes "node_factory_work env st now v c hub = Some hub'"
  obtains hub1 where "quiet hub hub1" "hub' = hub1"
  | hub1 r n where "quiet hub hub1" "cn_type c \<noteq> kNone" "\<not> hub_size hub1 \<ge> hs_max_active_connections st"
      "node_start env now (node_new (cn_type c) (hs_use_tls st) v now) = Some (r, n)"
      "on_node_connected \<lparr>hn_id = hb_next_node_id hub1, hn_remote = cn_remote c, hn_node = n\<rparr> (hub1\<lparr>hb_next_node_id := hb_next_node_id hub1 + 1\<rparr>) = Some hub'"
proof -
  define hub1 where "hub1 = (if cn_type c = kOutbound then hub\<lparr>hb_needed_connections := hb_needed_connections hub - 1\<rparr> else hub)"
  have q: "quiet hub hub1" by (simp add: hub1_def)
  obtain opened where o: "cn_socket c = Some opened" "cn_type c \<noteq> kNone"
    using assms by (auto simp: node_factory_work_def split: option.splits if_splits)
  have e: "(if \<not> opened then Some hub1
      else if hub_size hub1 \<ge> hs_max_active_connections st then Some (hub1\<lparr>hb_total_rejected := hb_total_rejected hub1 + 1\<rparr>)
      else Option.bind (node_start env now (node_new (cn_type c) (hs_use_tls st) v now))
        (\<lambda>(_, n). on_node_connected \<lparr>hn_id = hb_next_node_id hub1, hn_remote = cn_remote c, hn_node = n\<rparr> (hub1\<lparr>hb_next_node_id := hb_next_node_id hub1 + 1\<rparr>))) = Some hub'"
    using assms unfolding node_factory_work_def Let_def hub1_def o(1) option.case if_not_P [OF o(2)] .
  show ?thesis
  proof (cases "opened \<and> \<not> hub_size hub1 \<ge> hs_max_active_connections st")
    case True
    with e obtain r n where n: "node_start env now (node_new (cn_type c) (hs_use_tls st) v now) = Some (r, n)"
        "on_node_connected \<lparr>hn_id = hb_next_node_id hub1, hn_remote = cn_remote c, hn_node = n\<rparr> (hub1\<lparr>hb_next_node_id := hb_next_node_id hub1 + 1\<rparr>) = Some hub'"
      by (cases "node_start env now (node_new (cn_type c) (hs_use_tls st) v now)") auto
    from that(2) [OF q o(2) conjunct2 [OF True] n] show ?thesis .
  next
    case False
    with e have "quiet hub hub'" using q by (auto split: if_splits)
    from that(1) [OF this refl] show ?thesis .
  qed
qed

lemma hub_inv_factory:
  assumes inv: "hub_inv st hub" and f: "node_factory_work env st now v c hub = Some hub'"
  shows "hub_inv st hub'"
  using f
proof (cases rule: factory_cases)
  case (1 hub1)
  with inv show ?thesis by (simp add: hub_inv_quiet)
next
  case (2 hub1 r n)
  let ?h = "\<lparr>hn_id = hb_next_node_id hub1, hn_remote = cn_remote c, hn_node = n\<rparr>" and ?M = "peers (hb_nodes hub1)"
  have inv1: "hub_inv st hub1" using inv 2(1) by (simp add: hub_inv_quiet)
  have h: "node_ok ?h" "alive ?h" using life_start [OF 2(4)] 2(2) by (auto simp: node_ok_def life_ok_def alive_def life_def)
  have "counters_ok ?M (hub1\<lparr>hb_next_node_id := hb_next_node_id hub1 + 1\<rparr>)" using inv1 by (simp add: hub_inv_def counters_ok_def)
  note c = connected_counters [OF this 2(5)]
  have "size ?M \<le> unat (hs_max_active_connections st)" using inv1 by (simp add: hub_inv_def)
  moreover have "unat (hs_max_active_connections st) < 2 ^ 32" using unsigned_less [of "hs_max_active_connections st"] by simp
  ultimately have "unat (of_nat (size ?M) :: 32 word) = size ?M" by (simp add: unsigned_of_nat take_bit_nat_eq_self)
  moreover have "hub_size hub1 = of_nat (size ?M)" using inv1 by (simp add: hub_inv_def counters_ok_def hub_size_def)
  ultimately have "size ?M < unat (hs_max_active_connections st)" using 2(3) by (simp add: word_le_nat_alt)
  moreover have ids: "\<forall>k\<in>set (hb_nodes hub1). hn_id k < hb_next_node_id hub1 \<and> node_ok k" "distinct (map hn_id (hb_nodes hub1))"
    using inv1 by (simp_all add: hub_inv_def)
  ultimately have "size (peers (hb_nodes hub')) \<le> unat (hs_max_active_connections st)" "counters_ok (peers (hb_nodes hub')) hub'"
    using c(1,2) h(2) by simp_all
  moreover have "distinct (map hn_id (hb_nodes hub'))" using ids c(2) by (auto simp: image_iff)
  moreover have "\<forall>k\<in>set (hb_nodes hub'). hn_id k < hb_next_node_id hub' \<and> node_ok k" using ids(1) c(2,3) h(1) by (auto simp: less_SucI)
  ultimately show ?thesis by (simp only: hub_inv_def)
qed

lemma life_ok_alive: "node_ok h \<Longrightarrow> alive h \<longleftrightarrow> nd_disconnected (hn_node h) = 0" "node_ok h \<Longrightarrow> nd_disconnected (hn_node h) \<le> 1"
  by (auto simp: node_ok_def alive_def life_ok_def life_def split: component_status.splits)

lemma hub_inv_handler:
  assumes inv: "hub_inv st hub" and f: "find_node i hub = Some h" and s: "node_step env (hn_node h) n"
    and d: "(if nd_disconnected n = nd_disconnected (hn_node h) then Some hub else on_node_disconnected h hub) = Some hub'"
  shows "hub_inv st (set_node i n hub')"
proof -
  let ?h = "h\<lparr>hn_node := n\<rparr>"
  have "distinct (map hn_id (hb_nodes hub))" using inv by (simp add: hub_inv_def)
  from find_node_split [OF f this] obtain xs ys where sp: "hb_nodes hub = xs @ h # ys" "hn_id h = i" "\<And>n. hb_nodes (set_node i n hub) = xs @ h\<lparr>hn_node := n\<rparr> # ys"
    by blast
  have ok: "node_ok h" using inv sp(1) by (simp add: hub_inv_def)
  have n: "node_ok ?h" "onward (hn_node h) n" using ok life_step [OF s] onward_step [OF s] by (simp_all add: node_ok_def onward_def)
  show ?thesis
  proof (cases "nd_disconnected n = nd_disconnected (hn_node h)")
    case True
    then have "same_peer h ?h"
      using life_ok_alive(1) [OF ok] life_ok_alive(1) [OF n(1)] n by (simp add: same_peer_def onward_def)
    with True d show ?thesis using hub_inv_set_node [OF inv f] by simp
  next
    case False
    then have a: "alive h" "\<not> alive ?h" and d': "on_node_disconnected h hub = Some hub'"
      using n(2) d life_ok_alive [OF ok] life_ok_alive [OF n(1)] by (auto simp: onward_def)
    have p: "peers (hb_nodes hub) = add_mset (peer_of h) (peers (xs @ ys))" using a(1) by (simp add: sp(1))
    have bound: "size (peers (hb_nodes hub)) \<le> unat (hs_max_active_connections st)" using inv by (simp add: hub_inv_def)
    also have "\<dots> < 2 ^ 32" using unsigned_less [of "hs_max_active_connections st"] by simp
    finally have "size (peers (xs @ ys)) < 2 ^ 32" by (simp add: p)
    moreover have "counters_ok (add_mset (peer_of h) (peers (xs @ ys))) hub" using inv p by (simp add: hub_inv_def)
    ultimately have c: "counters_ok (peers (xs @ ys)) hub'" "hb_nodes hub' = hb_nodes hub" "hb_next_node_id hub' = hb_next_node_id hub"
      using disconnected_counters [OF _ d'] by simp_all
    have nodes: "hb_nodes (set_node i n hub') = xs @ ?h # ys" using sp(3) [of n] c(2) by (simp add: set_node_def)
    have "counters_ok (peers (hb_nodes (set_node i n hub'))) (set_node i n hub')"
      using c(1) a(2) by (simp add: nodes counters_ok_cong [of "set_node i n hub'" hub'])
    moreover have "size (peers (hb_nodes (set_node i n hub'))) \<le> unat (hs_max_active_connections st)"
      using bound a(2) by (simp add: nodes p)
    ultimately show ?thesis
      using inv n(1) c(3) by (auto simp: hub_inv_def nodes sp(1))
  qed
qed

section \<open>Ticks of the service timer\<close>

lemma tick_node_cases:
  "tick_node env tc plan i h = Erase \<Longrightarrow> \<not> alive h"
  "tick_node env tc plan i h = Keep n \<Longrightarrow> same_peer h (h\<lparr>hn_node := n\<rparr>)"
  by (auto simp: tick_node_def alive_def Let_def split: if_splits option.splits intro: same_peer_life dest: life_push)

lemma tick_nodes_peers:
  assumes "tick_nodes env tc plan i k hs = Some hs'"
  shows "peers hs' = peers hs \<and> (\<forall>h'\<in>set hs'. \<exists>h\<in>set hs. same_peer h h') \<and> (distinct (map hn_id hs) \<longrightarrow> distinct (map hn_id hs'))"
  using assms
proof (induction env tc plan i k hs arbitrary: hs' rule: tick_nodes.induct)
  case (2 env tc plan i k h hs)
  have cons: "?case" if "hs' = h' # gs" "same_peer h h'"
    "peers gs = peers hs \<and> (\<forall>h'\<in>set gs. \<exists>h\<in>set hs. same_peer h h') \<and> (distinct (map hn_id hs) \<longrightarrow> distinct (map hn_id gs))" for h' gs
  proof -
    have "set (map hn_id gs) \<subseteq> set (map hn_id hs)" using that(3) by (fastforce simp: same_peer_def)
    moreover have "hn_id h' = hn_id h" "alive h' = alive h" using that(2) by (simp_all add: same_peer_def)
    ultimately show ?thesis using that peer_of_same [OF that(2)] by auto
  qed
  show ?case
  proof (cases "tick_node env tc plan i h")
    case Erase
    with "2.IH"(1) "2.prems" tick_node_cases(1) [OF Erase] show ?thesis by auto
  next
    case Stop
    show ?thesis
    proof (cases "k - 1 = 0")
      case True
      with Stop "2.prems" have "hs' = node_stopped h # hs" by simp
      then show ?thesis by (rule cons [OF _ same_peer_stopped]) (auto intro: same_peer_refl)
    next
      case False
      with Stop "2.prems" obtain gs where "hs' = node_stopped h # gs" "tick_nodes env tc plan (i + 1) (k - 1) hs = Some gs" by auto
      with cons [OF _ same_peer_stopped] "2.IH"(2) [OF Stop False] show ?thesis by blast
    qed
  next
    case (Keep n)
    with "2.prems" obtain gs where "hs' = h\<lparr>hn_node := n\<rparr> # gs" "tick_nodes env tc plan (i + 1) k hs = Some gs" by auto
    with cons [OF _ tick_node_cases(2) [OF Keep]] "2.IH"(3) [OF Keep] show ?thesis by blast
  next
    case Abort
    with "2.prems" show ?thesis by simp
  qed
qed simp

lemma hub_inv_tick:
  assumes inv: "hub_inv st hub" and t: "on_service_timer_expired env st tc hub = Some (r, hub')"
  shows "hub_inv st hub'"
proof -
  from t obtain plan hs where hs: "tick_nodes env tc plan 0 kShutdownsPerTick (hb_nodes hub) = Some hs" and q: "quiet (hub\<lparr>hb_nodes := hs\<rparr>) hub'"
    by (fastforce simp: on_service_timer_expired_def ask_connections_def Let_def quiet_def counters_def split: option.splits if_splits)
  note p = tick_nodes_peers [OF hs]
  have "hub_inv st (hub\<lparr>hb_nodes := hs\<rparr>)"
    using inv p by (fastforce simp: hub_inv_def counters_ok_def same_peer_def)
  with q show ?thesis by (simp add: hub_inv_quiet)
qed

lemma inv_quiet: "quiet hub hub' \<Longrightarrow> hub_inv st hub \<Longrightarrow> hub_inv st hub'"
  by (simp add: hub_inv_quiet)

lemma hub_inv_step: "hub_step env aenv st hub hub' \<Longrightarrow> hub_inv st hub \<Longrightarrow> hub_inv st hub'"
proof (induction rule: hub_step.induct)
  case (factory hub c cs now v opened hub')
  have "hub_inv st (hub\<lparr>hb_node_factory_feed := cs\<rparr>)" using factory.prems hub_inv_quiet [of hub "hub\<lparr>hb_node_factory_feed := cs\<rparr>"] by simp
  then show ?case by (rule hub_inv_factory) (rule factory.hyps)
next
  case (connector hub c cs now dialled hub')
  have "quiet hub hub'" using quiet_trans [OF _ quiet_connector [OF connector.hyps(2)]] by simp
  with connector.prems show ?case by (simp add: hub_inv_quiet)
next
  case (processor hub i p items h now draws hub')
  have "hub_inv st (hub\<lparr>hb_address_book_feed := items\<rparr>)" using processor.prems hub_inv_quiet [of hub "hub\<lparr>hb_address_book_feed := items\<rparr>"] by simp
  moreover have "find_node i (hub\<lparr>hb_address_book_feed := items\<rparr>) = Some h" using processor.hyps(2) by (simp add: find_node_def)
  ultimately show ?case by (rule hub_inv_processor) (rule processor.hyps)
qed (blast intro: inv_quiet quiet_start quiet_selector quiet_acceptor hub_inv_tick quiet_info quiet_data hub_inv_message hub_inv_handler
    quiet_stop quiet_stop_completed)+

section \<open>Properties\<close>

lemma peers_lengths:
  "size (peers hs) = length (filter alive hs)"
  "size (filter_mset (\<lambda>p. snd p = t) (peers hs)) = length (filter (\<lambda>h. nd_connection_type (hn_node h) = t) (filter alive hs))"
  "size (filter_mset (\<lambda>p. snd p \<noteq> t) (peers hs)) = length (filter (\<lambda>h. nd_connection_type (hn_node h) \<noteq> t) (filter alive hs))"
  "peers_at (peers hs) a = length (filter (\<lambda>h. ep_address (hn_remote h) = a) (filter alive hs))"
  by (induction hs) (simp_all add: peer_of_def peers_at_def)

lemma unat_of_nat_below: "k \<le> n \<Longrightarrow> n < 2 ^ 32 \<Longrightarrow> unat (of_nat k :: 32 word) = k"
  by (simp add: unsigned_of_nat take_bit_nat_eq_self)



text \<open>C22. A peer that asks for addresses while the address book has fewer than four ids makes the hub fail an assertion: a quarter of
  them is rounded to nothing, and the answer is built from the type of a message that has content.\<close>

theorem getaddr_of_small_book_aborts:
  assumes "is_running (hb_state hub)" "payload_type p = kGetAddr" "book_inv aenv (hb_address_book hub)"
    and "length (ab_randomly_ordered_ids (hb_address_book hub)) < 4"
    and "\<And>k. k < length (ab_randomly_ordered_ids (hb_address_book hub)) \<Longrightarrow> k + pd_picks draws k < length (ab_randomly_ordered_ids (hb_address_book hub))"
  shows "address_book_processor_work env aenv now draws h p hub = None"
proof -
  let ?n = "length (ab_randomly_ordered_ids (hb_address_book hub))"
  obtain ret book where r: "get_random_services now (pd_picks draws) kMaxAddrItems 25 None (hb_address_book hub) = Some (ret, book)"
      "sample now None (services_count ?n kMaxAddrItems 25) (hb_address_book hub) ret"
    by (rule sample_book [OF assms(3,5)])
  have "services_count ?n kMaxAddrItems 25 = 0" using assms(4) by (simp add: services_count_def)
  with r(2) have "ret = []" by (simp add: sample_def)
  with r(1) assms(1,2) show ?thesis
    by (simp add: address_book_processor_work_def push_message_type_def null_payload_def)
qed


lemma unat_minus_one_word: "k \<noteq> 0 \<Longrightarrow> unat (k - 1 :: 32 word) = unat k - 1"
proof -
  assume "k \<noteq> 0"
  then have "1 \<le> k" by (simp add: word_le_nat_alt unat_gt_0 Suc_leI)
  then show ?thesis by (simp add: unat_sub)
qed

definition running_nodes :: "hub_node list \<Rightarrow> nat" where
  "running_nodes hs = length (filter (\<lambda>h. nd_state (hn_node h) = kStarted) hs)"

lemma running_nodes_simps [simp]:
  "running_nodes [] = 0" "running_nodes (h # hs) = (if nd_state (hn_node h) = kStarted then Suc (running_nodes hs) else running_nodes hs)"
  by (simp_all add: running_nodes_def)

lemma node_stopped_state: "nd_state (hn_node (node_stopped h)) \<noteq> kStarted"
  by (simp add: node_stopped_def node_stop_def stoppable_stop_def post_def Let_def)

lemma tick_node_running:
  "tick_node env tc plan i h = Erase \<Longrightarrow> nd_state (hn_node h) = kNotStarted"
  "tick_node env tc plan i h = Keep n \<Longrightarrow> nd_state n = nd_state (hn_node h)"
  by (auto simp: tick_node_def Let_def life_def split: if_splits option.splits dest!: life_push)

lemma tick_nodes_running:
  assumes "tick_nodes env tc plan i k hs = Some hs'" "k \<noteq> 0"
  shows "running_nodes hs \<le> running_nodes hs' + unat k"
  using assms
proof (induction env tc plan i k hs arbitrary: hs' rule: tick_nodes.induct)
  case (2 env tc plan i k h hs)
  note k = unat_minus_one_word [OF "2.prems"(2)]
  have pos: "0 < unat k" using "2.prems"(2) by (simp add: unat_gt_0)
  show ?case
  proof (cases "tick_node env tc plan i h")
    case Erase
    with "2.IH"(1) [OF Erase] "2.prems" tick_node_running(1) [OF Erase] show ?thesis by simp
  next
    case Stop
    show ?thesis
    proof (cases "k - 1 = 0")
      case True
      with Stop "2.prems" have "hs' = node_stopped h # hs" by simp
      with pos show ?thesis by simp
    next
      case False
      with Stop "2.prems" obtain gs where gs: "hs' = node_stopped h # gs" "tick_nodes env tc plan (i + 1) (k - 1) hs = Some gs" by auto
      from "2.IH"(2) [OF Stop False gs(2) False] k pos node_stopped_state [of h] show ?thesis unfolding gs(1) by (simp, arith)
    qed
  next
    case (Keep n)
    with "2.prems" obtain gs where gs: "hs' = h\<lparr>hn_node := n\<rparr> # gs" "tick_nodes env tc plan (i + 1) k hs = Some gs" by auto
    from "2.IH"(3) [OF Keep gs(2) "2.prems"(2)] tick_node_running(2) [OF Keep] show ?thesis by (simp add: gs(1))
  next
    case Abort
    with "2.prems" show ?thesis by simp
  qed
qed simp

lemma tick_result:
  assumes "on_service_timer_expired env st tc hub = Some (r, hub')"
  shows "\<exists>plan. tp_running plan = is_running (hb_state hub) \<and> tick_nodes env tc plan 0 kShutdownsPerTick (hb_nodes hub) = Some (hb_nodes hub') \<and>
    r = (\<not> is_running (hb_state hub) \<and> hb_nodes hub' = [])"
proof -
  have "hb_nodes (ask_connections st h) = hb_nodes h" for h by (simp add: ask_connections_def Let_def)
  moreover have "tp_running (tick_plan_of st tc hub) = is_running (hb_state hub)" by (simp add: tick_plan_of_def Let_def)
  ultimately show ?thesis
    using assms unfolding on_service_timer_expired_def Let_def
    by (intro exI [of _ "tick_plan_of st tc hub"]) (auto split: option.splits if_splits)
qed

text \<open>One tick of the service timer stops at most 32 nodes.\<close>

theorem tick_stops_bounded:
  assumes "on_service_timer_expired env st tc hub = Some (r, hub')"
  shows "running_nodes (hb_nodes hub) \<le> running_nodes (hb_nodes hub') + 32"
  using tick_result [OF assms] tick_nodes_running by (fastforce simp: kShutdownsPerTick_def)

section \<open>Shutdown\<close>

definition unstopped :: "hub_node list \<Rightarrow> nat" where
  "unstopped hs = length (filter alive hs)"

lemma unstopped_simps [simp]: "unstopped [] = 0" "unstopped (h # hs) = (if alive h then Suc (unstopped hs) else unstopped hs)"
  by (simp_all add: unstopped_def)

lemma running_unstopped: "running_nodes hs \<le> unstopped hs"
  by (induction hs) (auto simp: alive_def)

lemma tick_stopping:
  assumes "\<not> tp_running plan" "\<And>i. \<not> tc_shared tc i" "k \<noteq> 0"
  shows "\<exists>hs'. tick_nodes env tc plan i k hs = Some hs' \<and> running_nodes hs' \<le> unstopped hs - unat k \<and> (unstopped hs = 0 \<longrightarrow> hs' = [])"
  using assms(3)
proof (induction hs arbitrary: i k)
  case (Cons h hs)
  have pos: "0 < unat k" using Cons.prems by (simp add: unat_gt_0)
  show ?case
  proof (cases "alive h")
    case False
    then have "tick_node env tc plan i h = Erase" using assms(2) by (simp add: tick_node_def alive_def Let_def)
    with False Cons.IH [OF Cons.prems, of i] show ?thesis by simp
  next
    case True
    then have stop: "tick_node env tc plan i h = Stop" using assms(1) by (simp add: tick_node_def alive_def Let_def)
    show ?thesis
    proof (cases "k - 1 = 0")
      case True
      then have "unat k = 1" by (metis diff_eq_eq add_0 unat_1)
      with stop True \<open>alive h\<close> running_unstopped [of hs] node_stopped_state [of h] show ?thesis by simp
    next
      case False
      from Cons.IH [OF False, of "i + 1"] obtain hs' where hs': "tick_nodes env tc plan (i + 1) (k - 1) hs = Some hs'" "running_nodes hs' \<le> unstopped hs - unat (k - 1)"
        by blast
      with False stop True node_stopped_state [of h] pos unat_minus_one_word [OF Cons.prems] show ?thesis by simp
    qed
  qed
qed simp

text \<open>Between two ticks, the nodes that were asked to stop complete it.\<close>

definition stops_complete :: "hub_node list \<Rightarrow> hub_node list \<Rightarrow> bool" where
  "stops_complete = list_all2 (\<lambda>h h'. nd_state (hn_node h) \<noteq> kStarted \<longrightarrow> nd_state (hn_node h') = kNotStarted)"

lemma unstopped_after: "stops_complete hs hs' \<Longrightarrow> unstopped hs' \<le> running_nodes hs"
  unfolding stops_complete_def by (induction rule: list_all2_induct) (auto simp: alive_def)

lemma stopping_tick:
  assumes "\<not> is_running (hb_state hub)" "\<And>i. \<not> tc_shared tc i"
  obtains r hub' where "on_service_timer_expired env st tc hub = Some (r, hub')" "running_nodes (hb_nodes hub') \<le> unstopped (hb_nodes hub) - 32"
    "unstopped (hb_nodes hub) = 0 \<Longrightarrow> r"
proof -
  let ?plan = "tick_plan_of st tc hub"
  have p: "\<not> tp_running ?plan" "tp_self_advertise ?plan = None" using assms(1) by (simp_all add: tick_plan_of_def Let_def)
  obtain hs' where hs': "tick_nodes env tc ?plan 0 kShutdownsPerTick (hb_nodes hub) = Some hs'" "running_nodes hs' \<le> unstopped (hb_nodes hub) - 32"
      "unstopped (hb_nodes hub) = 0 \<longrightarrow> hs' = []"
    using tick_stopping [OF p(1) assms(2), of kShutdownsPerTick env 0 "hb_nodes hub"] by (auto simp: kShutdownsPerTick_def)
  let ?hub = "hub\<lparr>hb_last_advertisement := Some (last_advertisement tc hub), hb_nodes := hs'\<rparr>"
  have "hb_nodes (ask_connections st h) = hb_nodes h" for h by (simp add: ask_connections_def Let_def)
  with p hs' show ?thesis
    by (intro that [of "hs' = []" "if hs' = [] then ?hub\<lparr>hb_service_timer := False\<rparr> else ask_connections st ?hub"])
      (simp_all add: on_service_timer_expired_def Let_def)
qed


section \<open>Seeds\<close>

lemma dns_resolve_lookup:
  assumes "distinct hosts" "\<forall>h\<in>set hosts. ret h = None"
  shows "dns_resolve st resolve version hosts ret host =
    (if host \<in> set hosts then map_option (map (\<lambda>a. \<lparr>ep_address = a, ep_port = hs_default_port st\<rparr>)) (resolve version host) else ret host)"
  using assms
proof (induction hosts arbitrary: ret)
  case (Cons h hosts)
  show ?case
  proof (cases "resolve version h")
    case None
    with Cons show ?thesis by auto
  next
    case (Some as)
    let ?ret = "ret(h \<mapsto> map (\<lambda>a. \<lparr>ep_address = a, ep_port = hs_default_port st\<rparr>) as)"
    have d: "distinct hosts" "\<forall>k\<in>set hosts. ?ret k = None" using Cons.prems by auto
    show ?thesis using Some Cons.prems by (simp add: Cons.IH [of ?ret, OF d] del: fun_upd_apply) simp
  qed
qed simp

text \<open>C25. A seed that resolves to IPv4 addresses is dialled at these only, whatever IPv6 addresses it has: the second resolution is merged
  into a map that has the host already. Every endpoint has the port of the chain.\<close>

theorem seeds_resolved_once:
  assumes "distinct hosts" "host \<in> set hosts"
  shows "resolved_seeds st resolve hosts host =
    map_option (map (\<lambda>a. \<lparr>ep_address = a, ep_port = hs_default_port st\<rparr>))
      (case resolve kIPv4 host of Some as \<Rightarrow> Some as | None \<Rightarrow> if hs_ipv4_only st then None else resolve kIPv6 host)"
  using dns_resolve_lookup [OF assms(1), of Map.empty st resolve _ host] assms(2)
  by (simp add: resolved_seeds_def map_merge_def map_add_def Let_def split: option.split)

section \<open>Examples\<close>

definition small_settings :: hub_settings where
  "small_settings = \<lparr>hs_max_active_connections = 8, hs_max_active_connections_per_ip = 1, hs_min_outgoing_connections = 4, hs_ipv4_only = False,
    hs_force_dns_seeding = False, hs_use_tls = False, hs_nat_address = V4 0, hs_default_port = 9033\<rparr>"

definition empty_hub :: node_hub where
  "empty_hub = (node_hub_new (address_book_new (replicate 16 7)) 0)\<lparr>hb_state := kStarted\<rparr>"

definition some_endpoint :: ip_endpoint where
  "some_endpoint = \<lparr>ep_address = V4 0x08080808, ep_port = 9033\<rparr>"

definition some_node :: hub_node where
  "some_node = \<lparr>hn_id = 1, hn_remote = some_endpoint, hn_node = node_new kInbound False version_payload_new 0\<rparr>"

definition some_tick :: tick_choice where
  "some_tick = \<lparr>tc_now = 0, tc_wall = 0, tc_draw = 1, tc_index = 0, tc_shared = \<lambda>_. False\<rparr>"



theorem getaddr_of_small_book_aborts_witness:
  "address_book_processor_work idle_env book_env 0 \<lparr>pd_shuffled = [], pd_draws = \<lambda>_. 0, pd_picks = \<lambda>_. 0\<rparr> some_node (the (null_payload kGetAddr)) empty_hub = None"
proof (rule getaddr_of_small_book_aborts)
  show "book_inv book_env (hb_address_book empty_hub)" by (simp add: empty_hub_def node_hub_new_def book_inv_new)
qed (simp_all add: empty_hub_def node_hub_new_def is_running_def address_book_new_def null_payload_def)


theorem tick_stops_bounded_witness:
  "\<exists>r hub'. on_service_timer_expired idle_env small_settings some_tick empty_hub = Some (r, hub') \<and>
    running_nodes (hb_nodes empty_hub) \<le> running_nodes (hb_nodes hub') + 32"
proof -
  obtain hub' where 1: "on_service_timer_expired idle_env small_settings some_tick empty_hub = Some (False, hub')"
    by (simp add: on_service_timer_expired_def tick_plan_of_def is_running_def some_tick_def empty_hub_def node_hub_new_def last_advertisement_def
        kNanosPerMinute_def kNanosPerSecond_def Let_def)
  with tick_stops_bounded [OF 1] show ?thesis by blast
qed

definition stopping_hub :: "nat \<Rightarrow> node_hub" where
  "stopping_hub k = empty_hub\<lparr>hb_state := kStopping,
    hb_nodes := (if k = 0 then [some_node\<lparr>hn_node := (hn_node some_node)\<lparr>nd_state := kStarted\<rparr>\<rparr>] else if k = 1 then [some_node] else [])\<rparr>"


theorem seeds_resolved_once_witness:
  "resolved_seeds small_settings (\<lambda>version host. Some [if version = kIPv4 then V4 0x08080808 else V6 1]) [''seed''] ''seed'' = Some [some_endpoint]"
  by (subst seeds_resolved_once) (simp_all add: small_settings_def some_endpoint_def)

end
