(* ===== verification/Spec2Isabelle.thy ===== *)
theory Spec2Isabelle
  imports Serialize Hex Base58 Crypto Containers Locked_Pages Hash_Type Block Amounts Chain_Config Addresses Misc Message Address_Book_Store Node_Link Node_Life Node_Hub_Inv
begin

text \<open>
  znode: a verification development.

  Theories: \<open>Prelude\<close> (bytes, outcomes, integers as bytes), \<open>Errors\<close> (error
  codes), \<open>Data_Stream\<close> (the byte streams), \<open>Serialize\<close> (integers, compact
  sizes, bind functions and the contract of a serializable type), \<open>Hex\<close> and
  \<open>Base58\<close> (text encodings).
\<close>

section \<open>From a payload to a payload\<close>



end
